(* ===== verification/SP_Prelude.thy ===== *)
theory SP_Prelude
  imports Main
begin

text \<open>
  What the components share: the memory of C objects as byte lists (arrays of \<open>char\<close>, C
  strings, \<open>memcpy\<close>, \<open>strcpy\<close>, \<open>scanf\<close> with \<open>%s\<close>, 32-bit integers in little-endian order),
  the result type of code whose behaviour may be undefined, generic facts on lists, and the
  interface \<open>invariant_system\<close> through which every state machine of the development gets its
  reachable-state invariant.
\<close>

named_theorems bytes_simps \<open>lengths and contents of byte buffers\<close>
named_theorems state_simps \<open>fields after an operation of a component\<close>

section \<open>Results\<close>

text \<open>
  A write outside an array is undefined behaviour in C, and so is reading on past the end of an
  object for want of a terminating zero (\<open>Buffer_Overread\<close>). The model does not continue past it: the
  operation returns the fault on the left of a sum. \<open>Blocked\<close> is a system call that never
  returns; \<open>Input_Taken\<close> one that returns only when another process, which has taken over standard input,
  has ended.
\<close>

datatype fault = Buffer_Overflow | Index_Out_Of_Bounds | Null_Dereference | Program_Exit int | Blocked
  | Input_Taken | Buffer_Overread

type_synonym 'a result = "fault + 'a"

section \<open>Bytes, C strings and integers in memory\<close>

type_synonym byte = char
type_synonym bytes = "byte list"

abbreviation NUL :: byte where
  "NUL \<equiv> CHR 0x00"

text \<open>The C string that starts at the beginning of a buffer (what \<open>strlen\<close>, \<open>strcmp\<close> and
  \<open>printf("%s")\<close> see): the bytes before the first NUL, or the whole buffer if it has none.\<close>

definition cstr :: "bytes \<Rightarrow> string" where
  "cstr buf = takeWhile (\<lambda>c. c \<noteq> NUL) buf"

text \<open>\<open>peek off n mem\<close> reads \<open>n\<close> bytes at offset \<open>off\<close>; \<open>poke off bs mem\<close> is \<open>memcpy\<close> of the
  bytes \<open>bs\<close> to offset \<open>off\<close>.\<close>

definition peek :: "nat \<Rightarrow> nat \<Rightarrow> bytes \<Rightarrow> bytes" where
  "peek off n mem = take n (drop off mem)"

definition poke :: "nat \<Rightarrow> bytes \<Rightarrow> bytes \<Rightarrow> bytes" where
  "poke off bs mem = take off mem @ bs @ drop (off + length bs) mem"

text \<open>\<open>strcpy\<close> of a C string to the start of a buffer, and \<open>scanf("%s")\<close> of a word to an offset of
  an object: the word and its NUL must fit in the object.\<close>

definition strcpy :: "string \<Rightarrow> bytes \<Rightarrow> bytes" where
  "strcpy s buf = poke 0 (s @ [NUL]) buf"

definition scanf_s :: "nat \<Rightarrow> string \<Rightarrow> bytes \<Rightarrow> bytes result" where
  "scanf_s off s mem =
     (if off + length s + 1 \<le> length mem then Inr (poke off (s @ [NUL]) mem)
      else Inl Buffer_Overflow)"

text \<open>The four bytes of an \<open>int\<close> (little endian, two's complement) and their signed reading.\<close>

definition encode_int :: "int \<Rightarrow> bytes" where
  "encode_int i = [char_of i, char_of (i div 256), char_of (i div 65536), char_of (i div 16777216)]"

fun decode_uint :: "bytes \<Rightarrow> int" where
  "decode_uint (a # b # c # d # _) =
     of_char a + 256 * of_char b + 65536 * of_char c + 16777216 * of_char d"
| "decode_uint _ = 0"

definition wrap32 :: "int \<Rightarrow> int" where
  "wrap32 i = (let u = i mod 4294967296 in if 2147483648 \<le> u then u - 4294967296 else u)"

definition decode_int :: "bytes \<Rightarrow> int" where
  "decode_int bs = wrap32 (decode_uint bs)"

definition int32 :: "int \<Rightarrow> bool" where
  "int32 i \<longleftrightarrow> - 2147483648 \<le> i \<and> i < 2147483648"

text \<open>A word read by \<open>scanf("%s")\<close> or given on the command line: it holds no NUL.\<close>

definition is_word :: "string \<Rightarrow> bool" where
  "is_word s \<longleftrightarrow> NUL \<notin> set s"

section \<open>Decimal numbers\<close>

text \<open>\<open>printf("%d")\<close> and \<open>printf("%lu")\<close>: the decimal digits, most significant first.\<close>

fun show_nat :: "nat \<Rightarrow> string" where
  "show_nat n =
     (if n < 10 then [char_of (48 + n)] else show_nat (n div 10) @ [char_of (48 + n mod 10)])"

declare show_nat.simps [simp del]

definition show_int :: "int \<Rightarrow> string" where
  "show_int i = (if i < 0 then CHR ''-'' # show_nat (nat (- i)) else show_nat (nat i))"

text \<open>
  \<open>atoi\<close>: blanks, an optional sign, then digits up to the first other character. The value is
  that of \<open>strtol\<close> (which stops at the ends of \<open>long\<close>) converted to \<open>int\<close>.
\<close>

definition is_digit :: "char \<Rightarrow> bool" where
  "is_digit c \<longleftrightarrow> 48 \<le> (of_char c :: nat) \<and> (of_char c :: nat) \<le> 57"

definition is_blank :: "char \<Rightarrow> bool" where
  "is_blank c \<longleftrightarrow> (of_char c :: nat) = 32 \<or> 9 \<le> (of_char c :: nat) \<and> (of_char c :: nat) \<le> 13"

definition digits_value :: "string \<Rightarrow> int" where
  "digits_value ds = foldl (\<lambda>v c. 10 * v + (of_char c - 48)) 0 (takeWhile is_digit ds)"

definition strtol10 :: "string \<Rightarrow> int" where
  "strtol10 s =
     (let t = dropWhile is_blank s;
          v = (case t of
                 [] \<Rightarrow> 0
               | c # r \<Rightarrow> if c = CHR ''-'' then - digits_value r
                          else if c = CHR ''+'' then digits_value r
                          else digits_value t)
      in max (- (2 ^ 63)) (min (2 ^ 63 - 1) v))"

definition atoi :: "string \<Rightarrow> int" where
  "atoi s = wrap32 (strtol10 s)"

section \<open>Lemmas on bytes\<close>

lemma length_peek [simp, bytes_simps]: "length (peek off n mem) = min n (length mem - off)"
  by (simp add: peek_def)

lemma length_poke [bytes_simps]:
  "off + length bs \<le> length mem \<Longrightarrow> length (poke off bs mem) = length mem"
  by (simp add: poke_def)

lemma peek_poke_same [bytes_simps]:
  "off + length bs \<le> length mem \<Longrightarrow> peek off (length bs) (poke off bs mem) = bs"
  by (simp add: peek_def poke_def)

lemma drop_poke_same:
  "off \<le> length mem \<Longrightarrow> drop off (poke off bs mem) = bs @ drop (off + length bs) mem"
  by (simp add: poke_def)

lemma take_poke_before:
  "n \<le> off \<Longrightarrow> off \<le> length mem \<Longrightarrow> take n (poke off bs mem) = take n mem"
  by (simp add: poke_def)

lemma drop_poke_after:
  "off + length bs \<le> n \<Longrightarrow> off \<le> length mem \<Longrightarrow> drop n (poke off bs mem) = drop n mem"
  by (simp add: poke_def)

lemma peek_poke_before:
  assumes "n + m \<le> off" and "off \<le> length mem"
  shows "peek n m (poke off bs mem) = peek n m mem"
proof -
  have "take (n + m) (poke off bs mem) = take (n + m) mem"
    using assms by (intro take_poke_before) auto
  then show ?thesis by (metis peek_def take_drop add.commute)
qed

lemma peek_poke_after:
  "off + length bs \<le> n \<Longrightarrow> off \<le> length mem \<Longrightarrow> peek n m (poke off bs mem) = peek n m mem"
  by (simp add: peek_def drop_poke_after)

lemma poke_peek_id: "off + n \<le> length mem \<Longrightarrow> poke off (peek off n mem) mem = mem"
  by (simp add: poke_def peek_def min_def)
    (metis append_take_drop_id drop_drop add.commute)

lemma poke_poke_same:
  "length as = length bs \<Longrightarrow> off \<le> length mem \<Longrightarrow> poke off as (poke off bs mem) = poke off as mem"
  by (simp add: poke_def)

lemma takeWhile_word: "is_word s \<Longrightarrow> takeWhile (\<lambda>c. c \<noteq> NUL) (s @ NUL # r) = s"
  by (induction s) (auto simp: is_word_def)

lemma cstr_word [simp, bytes_simps]: "is_word s \<Longrightarrow> cstr (s @ NUL # r) = s"
  by (simp add: cstr_def takeWhile_word)

lemma cstr_strcpy [simp, bytes_simps]: "is_word s \<Longrightarrow> cstr (strcpy s buf) = s"
  by (simp add: strcpy_def poke_def)

lemma length_strcpy [bytes_simps]: "length s < length buf \<Longrightarrow> length (strcpy s buf) = length buf"
  by (simp add: strcpy_def length_poke)

lemma is_word_cstr [simp, intro]: "is_word (cstr buf)"
  unfolding is_word_def cstr_def by (blast dest: set_takeWhileD)

lemma cstr_append_word [simp]: "is_word s \<Longrightarrow> cstr (s @ r) = s @ cstr r"
  by (induction s) (auto simp: is_word_def cstr_def)

lemma cstr_NUL [simp]: "cstr (NUL # r) = []"
  by (simp add: cstr_def)

lemma cstr_take_NUL [simp]: "cstr (take n (NUL # r)) = []"
  by (cases n) (simp_all add: cstr_def)

lemma cstr_take_word: "is_word s \<Longrightarrow> length s < n \<Longrightarrow> cstr (take n (s @ NUL # r)) = s"
  by (simp add: take_Cons')

lemma cstr_Nil_iff: "cstr buf = [] \<longleftrightarrow> buf = [] \<or> hd buf = NUL"
  by (cases buf) (auto simp: cstr_def)

lemma length_encode_int [simp, bytes_simps]: "length (encode_int i) = 4"
  by (simp add: encode_int_def)

lemma decode_uint_append [simp]: "length bs = 4 \<Longrightarrow> decode_uint (bs @ r) = decode_uint bs"
  by (cases bs rule: decode_uint.cases) auto

lemma mod_split_256: "i mod (256 * m) = i mod 256 + 256 * (i div 256 mod m)" if "0 \<le> m" for i m :: int
  using zmod_zmult2_eq [OF that, of i 256] by simp

lemma horner_256:
  "x + 256 * (y + 256 * (z + 256 * w)) = x + 256 * y + 65536 * z + 16777216 * (w :: int)"
  by simp

lemma decode_uint_encode [simp]: "decode_uint (encode_int i) = i mod 4294967296"
proof -
  have "i mod 4294967296 = i mod 256 + 256 * (i div 256 mod 16777216)"
    using mod_split_256 [of 16777216 i] by simp
  also have "i div 256 mod 16777216 = i div 256 mod 256 + 256 * (i div 65536 mod 65536)"
    using mod_split_256 [of 65536 "i div 256"] by (simp add: div_mult2_eq [symmetric] zdiv_zmult2_eq [symmetric])
  also have "i div 65536 mod 65536 = i div 65536 mod 256 + 256 * (i div 16777216 mod 256)"
    using mod_split_256 [of 256 "i div 65536"] by (simp add: zdiv_zmult2_eq [symmetric])
  finally have "i mod 4294967296 = i mod 256 + 256 * (i div 256 mod 256) +
      65536 * (i div 65536 mod 256) + 16777216 * (i div 16777216 mod 256)"
    by (simp only: horner_256)
  then show ?thesis by (simp only: encode_int_def decode_uint.simps of_char_of)
qed

lemma wrap32_id: "int32 i \<Longrightarrow> wrap32 i = i"
proof -
  assume i: "int32 i"
  show "wrap32 i = i"
  proof (cases "0 \<le> i")
    case True
    with i show ?thesis by (simp add: wrap32_def int32_def)
  next
    case False
    with i have "(i + 4294967296) mod 4294967296 = i + 4294967296"
      by (intro mod_pos_pos_trivial) (auto simp: int32_def)
    then have "i mod 4294967296 = i + 4294967296" by simp
    with i show ?thesis by (simp add: wrap32_def int32_def)
  qed
qed

lemma int32_wrap32 [simp, intro]: "int32 (wrap32 i)"
proof -
  define u where "u = i mod 4294967296"
  have "0 \<le> u" "u < 4294967296" by (simp_all add: u_def)
  then show ?thesis by (simp add: wrap32_def int32_def u_def [symmetric])
qed

lemma wrap32_mod [simp]: "wrap32 (i mod 4294967296) = wrap32 i"
  by (simp add: wrap32_def)

lemma decode_encode_int [simp, bytes_simps]: "decode_int (encode_int i) = wrap32 i"
  by (simp add: decode_int_def)

lemma decode_encode_int_append [simp]: "decode_int (encode_int i @ r) = wrap32 i"
  by (simp add: decode_int_def)

lemma wrap32_ge: "\<lbrakk>0 \<le> i; i < 2147483648\<rbrakk> \<Longrightarrow> wrap32 i = i"
  by (rule wrap32_id) (simp add: int32_def)

lemma is_digit_char_of [simp]: "n < 10 \<Longrightarrow> is_digit (char_of (48 + n :: nat))"
  by (simp add: is_digit_def)

lemma of_char_digit: "n < 10 \<Longrightarrow> (of_char (char_of (48 + n :: nat)) :: int) = 48 + int n"
  by (subst of_nat_of_char [symmetric]) simp

lemma show_nat_digits: "set (show_nat n) \<subseteq> Collect is_digit \<and> show_nat n \<noteq> []"
proof (induction n rule: show_nat.induct)
  case (1 n)
  show ?case
  proof (cases "n < 10")
    case False
    with 1 show ?thesis by (subst (1 2) show_nat.simps) simp
  qed (simp add: show_nat.simps)
qed

lemma digits_value_snoc:
  "set ds \<subseteq> Collect is_digit \<Longrightarrow> is_digit c \<Longrightarrow>
   digits_value (ds @ [c]) = 10 * digits_value ds + (of_char c - 48)"
  by (simp add: digits_value_def takeWhile_append2 subset_iff takeWhile_eq_all_conv [THEN iffD2])

lemma digits_value_show_nat: "digits_value (show_nat n) = int n"
proof (induction n rule: show_nat.induct)
  case (1 n)
  show ?case
  proof (cases "n < 10")
    case True
    then have "digits_value [char_of (48 + n)] = int n"
      by (simp add: digits_value_def of_char_digit)
    with True show ?thesis by (simp add: show_nat.simps)
  next
    case False
    then have "digits_value (show_nat n) =
        10 * digits_value (show_nat (n div 10)) + (of_char (char_of (48 + n mod 10)) - 48)"
      using show_nat_digits [of "n div 10"]
      by (subst show_nat.simps) (simp add: digits_value_snoc)
    also have "(of_char (char_of (48 + n mod 10)) :: int) = 48 + int (n mod 10)"
      by (simp add: of_char_digit)
    finally have "digits_value (show_nat n) = 10 * int (n div 10) + int (n mod 10)"
      using False 1 by simp
    also have "\<dots> = int (10 * (n div 10) + n mod 10)"
      by (simp only: of_nat_add of_nat_mult of_nat_numeral)
    finally show ?thesis by simp
  qed
qed

lemma atoi_show_int:
  assumes "int32 v"
  shows "atoi (show_int v) = v"
proof -
  obtain c cs where ds: "show_nat (nat \<bar>v\<bar>) = c # cs" and c: "is_digit c"
    using show_nat_digits [of "nat \<bar>v\<bar>"] by (cases "show_nat (nat \<bar>v\<bar>)") auto
  then have "\<not> is_blank c" "c \<noteq> CHR ''-''" "c \<noteq> CHR ''+''"
    by (auto simp: is_digit_def is_blank_def)
  moreover have "digits_value (c # cs) = \<bar>v\<bar>"
    using digits_value_show_nat [of "nat \<bar>v\<bar>"] by (simp add: ds)
  ultimately have "strtol10 (show_int v) = v"
    using assms ds by (auto simp: strtol10_def show_int_def is_blank_def int32_def split: if_splits)
  then show ?thesis using assms by (simp add: atoi_def wrap32_id)
qed

section \<open>Reachable states and invariants\<close>

text \<open>
  The interface of a state machine: the initial states, the step relation and an invariant that
  holds initially and that every step keeps. What follows for every execution is proved once.
\<close>

locale invariant_system =
  fixes init :: "'s \<Rightarrow> bool"
    and step :: "'s \<Rightarrow> 's \<Rightarrow> bool"
    and inv :: "'s \<Rightarrow> bool"
  assumes init_inv: "init s \<Longrightarrow> inv s"
    and step_inv: "step s t \<Longrightarrow> inv s \<Longrightarrow> inv t"
begin

lemma steps_inv: "step\<^sup>*\<^sup>* s t \<Longrightarrow> inv s \<Longrightarrow> inv t"
  by (induction rule: rtranclp_induct) (auto intro: step_inv)

lemma reachable_inv: "init s \<Longrightarrow> step\<^sup>*\<^sup>* s t \<Longrightarrow> inv t"
  by (blast intro: steps_inv init_inv)

end

text \<open>A state machine that also has a measure which every step from a good state decreases:
  no execution is longer than the measure of its first state.\<close>

locale terminating_system = invariant_system +
  fixes work :: "'s \<Rightarrow> nat"
  assumes step_work: "step s t \<Longrightarrow> inv s \<Longrightarrow> work t < work s"
begin

lemma relpowp_work: "(step ^^ n) s t \<Longrightarrow> inv s \<Longrightarrow> work t + n \<le> work s \<and> inv t"
proof (induction n arbitrary: t)
  case 0
  then show ?case by simp
next
  case (Suc n)
  then obtain u where u: "(step ^^ n) s u" "step u t" by auto
  with Suc have "work u + n \<le> work s" "inv u" by auto
  with u step_work [of u t] step_inv [of u t] show ?case by auto
qed

lemma bounded_executions: "init s \<Longrightarrow> (step ^^ n) s t \<Longrightarrow> n \<le> work s"
  using relpowp_work init_inv by fastforce

lemma reaches_final: "inv s \<Longrightarrow> \<exists>t. step\<^sup>*\<^sup>* s t \<and> \<not> (\<exists>u. step t u)"
proof (induction "work s" arbitrary: s rule: less_induct)
  case less
  show ?case
  proof (cases "\<exists>u. step s u")
    case True
    then obtain u where "step s u" by blast
    with less.hyps [of u] less.prems step_work step_inv
    obtain t where "step\<^sup>*\<^sup>* u t" "\<not> (\<exists>v. step t v)" by blast
    with \<open>step s u\<close> show ?thesis by (meson converse_rtranclp_into_rtranclp)
  next
    case False
    then show ?thesis by blast
  qed
qed

end

end
