(* ===== verification/Record_Locks.thy ===== *)
theory Record_Locks
  imports SP_Prelude
begin

text \<open>
  Advisory record locks as \<open>HW1/server.c\<close> uses them through \<open>lock_reg\<close> (\<open>fcntl\<close> with
  \<open>F_SETLK\<close>): the table of byte ranges that processes hold on one file. A process's request
  replaces what it holds on the range; a request that conflicts with a range of another process
  fails and leaves the table as it was. The locale \<open>slot_locks\<close> is what the server relies on:
  locks on numbered slots of the file.
\<close>

section \<open>The lock table and \<open>lock_reg\<close>\<close>

datatype lock_type = F_RDLCK | F_WRLCK | F_UNLCK

record flock =
  l_type :: lock_type
  l_start :: int
  l_len :: int

record held =
  h_pid :: nat
  h_type :: lock_type
  h_start :: int
  h_end :: int

type_synonym lock_table = "held list"

text \<open>A length of 0 means up to the largest file offset.\<close>

definition flock_end :: "flock \<Rightarrow> int" where
  "flock_end l = (if l_len l = 0 then 2 ^ 63 else l_start l + l_len l)"

definition overlaps :: "int \<Rightarrow> int \<Rightarrow> held \<Rightarrow> bool" where
  "overlaps s e h \<longleftrightarrow> h_start h < e \<and> s < h_end h"

text \<open>An entry of another process stands in the way of a request of type \<open>t\<close> on \<open>[s, e)\<close>.\<close>

definition obstructs :: "nat \<Rightarrow> lock_type \<Rightarrow> int \<Rightarrow> int \<Rightarrow> held \<Rightarrow> bool" where
  "obstructs p t s e h \<longleftrightarrow>
     h_pid h \<noteq> p \<and> overlaps s e h \<and> (t = F_WRLCK \<or> h_type h = F_WRLCK)"

text \<open>What remains of an entry when process \<open>p\<close> gives up the range \<open>[s, e)\<close>.\<close>

definition carve :: "nat \<Rightarrow> int \<Rightarrow> int \<Rightarrow> held \<Rightarrow> held list" where
  "carve p s e h =
     (if h_pid h = p \<and> overlaps s e h
      then (if h_start h < s then [h\<lparr>h_end := s\<rparr>] else []) @
           (if e < h_end h then [h\<lparr>h_start := e\<rparr>] else [])
      else [h])"

definition fcntl_setlk :: "nat \<Rightarrow> flock \<Rightarrow> lock_table \<Rightarrow> int \<times> lock_table" where
  "fcntl_setlk p l tab =
     (let s = l_start l; e = flock_end l; rest = concat (map (carve p s e) tab)
      in if l_type l = F_UNLCK then (0, rest)
         else if list_ex (obstructs p (l_type l) s e) tab then (- 1, tab)
         else (0, \<lparr>h_pid = p, h_type = l_type l, h_start = s, h_end = e\<rparr> # rest))"

definition lock_reg :: "nat \<Rightarrow> lock_type \<Rightarrow> int \<Rightarrow> int \<Rightarrow> lock_table \<Rightarrow> int \<times> lock_table" where
  "lock_reg p type offset len tab =
     fcntl_setlk p \<lparr>l_type = type, l_start = offset, l_len = len\<rparr> tab"

definition read_lock :: "nat \<Rightarrow> int \<Rightarrow> int \<Rightarrow> lock_table \<Rightarrow> int \<times> lock_table" where
  "read_lock p offset len tab = lock_reg p F_RDLCK offset len tab"

definition write_lock :: "nat \<Rightarrow> int \<Rightarrow> int \<Rightarrow> lock_table \<Rightarrow> int \<times> lock_table" where
  "write_lock p offset len tab = lock_reg p F_WRLCK offset len tab"

definition unlock :: "nat \<Rightarrow> int \<Rightarrow> int \<Rightarrow> lock_table \<Rightarrow> int \<times> lock_table" where
  "unlock p offset len tab = lock_reg p F_UNLCK offset len tab"

text \<open>The abstract view of the table: which process holds which byte, and how.\<close>

definition holds :: "lock_table \<Rightarrow> nat \<Rightarrow> lock_type \<Rightarrow> int \<Rightarrow> bool" where
  "holds tab p t b \<longleftrightarrow> (\<exists>h \<in> set tab. h_pid h = p \<and> h_type h = t \<and> h_start h \<le> b \<and> b < h_end h)"

text \<open>No byte is write-locked by one process and locked by another.\<close>

definition lock_excl :: "lock_table \<Rightarrow> bool" where
  "lock_excl tab \<longleftrightarrow>
     (\<forall>p q t b. holds tab p F_WRLCK b \<longrightarrow> holds tab q t b \<longrightarrow> p = q)"

section \<open>Laws of the table\<close>

lemmas lock_defs = lock_reg_def fcntl_setlk_def read_lock_def write_lock_def unlock_def flock_end_def

lemma holds_Cons:
  "holds (h # tab) p t b \<longleftrightarrow>
     (h_pid h = p \<and> h_type h = t \<and> h_start h \<le> b \<and> b < h_end h) \<or> holds tab p t b"
  by (auto simp: holds_def)

lemma holds_Nil [simp]: "\<not> holds [] p t b"
  by (simp add: holds_def)

lemma holds_append: "holds (tab1 @ tab2) p t b \<longleftrightarrow> holds tab1 p t b \<or> holds tab2 p t b"
  by (auto simp: holds_def)

lemma holds_carve:
  "holds (carve p s e h) q t b \<longleftrightarrow> holds [h] q t b \<and> \<not> (q = p \<and> s \<le> b \<and> b < e)"
  by (auto simp: holds_def carve_def overlaps_def)

lemma holds_release:
  "holds (concat (map (carve p s e) tab)) q t b \<longleftrightarrow>
     holds tab q t b \<and> \<not> (q = p \<and> s \<le> b \<and> b < e)"
  by (induction tab) (auto simp: holds_append holds_carve holds_Cons [of _ "[]"] holds_Cons)

text \<open>Taking a lock that is granted, in the abstract view: the range is the process's alone to
  describe, the rest of the table is as before.\<close>

lemma lock_reg_granted:
  assumes "fst (lock_reg p ty s l tab) \<noteq> - 1" and "0 < l"
  shows "holds (snd (lock_reg p ty s l tab)) q t b \<longleftrightarrow>
     (if q = p \<and> s \<le> b \<and> b < s + l then ty \<noteq> F_UNLCK \<and> t = ty else holds tab q t b)"
  using assms by (auto simp: lock_defs Let_def holds_Cons holds_release split: if_splits)

lemma lock_reg_refused: "fst (lock_reg p ty s l tab) = - 1 \<Longrightarrow> snd (lock_reg p ty s l tab) = tab"
  by (auto simp: lock_defs Let_def split: if_splits)

lemma unlock_granted [simp]: "fst (unlock p s l tab) = 0"
  by (simp add: lock_defs)

lemma write_lock_granted_iff:
  "0 < l \<Longrightarrow> fst (write_lock p s l tab) \<noteq> - 1 \<longleftrightarrow> \<not> list_ex (obstructs p F_WRLCK s (s + l)) tab"
  by (auto simp: lock_defs Let_def)

lemma obstructs_holds:
  assumes "h \<in> set tab" and "obstructs p F_WRLCK s e h" and "h_start h < h_end h" and "s < e"
  shows "\<exists>b t. s \<le> b \<and> b < e \<and> holds tab (h_pid h) t b"
proof -
  let ?b = "max s (h_start h)"
  have "s \<le> ?b \<and> ?b < e \<and> holds tab (h_pid h) (h_type h) ?b"
    using assms by (auto simp: holds_def obstructs_def overlaps_def)
  then show ?thesis by blast
qed

lemma granted_no_conflict:
  assumes "fst (lock_reg p ty s l tab) \<noteq> - 1" and "0 < l" and "ty \<noteq> F_UNLCK"
    and "holds tab q t b" and "s \<le> b" "b < s + l" and "ty = F_WRLCK \<or> t = F_WRLCK"
  shows "q = p"
  using assms
  by (auto simp: lock_defs Let_def holds_def obstructs_def overlaps_def list_ex_iff split: if_splits)

lemma lock_reg_excl:
  assumes excl: "lock_excl tab" and l: "0 < l"
  shows "lock_excl (snd (lock_reg p ty s l tab))"
proof (cases "fst (lock_reg p ty s l tab) = - 1")
  case True
  with excl show ?thesis by (simp add: lock_reg_refused)
next
  case granted: False
  note after = lock_reg_granted [OF granted l]
  note other = granted_no_conflict [OF granted l]
  show ?thesis
  proof (unfold lock_excl_def, intro allI impI)
    fix q r t b
    assume w: "holds (snd (lock_reg p ty s l tab)) q F_WRLCK b"
      and o: "holds (snd (lock_reg p ty s l tab)) r t b"
    consider "q = p" "r = p" | "q = p" "s \<le> b" "b < s + l" "r \<noteq> p"
      | "r = p" "s \<le> b" "b < s + l" "q \<noteq> p" | "holds tab q F_WRLCK b" "holds tab r t b"
      using w o by (auto simp: after split: if_splits)
    then show "q = r"
    proof cases
      case 2
      with w have "ty = F_WRLCK" by (simp add: after)
      moreover from 2 o have "holds tab r t b" by (simp add: after)
      ultimately show ?thesis using other [of r t b] 2 by simp
    next
      case 3
      with o have "ty \<noteq> F_UNLCK" by (simp add: after)
      moreover from 3 w have "holds tab q F_WRLCK b" by (simp add: after)
      ultimately show ?thesis using other [of q F_WRLCK b] 3 by simp
    next
      case 4
      with excl show ?thesis by (auto simp: lock_excl_def)
    qed simp
  qed
qed

lemma carve_other [simp]: "\<not> (h_pid h = p \<and> overlaps s e h) \<Longrightarrow> carve p s e h = [h]"
  unfolding carve_def by (rule if_not_P)

text \<open>A request changes no entry of another process.\<close>

lemma carve_other_pid: "h_pid k \<noteq> p \<Longrightarrow> k \<in> set (carve p s e h) \<longleftrightarrow> k = h \<and> h_pid h \<noteq> p"
  by (auto simp: carve_def)

lemma lock_reg_other_entries:
  assumes "h_pid h \<noteq> p"
  shows "h \<in> set (snd (lock_reg p ty s l tab)) \<longleftrightarrow> h \<in> set tab"
  using assms by (auto simp: lock_defs Let_def carve_other_pid)

lemma release_nothing:
  "(\<forall>h \<in> set tab. \<not> (h_pid h = p \<and> overlaps s e h)) \<Longrightarrow> concat (map (carve p s e) tab) = tab"
  by (induction tab) auto

text \<open>Taking and giving back a lock on a range where the process held nothing restores the table.\<close>

lemma write_lock_unlock:
  assumes "\<forall>h \<in> set tab. \<not> (h_pid h = p \<and> overlaps s (s + l) h)" and "0 < l"
  shows "snd (unlock p s l (snd (write_lock p s l tab))) = tab"
  using assms
  by (cases "list_ex (obstructs p F_WRLCK s (s + l)) tab")
    (auto simp: lock_defs Let_def release_nothing carve_def overlaps_def)

section \<open>The interface: locks on slots\<close>

text \<open>
  A file divided into slots. \<open>acquire p i\<close> tries to write-lock slot \<open>i\<close> for process \<open>p\<close>,
  \<open>release p i\<close> gives it back; \<open>mine t p i\<close>: \<open>p\<close> holds the write lock on the whole slot,
  \<open>clear t p i\<close>: \<open>p\<close> holds nothing in the slot, \<open>busy t p i\<close>: some process other than \<open>p\<close> does.
\<close>

locale slot_locks =
  fixes acquire :: "nat \<Rightarrow> nat \<Rightarrow> 't \<Rightarrow> int \<times> 't"
    and release :: "nat \<Rightarrow> nat \<Rightarrow> 't \<Rightarrow> int \<times> 't"
    and mine :: "'t \<Rightarrow> nat \<Rightarrow> nat \<Rightarrow> bool"
    and clear :: "'t \<Rightarrow> nat \<Rightarrow> nat \<Rightarrow> bool"
    and busy :: "'t \<Rightarrow> nat \<Rightarrow> nat \<Rightarrow> bool"
  assumes acquire_iff: "fst (acquire p i t) \<noteq> - 1 \<longleftrightarrow> \<not> busy t p i"
    and acquire_fail: "busy t p i \<Longrightarrow> snd (acquire p i t) = t"
    and acquire_mine: "\<not> busy t p i \<Longrightarrow> mine (snd (acquire p i t)) p i"
    and acquire_frame: "(q, j) \<noteq> (p, i) \<Longrightarrow> mine (snd (acquire p i t)) q j = mine t q j"
    and acquire_clear_frame: "(q, j) \<noteq> (p, i) \<Longrightarrow> clear (snd (acquire p i t)) q j = clear t q j"
    and release_clear: "clear (snd (release p i t)) p i"
    and release_frame: "(q, j) \<noteq> (p, i) \<Longrightarrow> mine (snd (release p i t)) q j = mine t q j"
    and release_clear_frame: "(q, j) \<noteq> (p, i) \<Longrightarrow> clear (snd (release p i t)) q j = clear t q j"
    and probe_restores: "clear t p i \<Longrightarrow> snd (release p i (snd (acquire p i t))) = t"
    and mine_not_clear: "mine t p i \<Longrightarrow> \<not> clear t p i"
    and mine_busy: "mine t p i \<Longrightarrow> q \<noteq> p \<Longrightarrow> busy t q i"
    and clear_busy: "(\<And>q. q \<noteq> p \<Longrightarrow> clear t q i) \<Longrightarrow> \<not> busy t p i"
begin

text \<open>A process that keeps a table of its own of the slots it has taken, and that table's
  agreement with the locks.\<close>

definition tracks :: "nat \<Rightarrow> 't \<Rightarrow> nat \<Rightarrow> (nat \<Rightarrow> bool) \<Rightarrow> bool" where
  "tracks n t p own \<longleftrightarrow> (\<forall>i < n. (own i \<longrightarrow> mine t p i) \<and> (\<not> own i \<longrightarrow> clear t p i))"

lemma tracks_acquire:
  "tracks n t p own \<Longrightarrow> \<not> busy t p i \<Longrightarrow> tracks n (snd (acquire p i t)) p (own(i := True))"
  by (auto simp: tracks_def acquire_mine acquire_frame acquire_clear_frame)

lemma tracks_release: "tracks n t p own \<Longrightarrow> tracks n (snd (release p i t)) p (own(i := False))"
  by (auto simp: tracks_def release_clear release_frame release_clear_frame)

lemma tracks_others:
  assumes "q \<noteq> p"
  shows "tracks n (snd (acquire p i t)) q own = tracks n t q own"
    and "tracks n (snd (release p i t)) q own = tracks n t q own"
  using assms
  by (simp_all add: tracks_def acquire_frame acquire_clear_frame release_frame release_clear_frame)

text \<open>The probe: taking a lock only to see whether it can be had.\<close>

lemma probe_refused: "busy t p i \<Longrightarrow> acquire p i t = (- 1, t)"
  using acquire_iff [of p i t] by (simp add: acquire_fail prod_eq_iff)

lemma probe_granted:
  assumes "tracks n t p own" and "\<not> own i" and "i < n" and "\<not> busy t p i"
  shows "fst (acquire p i t) \<noteq> - 1 \<and> snd (release p i (snd (acquire p i t))) = t"
proof -
  have "clear t p i" using assms(1-3) by (simp add: tracks_def)
  then have "snd (release p i (snd (acquire p i t))) = t" by (rule probe_restores)
  moreover have "fst (acquire p i t) \<noteq> - 1" by (simp only: acquire_iff assms(4) not_False_eq_True)
  ultimately show ?thesis by blast
qed

text \<open>Two processes cannot have taken the same slot at the same time.\<close>

lemma tracks_exclusive:
  assumes "tracks n t p own" and "own i" and "i < n" and "q \<noteq> p"
  shows "busy t q i"
  using assms mine_busy unfolding tracks_def by blast

end

end
