(* ===== verification/Bulletin_Types.thy ===== *)
theory Bulletin_Types
  imports Record_Locks
begin

text \<open>
  The data of the bulletin board (\<open>HW1/hw1.h\<close> and the structures that \<open>server.c\<close> and
  \<open>client.c\<close> declare alike): posts, the message that carries a post and its slot, and the
  \<open>io\<close> structure both sides exchange. Structures are records whose \<open>char\<close> arrays are byte lists;
  \<open>record_bytes\<close>, \<open>message_bytes\<close> and their inverses give the memory layout that \<open>memcpy\<close>
  sees (a \<open>message\<close> is 25 bytes of post, 3 of padding, 4 of \<open>int\<close>). The last part is the shared
  state outside the server processes: the file \<open>./BulletinBoard\<close> and its lock table, with the
  slots of the file as an instance of \<open>slot_locks\<close>.
\<close>

section \<open>Constants and structures\<close>

definition MAX_CLIENTS :: nat where
  [simp]: "MAX_CLIENTS = 20"

definition FROM_LEN :: nat where
  [simp]: "FROM_LEN = 5"

definition CONTENT_LEN :: nat where
  [simp]: "CONTENT_LEN = 20"

definition RECORD_NUM :: nat where
  [simp]: "RECORD_NUM = 10"

definition BUFFER_SIZE :: nat where
  [simp]: "BUFFER_SIZE = 4096"

definition TYPE_SIZE :: nat where
  [simp]: "TYPE_SIZE = 20"

definition sizeof_record :: nat where
  [simp]: "sizeof_record = FROM_LEN + CONTENT_LEN"

definition sizeof_message :: nat where
  [simp]: "sizeof_message = 32"

record bb_record =
  From :: bytes
  Content :: bytes

record message =
  rd :: bb_record
  padding :: bytes
  pos :: int

record io =
  io_type :: bytes
  io_buf :: bytes
  io_size :: int

definition record_bytes :: "bb_record \<Rightarrow> bytes" where
  "record_bytes r = From r @ Content r"

definition bytes_record :: "bytes \<Rightarrow> bb_record" where
  "bytes_record bs = \<lparr>From = peek 0 FROM_LEN bs, Content = peek FROM_LEN CONTENT_LEN bs\<rparr>"

definition message_bytes :: "message \<Rightarrow> bytes" where
  "message_bytes m = record_bytes (rd m) @ padding m @ encode_int (pos m)"

definition bytes_message :: "bytes \<Rightarrow> message" where
  "bytes_message bs =
     \<lparr>rd = bytes_record bs, padding = peek 25 3 bs, pos = decode_int (peek 28 4 bs)\<rparr>"

definition wf_record :: "bb_record \<Rightarrow> bool" where
  "wf_record r \<longleftrightarrow> length (From r) = FROM_LEN \<and> length (Content r) = CONTENT_LEN"

definition wf_message :: "message \<Rightarrow> bool" where
  "wf_message m \<longleftrightarrow> wf_record (rd m) \<and> length (padding m) = 3 \<and> int32 (pos m)"

definition wf_io :: "io \<Rightarrow> bool" where
  "wf_io x \<longleftrightarrow> length (io_type x) = TYPE_SIZE \<and> length (io_buf x) = BUFFER_SIZE"

text \<open>\<open>strcmp(x.type, s) == 0\<close> for a literal \<open>s\<close> shorter than the array, and
  \<open>strcpy(x.type, s)\<close>.\<close>

definition type_is :: "string \<Rightarrow> io \<Rightarrow> bool" where
  "type_is s x \<longleftrightarrow> cstr (io_type x) = s"

definition set_type :: "string \<Rightarrow> io \<Rightarrow> io" where
  "set_type s x = x\<lparr>io_type := strcpy s (io_type x)\<rparr>"

section \<open>The board file and its locks\<close>

record kernel =
  board :: bytes
  flocks :: lock_table

text \<open>\<open>lseek\<close> to an offset followed by \<open>read\<close> or \<open>write\<close>; writing past the end fills the gap
  with zero bytes.\<close>

definition file_read :: "nat \<Rightarrow> nat \<Rightarrow> bytes \<Rightarrow> bytes" where
  "file_read off n file = peek off n file"

definition file_write :: "nat \<Rightarrow> bytes \<Rightarrow> bytes \<Rightarrow> bytes" where
  "file_write off bs file = poke off bs (file @ replicate (off - length file) NUL)"

text \<open>The post that slot \<open>i\<close> of the file holds.\<close>

definition slot_bytes :: "nat \<Rightarrow> bytes \<Rightarrow> bytes" where
  "slot_bytes i file = peek (i * sizeof_record) sizeof_record file"

definition slot_acquire :: "nat \<Rightarrow> nat \<Rightarrow> lock_table \<Rightarrow> int \<times> lock_table" where
  "slot_acquire p i tab = write_lock p (int i * int sizeof_record) (int sizeof_record) tab"

definition slot_release :: "nat \<Rightarrow> nat \<Rightarrow> lock_table \<Rightarrow> int \<times> lock_table" where
  "slot_release p i tab = unlock p (int i * int sizeof_record) (int sizeof_record) tab"

definition slot_mine :: "lock_table \<Rightarrow> nat \<Rightarrow> nat \<Rightarrow> bool" where
  "slot_mine tab p i \<longleftrightarrow>
     list_all (\<lambda>k. holds tab p F_WRLCK (int i * int sizeof_record + int k)) [0..<sizeof_record]"

definition slot_clear :: "lock_table \<Rightarrow> nat \<Rightarrow> nat \<Rightarrow> bool" where
  "slot_clear tab p i \<longleftrightarrow>
     list_all (\<lambda>h. \<not> (h_pid h = p \<and>
        overlaps (int i * int sizeof_record) (int i * int sizeof_record + int sizeof_record) h)) tab"

definition slot_busy :: "lock_table \<Rightarrow> nat \<Rightarrow> nat \<Rightarrow> bool" where
  "slot_busy tab p i \<longleftrightarrow>
     list_ex (obstructs p F_WRLCK (int i * int sizeof_record)
       (int i * int sizeof_record + int sizeof_record)) tab"

section \<open>Layout lemmas\<close>

lemma length_record_bytes [bytes_simps]: "wf_record r \<Longrightarrow> length (record_bytes r) = 25"
  by (simp add: record_bytes_def wf_record_def)

lemma length_message_bytes [bytes_simps]: "wf_message m \<Longrightarrow> length (message_bytes m) = 32"
  by (simp add: message_bytes_def wf_message_def length_record_bytes)

lemma bytes_record_bytes [simp]: "wf_record r \<Longrightarrow> bytes_record (record_bytes r @ bs) = r"
  by (simp add: bytes_record_def record_bytes_def wf_record_def peek_def)

lemma wf_bytes_record: "25 \<le> length bs \<Longrightarrow> wf_record (bytes_record bs)"
  by (simp add: wf_record_def bytes_record_def)

lemma record_bytes_of_bytes: "25 \<le> length bs \<Longrightarrow> record_bytes (bytes_record bs) = take 25 bs"
  by (simp add: record_bytes_def bytes_record_def peek_def take_add [of 5 20, symmetric])

lemma bytes_message_bytes [simp]:
  assumes "wf_message m"
  shows "bytes_message (message_bytes m @ bs) = m"
proof -
  have "length (record_bytes (rd m)) = 25"
    using assms by (simp add: wf_message_def length_record_bytes)
  then show ?thesis
    using assms
    by (simp add: bytes_message_def message_bytes_def wf_message_def peek_def wrap32_id)
qed

lemma wf_bytes_message: "32 \<le> length bs \<Longrightarrow> wf_message (bytes_message bs)"
  by (simp add: wf_message_def bytes_message_def wf_bytes_record decode_int_def)

lemma type_is_set_type [simp]: "is_word s \<Longrightarrow> type_is t (set_type s x) \<longleftrightarrow> t = s"
  by (auto simp: type_is_def set_type_def)

lemma wf_set_type [simp]: "length s < TYPE_SIZE \<Longrightarrow> wf_io x \<Longrightarrow> wf_io (set_type s x)"
  by (auto simp: wf_io_def set_type_def strcpy_def poke_def)

lemma io_buf_set_type [simp]: "io_buf (set_type s x) = io_buf x"
  and io_size_set_type [simp]: "io_size (set_type s x) = io_size x"
  by (simp_all add: set_type_def)

section \<open>File lemmas\<close>

lemma length_file_write:
  "length (file_write off bs file) = max (length file) (off + length bs)"
  by (cases "off \<le> length file") (simp_all add: file_write_def poke_def max_def)

lemma file_write_inside:
  "off + length bs \<le> length file \<Longrightarrow> file_write off bs file = poke off bs file"
  by (simp add: file_write_def)

lemma slot_bytes_write_same:
  "length bs = 25 \<Longrightarrow> slot_bytes i (file_write (i * 25) bs file) = bs"
  by (simp add: slot_bytes_def file_write_def peek_def poke_def)

lemma slot_bytes_write_other:
  assumes "length bs = 25" and "i \<noteq> j" and "length file \<ge> 250" and "i < 10"
  shows "slot_bytes j (file_write (i * 25) bs file) = slot_bytes j file"
proof (cases "i < j")
  case True
  then have "i * 25 + 25 \<le> j * 25" by simp
  with assms show ?thesis
    by (simp add: slot_bytes_def file_write_inside peek_poke_after)
next
  case False
  with assms(2) have "j * 25 + 25 \<le> i * 25" by simp
  with assms show ?thesis
    by (simp add: slot_bytes_def file_write_inside peek_poke_before)
qed

lemma slot_disjoint:
  "i \<noteq> j \<Longrightarrow> int i * 25 + 25 \<le> int j * 25 \<or> int j * 25 + 25 \<le> int i * 25"
  by (cases "i < j") auto

section \<open>Slots of the file implement \<open>slot_locks\<close>\<close>

lemma slot_mine_alt:
  "slot_mine tab p i \<longleftrightarrow> (\<forall>b. int i * 25 \<le> b \<and> b < int i * 25 + 25 \<longrightarrow> holds tab p F_WRLCK b)"
proof -
  have mine: "slot_mine tab p i \<longleftrightarrow> (\<forall>k < 25. holds tab p F_WRLCK (int i * 25 + int k))"
    by (auto simp: slot_mine_def list_all_iff)
  have "holds tab p F_WRLCK b"
    if m: "\<forall>k < 25. holds tab p F_WRLCK (int i * 25 + int k)"
      and b: "int i * 25 \<le> b" "b < int i * 25 + 25" for b
  proof -
    obtain k where k: "b = int i * 25 + int k"
      using b(1) zle_iff_zadd [of "int i * 25" b] by auto
    with b(2) have "k < 25" by simp
    with m k show ?thesis by blast
  qed
  then show ?thesis unfolding mine by auto
qed

lemma slot_clear_iff:
  "slot_clear tab p i \<longleftrightarrow>
     \<not> (\<exists>h \<in> set tab. h_pid h = p \<and> overlaps (int i * 25) (int i * 25 + 25) h)"
  by (simp add: slot_clear_def list_all_iff)

lemma overlap_carve:
  assumes "i \<noteq> j \<or> p \<noteq> q"
  shows "(\<exists>k \<in> set (carve p (int i * 25) (int i * 25 + 25) h).
            h_pid k = q \<and> overlaps (int j * 25) (int j * 25 + 25) k)
     \<longleftrightarrow> h_pid h = q \<and> overlaps (int j * 25) (int j * 25 + 25) h"
proof (cases "i = j")
  case True
  with assms show ?thesis by (auto simp: carve_def)
next
  case False
  then show ?thesis using slot_disjoint [OF False] by (auto simp: carve_def overlaps_def)
qed

lemma bex_concat_map: "(\<exists>k \<in> set (concat (map f xs)). P k) \<longleftrightarrow> (\<exists>x \<in> set xs. \<exists>k \<in> set (f x). P k)"
  by simp

lemma clear_carve:
  assumes "i \<noteq> j \<or> p \<noteq> q"
  shows "slot_clear (concat (map (carve p (int i * 25) (int i * 25 + 25)) tab)) q j = slot_clear tab q j"
  by (simp only: slot_clear_iff bex_concat_map overlap_carve [OF assms])

lemma slot_acquire_iff: "fst (slot_acquire p i tab) \<noteq> - 1 \<longleftrightarrow> \<not> slot_busy tab p i"
  by (simp add: slot_acquire_def slot_busy_def write_lock_granted_iff)

lemma slot_acquire_other:
  assumes "(q, j) \<noteq> (p, i)"
  shows "slot_mine (snd (slot_acquire p i tab)) q j = slot_mine tab q j"
    and "slot_clear (snd (slot_acquire p i tab)) q j = slot_clear tab q j"
proof -
  show "slot_mine (snd (slot_acquire p i tab)) q j = slot_mine tab q j"
  proof (cases "fst (slot_acquire p i tab) = - 1")
    case True
    then show ?thesis by (simp add: slot_acquire_def write_lock_def lock_reg_refused)
  next
    case False
    have "holds (snd (slot_acquire p i tab)) q F_WRLCK b = holds tab q F_WRLCK b"
      if "int j * 25 \<le> b" "b < int j * 25 + 25" for b
      using assms False that slot_disjoint [of i j]
      by (auto simp: slot_acquire_def write_lock_def lock_reg_granted)
    then show ?thesis by (auto simp: slot_mine_alt)
  qed
  show "slot_clear (snd (slot_acquire p i tab)) q j = slot_clear tab q j"
  proof (cases "fst (slot_acquire p i tab) = - 1")
    case True
    then show ?thesis by (simp add: slot_acquire_def write_lock_def lock_reg_refused)
  next
    case False
    have "\<not> (p = q \<and> overlaps (int j * 25) (int j * 25 + 25)
        \<lparr>h_pid = p, h_type = F_WRLCK, h_start = int i * 25, h_end = int i * 25 + 25\<rparr>)"
      using assms slot_disjoint [of i j] by (auto simp: overlaps_def)
    moreover have "i \<noteq> j \<or> p \<noteq> q" using assms by auto
    note clear_carve [OF this, of tab]
    ultimately show ?thesis
      using False
      by (auto simp: slot_acquire_def lock_defs Let_def slot_clear_def split: if_splits)
  qed
qed

lemma slot_release_other:
  assumes "(q, j) \<noteq> (p, i)"
  shows "slot_mine (snd (slot_release p i tab)) q j = slot_mine tab q j"
    and "slot_clear (snd (slot_release p i tab)) q j = slot_clear tab q j"
proof -
  have "holds (snd (slot_release p i tab)) q F_WRLCK b = holds tab q F_WRLCK b"
    if "int j * 25 \<le> b" "b < int j * 25 + 25" for b
    using assms that slot_disjoint [of i j]
    by (auto simp: slot_release_def lock_defs Let_def holds_release)
  then show "slot_mine (snd (slot_release p i tab)) q j = slot_mine tab q j"
    by (auto simp: slot_mine_alt)
  show "slot_clear (snd (slot_release p i tab)) q j = slot_clear tab q j"
    using assms clear_carve [of i j p q tab] by (auto simp: slot_release_def lock_defs Let_def)
qed

lemma carve_clears: "k \<in> set (carve p s e h) \<Longrightarrow> \<not> (h_pid k = p \<and> overlaps s e k)"
  by (auto simp: carve_def overlaps_def split: if_splits)

lemma slot_release_clear: "slot_clear (snd (slot_release p i tab)) p i"
proof -
  have "snd (slot_release p i tab) = concat (map (carve p (int i * 25) (int i * 25 + 25)) tab)"
    by (simp add: slot_release_def lock_defs)
  then show ?thesis
    unfolding slot_clear_iff by (simp only: bex_concat_map) (blast dest: carve_clears)
qed

interpretation board_locks: slot_locks slot_acquire slot_release slot_mine slot_clear slot_busy
proof (unfold_locales, goal_cases)
  case (1 p i t)
  show ?case by (rule slot_acquire_iff)
next
  case (2 t p i)
  then have "fst (slot_acquire p i t) = - 1" using slot_acquire_iff [of p i t] by blast
  then show ?case by (simp add: slot_acquire_def write_lock_def lock_reg_refused)
next
  case (3 t p i)
  then have "fst (lock_reg p F_WRLCK (int i * 25) 25 t) \<noteq> - 1"
    using slot_acquire_iff [of p i t] by (simp add: slot_acquire_def write_lock_def)
  then show ?case by (simp add: slot_mine_alt slot_acquire_def write_lock_def lock_reg_granted)
next
  case (6 p i t)
  show ?case by (rule slot_release_clear)
next
  case (9 t p i)
  then show ?case
    unfolding slot_release_def slot_acquire_def
    by (intro write_lock_unlock) (auto simp: slot_clear_def list_all_iff)
next
  case (10 t p i)
  then have "holds t p F_WRLCK (int i * 25)" by (simp add: slot_mine_alt)
  then show ?case by (fastforce simp: holds_def slot_clear_def list_all_iff overlaps_def)
next
  case (11 t p i q)
  then have "holds t p F_WRLCK (int i * 25)" by (simp add: slot_mine_alt)
  with 11(2) show ?case
    by (fastforce simp: holds_def slot_busy_def list_ex_iff obstructs_def overlaps_def)
next
  case (12 p t i)
  then show ?case
    by (auto simp: slot_clear_def slot_busy_def list_all_iff list_ex_iff obstructs_def)
qed (simp_all add: slot_acquire_other slot_release_other)

end
