(* ===== verification/Bulletin_Server.thy ===== *)
theory Bulletin_Server
  imports Bulletin_Types
begin

text \<open>
  The bulletin board server (\<open>HW1/server.c\<close>): its global state, \<open>find_available\<close>, one handler
  per request type, the poll iteration that accepts a connection and serves the ready clients,
  and the start-up code. The kernel (\<open>board\<close>, \<open>flocks\<close>) is passed beside the server state because
  several servers share it. Automatic variables that the code does not initialise are an argument
  (\<open>stack\<close>); what \<open>poll\<close>, \<open>accept\<close> and \<open>read\<close> deliver in one iteration is an argument
  (\<open>poll_env\<close>). Diagnostics on stderr are left out, as is \<open>lseek\<close> on a socket, which fails and
  changes nothing. Each \<open>read\<close> of a socket is taken to deliver one whole \<open>io\<close> structure or none.
\<close>

section \<open>State\<close>

record request =
  host :: string
  conn_fd :: int
  buf_len :: nat
  req_id :: int

record server =
  hostname :: string
  port :: int
  listen_fd :: int

record server_state =
  pid :: nat
  svr :: server
  requestP :: "request list"
  maxfd :: nat
  lastpos :: int
  fds :: "int list"
  locked :: "int list"
  bulletinbuf :: bytes
  sock_out :: "(int \<times> io) list"
  closed :: "int list"
  stdout :: "string list"

record stack =
  send0 :: io
  msg0 :: message
  receive0 :: io

datatype errno = EINTR | EAGAIN | ENFILE | EOTHER

datatype accept_result = Accepted int string | Accept_Failed errno

record poll_env =
  num_in :: int
  revents :: "bool list"
  accepted :: accept_result
  received :: "nat \<Rightarrow> io option"

section \<open>Start-up\<close>

definition init_request :: "request \<Rightarrow> request" where
  "init_request r = r\<lparr>conn_fd := - 1, buf_len := 0, req_id := 0\<rparr>"

definition free_request :: "request \<Rightarrow> request" where
  "free_request r = init_request r"

text \<open>Results of the system calls of \<open>init_server\<close>; \<open>env_requests\<close> is the memory \<open>malloc\<close>
  returned for the request table (\<open>None\<close> for a null pointer).\<close>

record init_env =
  env_hostname :: string
  env_socket :: int
  env_setsockopt :: int
  env_bind :: int
  env_listen :: int
  env_dtablesize :: nat
  env_requests :: "request list option"

definition init_server ::
  "int \<Rightarrow> init_env \<Rightarrow> (server \<times> request list \<times> nat) result" where
  "init_server p env =
     (if env_socket env < 0 then Inl (Program_Exit 1)
      else if env_setsockopt env < 0 then Inl (Program_Exit 1)
      else if env_bind env < 0 then Inl (Program_Exit 1)
      else if env_listen env < 0 then Inl (Program_Exit 1)
      else case env_requests env of
             None \<Rightarrow> Inl (Program_Exit 1)
           | Some mem \<Rightarrow>
               (let sv = \<lparr>hostname = env_hostname env, port = p, listen_fd = env_socket env\<rparr>;
                    reqs = map init_request mem;
                    l = nat (listen_fd sv)
                in if l < length reqs
                   then Inr (sv, reqs[l := (reqs ! l)\<lparr>conn_fd := listen_fd sv, host := hostname sv\<rparr>],
                             env_dtablesize env)
                   else Inl Index_Out_Of_Bounds))"

text \<open>\<open>main\<close> up to the loop: the port is \<open>atoi(argv[1])\<close> as an \<open>unsigned short\<close>; the board file
  is read into a zeroed buffer and written back, so that it holds all the slots.\<close>

definition server_main_init ::
  "nat \<Rightarrow> string list \<Rightarrow> init_env \<Rightarrow> kernel \<Rightarrow> (server_state \<times> kernel) result" where
  "server_main_init p argv env k =
     (if length argv \<noteq> 2 then Inl (Program_Exit 1)
      else case init_server (atoi (argv ! 1) mod 65536) env of
             Inl f \<Rightarrow> Inl f
           | Inr (sv, reqs, mx) \<Rightarrow>
               (let buf = poke 0 (file_read 0 (RECORD_NUM * sizeof_record) (board k))
                            (replicate (RECORD_NUM * sizeof_record) NUL)
                in Inr (\<lparr>pid = p, svr = sv, requestP = reqs, maxfd = mx,
                         lastpos = int RECORD_NUM - 1,
                         fds = (replicate (MAX_CLIENTS + 1) (- 1))[0 := listen_fd sv],
                         locked = replicate RECORD_NUM 0, bulletinbuf = buf,
                         sock_out = [], closed = [], stdout = []\<rparr>,
                        k\<lparr>board := file_write 0 buf (board k)\<rparr>)))"

section \<open>\<open>find_available\<close>\<close>

fun find_loop :: "nat \<Rightarrow> int \<Rightarrow> server_state \<Rightarrow> lock_table \<Rightarrow> int \<times> lock_table" where
  "find_loop 0 index s tab = (- 1, tab)"
| "find_loop (Suc n) index s tab =
     (if locked s ! nat index = 1 then find_loop n ((index + 1) mod int RECORD_NUM) s tab
      else (case write_lock (pid s) (index * int sizeof_record) (int sizeof_record) tab of
              (r, tab1) \<Rightarrow>
                if r \<noteq> - 1
                then (index, snd (unlock (pid s) (index * int sizeof_record) (int sizeof_record) tab1))
                else find_loop n ((index + 1) mod int RECORD_NUM) s tab1))"

definition find_available :: "server_state \<Rightarrow> lock_table \<Rightarrow> int \<times> lock_table" where
  "find_available s tab = find_loop RECORD_NUM ((lastpos s + 1) mod int RECORD_NUM) s tab"

section \<open>Request handlers\<close>

text \<open>\<open>write(requestP[conn_fd].conn_fd, &send, sizeof(send))\<close>\<close>

definition send_io :: "int \<Rightarrow> io \<Rightarrow> server_state \<Rightarrow> server_state" where
  "send_io c x s = s\<lparr>sock_out := sock_out s @ [(conn_fd (requestP s ! nat c), x)]\<rparr>"

definition post_find :: "server_state \<Rightarrow> kernel \<Rightarrow> int \<times> kernel" where
  "post_find s k =
     (case find_available s (flocks k) of (tmp, tab) \<Rightarrow> (tmp, k\<lparr>flocks := tab\<rparr>))"

definition post_reply ::
  "stack \<Rightarrow> int \<Rightarrow> int \<Rightarrow> server_state \<Rightarrow> kernel \<Rightarrow> server_state \<times> kernel" where
  "post_reply st c tmp s k =
     (if tmp = - 1 then (send_io c (set_type ''!full'' (send0 st)) s, k)
      else
        (let tab = snd (write_lock (pid s) (tmp * int sizeof_record) (int sizeof_record) (flocks k));
             s1 = s\<lparr>locked := (locked s)[nat tmp := 1]\<rparr>;
             send = set_type ''!available'' (send0 st);
             msg = (msg0 st)\<lparr>pos := tmp\<rparr>;
             send1 = send\<lparr>io_buf := poke 0 (message_bytes msg) (io_buf send),
                          io_size := int sizeof_message\<rparr>
         in ((send_io c send1 s1)\<lparr>lastpos := tmp\<rparr>, k\<lparr>flocks := tab\<rparr>)))"

definition handle_post :: "stack \<Rightarrow> int \<Rightarrow> server_state \<Rightarrow> kernel \<Rightarrow> server_state \<times> kernel" where
  "handle_post st c s k = (case post_find s k of (tmp, k1) \<Rightarrow> post_reply st c tmp s k1)"

definition handle_exit :: "nat \<Rightarrow> int \<Rightarrow> server_state \<Rightarrow> server_state" where
  "handle_exit i c s =
     s\<lparr>closed := closed s @ [conn_fd (requestP s ! nat c)],
       requestP := (requestP s)[nat c := free_request (requestP s ! nat c)],
       fds := (fds s)[i := - 1]\<rparr>"

fun pull_loop ::
  "nat list \<Rightarrow> int \<Rightarrow> nat \<Rightarrow> io \<Rightarrow> server_state \<Rightarrow> lock_table \<Rightarrow> nat \<times> io \<times> server_state \<times> lock_table"
where
  "pull_loop [] c num_locked send s tab = (num_locked, send, s, tab)"
| "pull_loop (i # is) c num_locked send s tab =
     (if locked s ! i = 1 then pull_loop is c (num_locked + 1) send s tab
      else (case write_lock (pid s) (int i * int sizeof_record) (int sizeof_record) tab of
              (r, tab1) \<Rightarrow>
                if r = - 1 then pull_loop is c (num_locked + 1) send s tab1
                else
                  (let tab2 = snd (unlock (pid s) (int i * int sizeof_record) (int sizeof_record) tab1)
                   in if cstr (drop (i * sizeof_record) (bulletinbuf s)) \<noteq> []
                      then
                        (let send1 = set_type ''!record''
                               (send\<lparr>io_buf := poke 0 (slot_bytes i (bulletinbuf s)) (io_buf send),
                                     io_size := int sizeof_record\<rparr>)
                         in pull_loop is c num_locked send1 (send_io c send1 s) tab2)
                      else pull_loop is c num_locked send s tab2)))"

definition handle_pull :: "stack \<Rightarrow> int \<Rightarrow> server_state \<Rightarrow> kernel \<Rightarrow> server_state \<times> kernel" where
  "handle_pull st c s k =
     (let s1 = s\<lparr>bulletinbuf := poke 0 (file_read 0 (RECORD_NUM * sizeof_record) (board k))
                                  (bulletinbuf s)\<rparr>
      in case pull_loop [0..<RECORD_NUM] c 0 (send0 st) s1 (flocks k) of
           (num_locked, send, s2, tab) \<Rightarrow>
             (let s3 = send_io c (set_type ''!end'' (send\<lparr>io_size := 0\<rparr>)) s2;
                  s4 = (if 0 < num_locked
                        then s3\<lparr>stdout := stdout s3 @
                               [''[Warning] Try to access locked post - '' @ show_nat num_locked]\<rparr>
                        else s3)
              in (s4, k\<lparr>flocks := tab\<rparr>)))"

definition handle_finish :: "io \<Rightarrow> server_state \<Rightarrow> kernel \<Rightarrow> (server_state \<times> kernel) result" where
  "handle_finish receive s k =
     (let mem = peek 0 sizeof_message (io_buf receive); msg = bytes_message mem
      in if 0 \<le> pos msg \<and> pos msg < int RECORD_NUM
         then Inr (s\<lparr>locked := (locked s)[nat (pos msg) := 0],
                     stdout := stdout s @
                       [''[Log] Receive post from '' @ cstr mem]\<rparr>,
                   k\<lparr>board := file_write (nat (pos msg) * sizeof_record) (record_bytes (rd msg)) (board k),
                     flocks := snd (unlock (pid s) (pos msg * int sizeof_record) (int sizeof_record)
                                      (flocks k))\<rparr>)
         else Inl Index_Out_Of_Bounds)"

definition handle_request ::
  "stack \<Rightarrow> nat \<Rightarrow> io \<Rightarrow> server_state \<Rightarrow> kernel \<Rightarrow> (server_state \<times> kernel) result" where
  "handle_request st i receive s k =
     (let c = fds s ! i
      in if type_is ''!post'' receive then Inr (handle_post st c s k)
         else if type_is ''!exit'' receive then Inr (handle_exit i c s, k)
         else if type_is ''!pull'' receive then Inr (handle_pull st c s k)
         else if type_is ''!finish'' receive then handle_finish receive s k
         else Inr (s, k))"

section \<open>The poll loop\<close>

fun serve_clients ::
  "stack \<Rightarrow> poll_env \<Rightarrow> nat list \<Rightarrow> server_state \<Rightarrow> kernel \<Rightarrow> (server_state \<times> kernel) result"
where
  "serve_clients st env [] s k = Inr (s, k)"
| "serve_clients st env (i # is) s k =
     (if revents env ! i
      then
        (if 0 \<le> fds s ! i \<and> nat (fds s ! i) < length (requestP s)
         then
           (case handle_request st i
                   (case received env i of Some x \<Rightarrow> x | None \<Rightarrow> receive0 st) s k of
              Inl f \<Rightarrow> Inl f
            | Inr (s1, k1) \<Rightarrow> serve_clients st env is s1 k1)
         else Inl Index_Out_Of_Bounds)
      else serve_clients st env is s k)"

fun place_fd :: "int \<Rightarrow> nat list \<Rightarrow> int list \<Rightarrow> int list" where
  "place_fd c [] fs = fs"
| "place_fd c (i # is) fs = (if fs ! i = - 1 then fs[i := c] else place_fd c is fs)"

definition accept_request :: "int \<Rightarrow> string \<Rightarrow> server_state \<Rightarrow> server_state" where
  "accept_request c h s =
     s\<lparr>requestP := (requestP s)[nat c := (requestP s ! nat c)\<lparr>conn_fd := c, host := h\<rparr>],
       fds := place_fd c [1..<MAX_CLIENTS + 1] (fds s)\<rparr>"

definition server_iter ::
  "stack \<Rightarrow> poll_env \<Rightarrow> server_state \<Rightarrow> kernel \<Rightarrow> (server_state \<times> kernel) result" where
  "server_iter st env s k =
     (if 0 < num_in env
      then
        (if revents env ! 0
         then
           (case accepted env of
              Accept_Failed e \<Rightarrow>
                if e = EINTR \<or> e = EAGAIN \<or> e = ENFILE then Inr (s, k) else Inl (Program_Exit 1)
            | Accepted c h \<Rightarrow>
                if 0 \<le> c \<and> nat c < length (requestP s)
                then serve_clients st env [1..<MAX_CLIENTS + 1] (accept_request c h s) k
                else Inl Index_Out_Of_Bounds)
         else serve_clients st env [1..<MAX_CLIENTS + 1] s k)
      else Inr (s, k))"

text \<open>The server process over a finite sequence of poll iterations.\<close>

fun server_run ::
  "(stack \<times> poll_env) list \<Rightarrow> server_state \<Rightarrow> kernel \<Rightarrow> (server_state \<times> kernel) result" where
  "server_run [] s k = Inr (s, k)"
| "server_run ((st, env) # es) s k =
     (case server_iter st env s k of
        Inl f \<Rightarrow> Inl f
      | Inr (s1, k1) \<Rightarrow> server_run es s1 k1)"

section \<open>Specification\<close>

text \<open>The shape of the server's arrays.\<close>

definition server_wf :: "server_state \<Rightarrow> bool" where
  "server_wf s \<longleftrightarrow>
     length (locked s) = RECORD_NUM \<and> list_all (\<lambda>v. v = 0 \<or> v = 1) (locked s) \<and>
     0 \<le> lastpos s \<and> lastpos s < int RECORD_NUM \<and>
     length (fds s) = MAX_CLIENTS + 1 \<and> length (bulletinbuf s) = RECORD_NUM * sizeof_record"

text \<open>The array \<open>locked\<close> and the kernel's table agree: the server holds the write lock on exactly
  the slots it has handed out, and nothing on the others.\<close>

definition server_locks :: "server_state \<Rightarrow> lock_table \<Rightarrow> bool" where
  "server_locks s tab \<longleftrightarrow>
     (\<forall>i < RECORD_NUM. (locked s ! i = 1 \<longrightarrow> slot_mine tab (pid s) i) \<and>
                         (locked s ! i \<noteq> 1 \<longrightarrow> slot_clear tab (pid s) i))"

definition server_inv :: "server_state \<Rightarrow> kernel \<Rightarrow> bool" where
  "server_inv s k \<longleftrightarrow>
     server_wf s \<and> server_locks s (flocks k) \<and> RECORD_NUM * sizeof_record \<le> length (board k)"

text \<open>A slot is free for a server when it has not handed it out and no other process holds any
  lock on it; posts take the first free slot in cyclic order after the last one.\<close>

definition slot_free :: "server_state \<Rightarrow> lock_table \<Rightarrow> nat \<Rightarrow> bool" where
  "slot_free s tab i \<longleftrightarrow> locked s ! i \<noteq> 1 \<and> \<not> slot_busy tab (pid s) i"

fun cyclic :: "nat \<Rightarrow> nat \<Rightarrow> nat list" where
  "cyclic 0 i = []"
| "cyclic (Suc n) i = i # cyclic n ((i + 1) mod RECORD_NUM)"

definition next_free :: "server_state \<Rightarrow> lock_table \<Rightarrow> nat option" where
  "next_free s tab =
     List.find (slot_free s tab) (cyclic RECORD_NUM ((nat (lastpos s) + 1) mod RECORD_NUM))"

end
