(* ===== verification/Bulletin_Server_Correct.thy ===== *)
theory Bulletin_Server_Correct
  imports Bulletin_Server
begin

text \<open>
  Correctness of the server's operations: \<open>find_available\<close> computes \<open>next_free\<close> and leaves the
  lock table as it found it; what every handler does on every branch; the invariant
  \<open>server_inv\<close>, established by the start-up code and kept by every poll iteration.
\<close>

section \<open>Slots and the lock calls\<close>

lemma write_lock_slot [simp]: "write_lock p (int i * 25) 25 tab = slot_acquire p i tab"
  and unlock_slot [simp]: "unlock p (int i * 25) 25 tab = slot_release p i tab"
  by (simp_all add: slot_acquire_def slot_release_def)

lemma slot_release_fst [simp]: "fst (slot_release p i tab) = 0"
  by (simp only: slot_release_def unlock_granted)

lemma cyclic_set: "i < 10 \<Longrightarrow> set (cyclic 10 i) = {0..<10}"
proof -
  have "list_all (\<lambda>i. set (cyclic 10 i) = set [0..<10]) [0..<10]" by code_simp
  moreover assume "i < 10"
  ultimately show ?thesis by (simp add: list_all_iff)
qed

lemma cyclic_bound: "i < 10 \<Longrightarrow> set (cyclic n i) \<subseteq> {0..<10}"
  by (induction n arbitrary: i) auto

lemma next_index: "(int i + 1) mod 10 = int (Suc i mod 10)"
  by (simp add: zmod_int add.commute)

lemma not_free_handed_out: "locked s ! i = 1 \<Longrightarrow> \<not> slot_free s tab i"
  and not_free_busy: "slot_busy tab (pid s) i \<Longrightarrow> \<not> slot_free s tab i"
  and freeI: "locked s ! i \<noteq> 1 \<Longrightarrow> \<not> slot_busy tab (pid s) i \<Longrightarrow> slot_free s tab i"
  by (auto simp: slot_free_def)

lemma server_locks_tracks:
  "server_locks s tab = board_locks.tracks 10 tab (pid s) (\<lambda>i. locked s ! i = 1)"
  by (simp add: server_locks_def board_locks.tracks_def)

lemma free_probe:
  assumes "server_locks s tab" and "slot_free s tab i" and "i < 10"
  shows "fst (slot_acquire (pid s) i tab) \<noteq> - 1 \<and>
    snd (slot_release (pid s) i (snd (slot_acquire (pid s) i tab))) = tab"
  using assms board_locks.probe_granted [of 10 tab "pid s" "\<lambda>i. locked s ! i = 1" i]
  by (simp add: server_locks_tracks slot_free_def)

lemma find_loop_spec:
  assumes "server_locks s tab" and "i < 10"
  shows "find_loop n (int i) s tab =
     (case List.find (slot_free s tab) (cyclic n i) of None \<Rightarrow> - 1 | Some j \<Rightarrow> int j, tab)"
  using assms(2)
proof (induction n arbitrary: i)
  case 0
  show ?case by simp
next
  case (Suc n)
  have IH: "find_loop n ((int i + 1) mod 10) s tab =
     (case List.find (slot_free s tab) (cyclic n (Suc i mod 10)) of None \<Rightarrow> - 1 | Some j \<Rightarrow> int j, tab)"
    unfolding next_index by (rule Suc.IH) simp
  consider "locked s ! i = 1" | "locked s ! i \<noteq> 1" "slot_busy tab (pid s) i"
    | "locked s ! i \<noteq> 1" "\<not> slot_busy tab (pid s) i" by blast
  then show ?case
  proof cases
    case 1
    with IH show ?thesis by (simp add: not_free_handed_out)
  next
    case 2
    then have "slot_acquire (pid s) i tab = (- 1, tab)" by (simp add: board_locks.probe_refused)
    with 2 IH show ?thesis by (simp add: not_free_busy)
  next
    case 3
    then show ?thesis
      using free_probe [OF assms(1) freeI Suc.prems] by (simp add: freeI case_prod_beta)
  qed
qed

lemma find_available_next_free:
  assumes "server_inv s k"
  shows "find_available s (flocks k) =
     (case next_free s (flocks k) of None \<Rightarrow> - 1 | Some i \<Rightarrow> int i, flocks k)"
proof -
  have "(lastpos s + 1) mod 10 = int ((nat (lastpos s) + 1) mod 10)"
    using assms by (simp add: server_inv_def server_wf_def zmod_int add.commute)
  then show ?thesis
    using assms find_loop_spec [of s "flocks k" "(nat (lastpos s) + 1) mod 10" 10]
    by (simp add: find_available_def next_free_def server_inv_def)
qed

lemma next_free_Some:
  assumes "next_free s tab = Some i"
  shows "i < 10 \<and> slot_free s tab i"
proof -
  from assms have "i \<in> set (cyclic 10 ((nat (lastpos s) + 1) mod 10))" "slot_free s tab i"
    by (auto simp: next_free_def find_Some_iff)
  then show ?thesis using cyclic_set [of "(nat (lastpos s) + 1) mod 10"] by simp
qed

lemma next_free_None: "next_free s tab = None \<longleftrightarrow> (\<forall>i < 10. \<not> slot_free s tab i)"
  using cyclic_set [of "(nat (lastpos s) + 1) mod 10"]
  by (auto simp: next_free_def find_None_iff Ball_def)

section \<open>Posting\<close>

lemma send_io_fields [simp]:
  "locked (send_io c x s) = locked s" "pid (send_io c x s) = pid s" "fds (send_io c x s) = fds s"
  "lastpos (send_io c x s) = lastpos s" "requestP (send_io c x s) = requestP s"
  "bulletinbuf (send_io c x s) = bulletinbuf s" "stdout (send_io c x s) = stdout s"
  "sock_out (send_io c x s) = sock_out s @ [(conn_fd (requestP s ! nat c), x)]"
  by (simp_all add: send_io_def)

lemma post_find_spec:
  "server_inv s k \<Longrightarrow>
   post_find s k = (case next_free s (flocks k) of None \<Rightarrow> - 1 | Some i \<Rightarrow> int i, k)"
  by (simp add: post_find_def find_available_next_free)

lemma handle_post_full:
  "server_inv s k \<Longrightarrow> next_free s (flocks k) = None \<Longrightarrow>
   handle_post st c s k = (send_io c (set_type ''!full'' (send0 st)) s, k)"
  by (simp add: handle_post_def post_find_spec post_reply_def)

text \<open>The reply to an accepted post, as the client will read it.\<close>

definition available_io :: "stack \<Rightarrow> nat \<Rightarrow> io" where
  "available_io st i =
     (set_type ''!available'' (send0 st))
       \<lparr>io_buf := poke 0 (message_bytes ((msg0 st)\<lparr>pos := int i\<rparr>)) (io_buf (send0 st)), io_size := 32\<rparr>"

lemma handle_post_slot:
  assumes "server_inv s k" and "next_free s (flocks k) = Some i"
  shows "handle_post st c s k =
     ((send_io c (available_io st i) s)\<lparr>locked := (locked s)[i := 1], lastpos := int i\<rparr>,
      k\<lparr>flocks := snd (slot_acquire (pid s) i (flocks k))\<rparr>)"
  using assms
  by (simp add: handle_post_def post_find_spec post_reply_def available_io_def send_io_def Let_def
      set_type_def)

lemma server_locks_acquire:
  assumes "server_locks s tab" and "slot_free s tab i" and "i < length (locked s)"
  shows "server_locks (s\<lparr>locked := (locked s)[i := 1]\<rparr>) (snd (slot_acquire (pid s) i tab))"
  using board_locks.tracks_acquire [of 10 tab "pid s" "\<lambda>j. locked s ! j = 1" i] assms
  by (simp add: server_locks_tracks slot_free_def board_locks.tracks_def nth_list_update)

lemma server_locks_cong:
  "locked s' = locked s \<Longrightarrow> pid s' = pid s \<Longrightarrow> server_locks s' tab = server_locks s tab"
  by (simp add: server_locks_def)

lemma list_all_update: "list_all P xs \<Longrightarrow> P v \<Longrightarrow> list_all P (xs[i := v])"
  by (auto simp: list_all_iff dest: set_update_subset_insert [THEN subsetD])

lemma handle_post_inv:
  assumes "server_inv s k" and "handle_post st c s k = (s', k')"
  shows "server_inv s' k'"
proof (cases "next_free s (flocks k)")
  case None
  with assms have "s' = send_io c (set_type ''!full'' (send0 st)) s" "k' = k"
    by (simp_all add: handle_post_full)
  with assms(1) show ?thesis by (simp add: server_inv_def server_wf_def server_locks_def)
next
  case (Some i)
  then have i: "i < 10" "slot_free s (flocks k) i" by (simp_all add: next_free_Some)
  have s': "s' = (send_io c (available_io st i) s)\<lparr>locked := (locked s)[i := 1], lastpos := int i\<rparr>"
    and k': "k' = k\<lparr>flocks := snd (slot_acquire (pid s) i (flocks k))\<rparr>"
    using assms Some by (simp_all add: handle_post_slot)
  have "server_locks s' (flocks k')"
    using assms(1) i server_locks_acquire [of s "flocks k" i]
    by (simp add: s' k' server_inv_def server_wf_def server_locks_def)
  moreover have "server_wf s'"
    using assms(1) i(1) by (simp add: s' server_inv_def server_wf_def list_all_update)
  ultimately show ?thesis using assms(1) by (simp add: server_inv_def k')
qed

section \<open>Pulling\<close>

text \<open>What a pull shows: the free slots whose post has an author.\<close>

definition shown :: "server_state \<Rightarrow> lock_table \<Rightarrow> bytes \<Rightarrow> nat \<Rightarrow> bool" where
  "shown s tab buf i \<longleftrightarrow> slot_free s tab i \<and> cstr (drop (i * 25) buf) \<noteq> []"

text \<open>The receiver's view of a message: its type and the first 25 bytes of its buffer.\<close>

definition io_view :: "int \<times> io \<Rightarrow> int \<times> string \<times> bytes" where
  "io_view m = (fst m, cstr (io_type (snd m)), peek 0 25 (io_buf (snd m)))"

lemma poke_at_start: "length bs \<le> length mem \<Longrightarrow> peek 0 (length bs) (poke 0 bs mem) = bs"
  by (simp add: peek_def poke_def)

definition record_io :: "bytes \<Rightarrow> io \<Rightarrow> io" where
  "record_io bs send =
     set_type ''!record'' (send\<lparr>io_buf := poke 0 bs (io_buf send), io_size := 25\<rparr>)"

lemma wf_record_io: "wf_io send \<Longrightarrow> length bs = 25 \<Longrightarrow> wf_io (record_io bs send)"
  by (simp add: record_io_def wf_io_def length_poke set_type_def length_strcpy)

lemma io_view_record_io:
  "wf_io send \<Longrightarrow> length bs = 25 \<Longrightarrow> io_view (c, record_io bs send) = (c, ''!record'', bs)"
  using poke_at_start [of bs "io_buf send"]
  by (simp add: record_io_def io_view_def wf_io_def set_type_def is_word_def)

text \<open>One slot of a pull: not free, free without a post, free with a post.\<close>

lemma pull_loop_busy:
  assumes "\<not> slot_free s tab i"
  shows "pull_loop (i # js) c n send s tab = pull_loop js c (Suc n) send s tab"
proof (cases "locked s ! i = 1")
  case False
  with assms have "slot_busy tab (pid s) i" by (simp add: slot_free_def)
  then have "slot_acquire (pid s) i tab = (- 1, tab)" by (rule board_locks.probe_refused)
  with False show ?thesis by simp
qed simp

lemma pull_loop_free:
  assumes "server_locks s tab" and "slot_free s tab i" and "i < 10"
  shows "pull_loop (i # js) c n send s tab =
    (if cstr (drop (i * 25) (bulletinbuf s)) = [] then pull_loop js c n send s tab
     else let r = record_io (slot_bytes i (bulletinbuf s)) send in pull_loop js c n r (send_io c r s) tab)"
proof -
  have "locked s ! i \<noteq> 1" using assms(2) by (simp add: slot_free_def)
  moreover from free_probe [OF assms] have "fst (slot_acquire (pid s) i tab) \<noteq> - 1"
    "snd (slot_release (pid s) i (snd (slot_acquire (pid s) i tab))) = tab" by auto
  ultimately show ?thesis by (simp add: record_io_def case_prod_beta Let_def)
qed

lemma pull_loop_spec:
  assumes "server_locks s tab" and "set js \<subseteq> {0..<10}" and "length (bulletinbuf s) = 250"
    and "wf_io send" and "pull_loop js c n send s tab = (n', send', s', tab')"
  shows "tab' = tab \<and> wf_io send' \<and>
    n' = n + length (filter (\<lambda>i. \<not> slot_free s tab i) js) \<and>
    (\<exists>es. s' = s\<lparr>sock_out := sock_out s @ es\<rparr> \<and>
      map io_view es = map (\<lambda>i. (conn_fd (requestP s ! nat c), ''!record'', slot_bytes i (bulletinbuf s)))
                         (filter (shown s tab (bulletinbuf s)) js))"
  using assms
proof (induction js arbitrary: n send s)
  case Nil
  then show ?case by (auto intro: exI [of _ "[]"])
next
  case (Cons i js)
  have i: "i < 10" and js: "set js \<subseteq> {0..<10}" using Cons.prems(2) by auto
  note IH = Cons.IH [OF _ js]
  consider (busy) "\<not> slot_free s tab i"
    | (empty) "slot_free s tab i" "cstr (drop (i * 25) (bulletinbuf s)) = []"
    | (post) "slot_free s tab i" "cstr (drop (i * 25) (bulletinbuf s)) \<noteq> []" by blast
  then show ?case
  proof cases
    case busy
    then have "pull_loop js c (Suc n) send s tab = (n', send', s', tab')"
      using Cons.prems(5) unfolding pull_loop_busy [OF busy] by simp
    from IH [OF Cons.prems(1,3,4) this] busy show ?thesis by (simp add: shown_def)
  next
    case empty
    from IH [OF Cons.prems(1,3,4)] Cons.prems(5) empty show ?thesis
      unfolding pull_loop_free [OF Cons.prems(1) empty(1) i] by (simp add: shown_def)
  next
    case post
    let ?r = "record_io (slot_bytes i (bulletinbuf s)) send" and ?fd = "conn_fd (requestP s ! nat c)"
    have len: "length (slot_bytes i (bulletinbuf s)) = 25"
      using i Cons.prems(3) by (simp add: slot_bytes_def)
    have step: "pull_loop js c n ?r (send_io c ?r s) tab = (n', send', s', tab')"
      using Cons.prems(5) post unfolding pull_loop_free [OF Cons.prems(1) post(1) i] by (simp add: Let_def)
    have same: "slot_free (send_io c ?r s) tab = slot_free s tab"
        "shown (send_io c ?r s) tab = shown s tab" "server_locks (send_io c ?r s) tab"
      using Cons.prems(1) by (auto simp: slot_free_def shown_def server_locks_def fun_eq_iff)
    from IH [OF same(3) _ wf_record_io [OF Cons.prems(4) len] step] Cons.prems(3)
    obtain es where es: "tab' = tab" "wf_io send'"
        "n' = n + length (filter (\<lambda>i. \<not> slot_free s tab i) js)"
        "s' = (send_io c ?r s)\<lparr>sock_out := sock_out (send_io c ?r s) @ es\<rparr>"
        "map io_view es = map (\<lambda>i. (?fd, ''!record'', slot_bytes i (bulletinbuf s)))
           (filter (shown s tab (bulletinbuf s)) js)"
      by (auto simp: same)
    have "s' = s\<lparr>sock_out := sock_out s @ (?fd, ?r) # es\<rparr>" using es(4) by (simp add: send_io_def)
    moreover have "map io_view ((?fd, ?r) # es) =
        map (\<lambda>i. (?fd, ''!record'', slot_bytes i (bulletinbuf s))) (filter (shown s tab (bulletinbuf s)) (i # js))"
      using es(5) post len Cons.prems(4) by (simp add: shown_def io_view_record_io)
    ultimately show ?thesis using es(1-3) post by (auto intro: exI)
  qed
qed

lemma board_in_buffer:
  assumes "250 \<le> length b" and "length buf = 250"
  shows "poke 0 (file_read 0 250 b) buf = take 250 b"
  using assms by (simp add: file_read_def peek_def poke_def)

lemma slot_bytes_take: "i < 10 \<Longrightarrow> slot_bytes i (take 250 b) = slot_bytes i b"
  by (simp add: slot_bytes_def peek_def drop_take min_def)

lemma cstr_slot_Nil:
  assumes "i < 10" and "250 \<le> length b"
  shows "cstr (drop (i * 25) (take 250 b)) = [] \<longleftrightarrow> cstr (slot_bytes i b) = []"
  using assms by (simp add: cstr_Nil_iff slot_bytes_def peek_def hd_drop_conv_nth hd_conv_nth drop_eq_Nil)

lemma handle_pull_spec:
  assumes inv: "server_inv s k" and send: "wf_io (send0 st)"
    and run: "handle_pull st c s k = (s', k')"
  defines "cfd \<equiv> conn_fd (requestP s ! nat c)"
    and "visible \<equiv> filter (\<lambda>i. slot_free s (flocks k) i \<and> cstr (slot_bytes i (board k)) \<noteq> []) [0..<10]"
    and "hidden \<equiv> filter (\<lambda>i. \<not> slot_free s (flocks k) i) [0..<10]"
  shows "k' = k \<and> server_inv s' k \<and> pid s' = pid s \<and> locked s' = locked s \<and> lastpos s' = lastpos s \<and>
    (\<exists>es e. sock_out s' = sock_out s @ es @ [(cfd, e)] \<and> type_is ''!end'' e \<and> io_size e = 0 \<and>
       map io_view es = map (\<lambda>i. (cfd, ''!record'', slot_bytes i (board k))) visible) \<and>
    stdout s' = stdout s @
      (if hidden = [] then []
       else [''[Warning] Try to access locked post - '' @ show_nat (length hidden)])"
proof -
  let ?s1 = "s\<lparr>bulletinbuf := take 250 (board k)\<rparr>"
  have len: "250 \<le> length (board k)" "length (bulletinbuf s) = 250"
    using inv by (simp_all add: server_inv_def server_wf_def)
  obtain n send' s2 tab where loop: "pull_loop [0..<10] c 0 (send0 st) ?s1 (flocks k) = (n, send', s2, tab)"
    by (metis prod_cases4)
  have free: "slot_free ?s1 (flocks k) = slot_free s (flocks k)"
    by (simp add: slot_free_def fun_eq_iff)
  have locks: "server_locks ?s1 (flocks k)" using inv by (simp add: server_inv_def server_locks_def)
  from pull_loop_spec [OF locks _ _ send loop] len obtain es where
    es: "tab = flocks k" "wf_io send'" "n = length hidden" "s2 = ?s1\<lparr>sock_out := sock_out s @ es\<rparr>"
      "map io_view es = map (\<lambda>i. (cfd, ''!record'', slot_bytes i (take 250 (board k))))
         (filter (shown ?s1 (flocks k) (take 250 (board k))) [0..<10])"
    by (auto simp: free hidden_def cfd_def)
  have "filter (shown ?s1 (flocks k) (take 250 (board k))) [0..<10] = visible"
    unfolding visible_def using len
    by (intro filter_cong) (auto simp: shown_def free cstr_slot_Nil)
  moreover have "\<forall>i \<in> set visible. slot_bytes i (take 250 (board k)) = slot_bytes i (board k)"
    by (simp add: visible_def slot_bytes_take)
  ultimately have view: "map io_view es = map (\<lambda>i. (cfd, ''!record'', slot_bytes i (board k))) visible"
    by (simp add: es(5))
  let ?e = "set_type ''!end'' (send'\<lparr>io_size := 0\<rparr>)"
  have buf: "poke 0 (file_read 0 250 (board k)) (bulletinbuf s) = take 250 (board k)"
    using len by (rule board_in_buffer)
  have k': "k' = k"
    using run loop es(1) by (simp add: handle_pull_def buf Let_def)
  have s': "s' = (send_io c ?e s2)\<lparr>stdout := stdout s @
      (if hidden = [] then [] else [''[Warning] Try to access locked post - '' @ show_nat (length hidden)])\<rparr>"
    using run loop
    by (cases "hidden = []") (auto simp: handle_pull_def buf es(3,4) Let_def send_io_def)
  have "server_inv s' k"
    using inv len by (simp add: s' es(4) server_inv_def server_wf_def server_locks_def)
  moreover have "sock_out s' = sock_out s @ es @ [(cfd, ?e)]"
    by (simp add: s' es(4) cfd_def)
  moreover have "type_is ''!end'' ?e" by (simp add: is_word_def)
  ultimately show ?thesis using k' view by (auto simp: s' es(4))
qed

section \<open>Finishing a post\<close>

lemma server_locks_release:
  assumes "server_locks s tab" and "i < length (locked s)"
  shows "server_locks (s\<lparr>locked := (locked s)[i := 0]\<rparr>) (snd (slot_release (pid s) i tab))"
  using board_locks.tracks_release [of 10 tab "pid s" "\<lambda>j. locked s ! j = 1" i] assms
  by (simp add: server_locks_tracks board_locks.tracks_def nth_list_update)

text \<open>The post a \<open>!finish\<close> request carries.\<close>

definition finish_msg :: "io \<Rightarrow> message" where
  "finish_msg x = bytes_message (peek 0 32 (io_buf x))"

lemma handle_finish_ok:
  assumes "pos (finish_msg x) = int i" and "i < 10"
  shows "handle_finish x s k =
    Inr (s\<lparr>locked := (locked s)[i := 0],
           stdout := stdout s @ [''[Log] Receive post from '' @ cstr (peek 0 32 (io_buf x))]\<rparr>,
         k\<lparr>board := file_write (i * 25) (record_bytes (rd (finish_msg x))) (board k),
           flocks := snd (slot_release (pid s) i (flocks k))\<rparr>)"
  using assms by (simp add: handle_finish_def finish_msg_def Let_def)

lemma handle_finish_bad:
  "\<not> (0 \<le> pos (finish_msg x) \<and> pos (finish_msg x) < 10) \<Longrightarrow>
   handle_finish x s k = Inl Index_Out_Of_Bounds"
  by (auto simp: handle_finish_def finish_msg_def Let_def)

lemma handle_finish_inv:
  assumes "server_inv s k" and "handle_finish x s k = Inr (s', k')"
  shows "server_inv s' k'"
proof -
  have "0 \<le> pos (finish_msg x) \<and> pos (finish_msg x) < 10"
    using assms(2) handle_finish_bad by fastforce
  then obtain i where i: "pos (finish_msg x) = int i" "i < 10"
    by (metis int_nat_eq nat_less_numeral_power_cancel_iff of_nat_less_numeral_iff nonneg_int_cases)
  have "server_locks s' (flocks k')"
    using assms i server_locks_release [of s "flocks k" i]
    by (auto simp: handle_finish_ok server_inv_def server_wf_def server_locks_def)
  moreover have "server_wf s'"
    using assms i by (auto simp: handle_finish_ok server_inv_def server_wf_def list_all_update)
  moreover have "250 \<le> length (board k')"
    using assms i by (auto simp: handle_finish_ok server_inv_def length_file_write)
  ultimately show ?thesis by (simp add: server_inv_def)
qed

section \<open>The loop keeps the invariant\<close>

lemma handle_exit_inv: "server_inv s k \<Longrightarrow> server_inv (handle_exit i c s) k"
  by (simp add: handle_exit_def server_inv_def server_wf_def server_locks_def)

lemma handle_request_inv:
  assumes "server_inv s k" and "wf_io (send0 st)" and "handle_request st i x s k = Inr (s', k')"
  shows "server_inv s' k'"
proof -
  let ?c = "fds s ! i"
  obtain a b where post: "handle_post st ?c s k = (a, b)" by fastforce
  obtain u v where pull: "handle_pull st ?c s k = (u, v)" by fastforce
  note inv = handle_post_inv [OF assms(1) post] handle_exit_inv [OF assms(1), of i ?c]
  have "server_inv u v" using handle_pull_spec [OF assms(1,2) pull] by simp
  with inv assms handle_finish_inv [OF assms(1), of x s' k'] post pull show ?thesis
    by (auto simp: handle_request_def Let_def split: if_splits)
qed

lemma serve_clients_inv:
  "server_inv s k \<Longrightarrow> wf_io (send0 st) \<Longrightarrow> serve_clients st env js s k = Inr (s', k') \<Longrightarrow> server_inv s' k'"
proof (induction js arbitrary: s k)
  case Nil
  then show ?case by simp
next
  case (Cons i js)
  show ?case
  proof (cases "revents env ! i")
    case True
    let ?x = "case received env i of Some x \<Rightarrow> x | None \<Rightarrow> receive0 st"
    from True Cons.prems(3) obtain s1 k1 where
      step: "handle_request st i ?x s k = Inr (s1, k1)"
      and rest: "serve_clients st env js s1 k1 = Inr (s', k')"
      by (auto split: if_splits sum.splits)
    from handle_request_inv [OF Cons.prems(1,2) step] Cons.prems(2) rest show ?thesis
      by (rule Cons.IH)
  next
    case False
    with Cons show ?thesis by simp
  qed
qed

lemma length_place_fd [simp]: "length (place_fd c js fs) = length fs"
  by (induction js) auto

lemma accept_request_inv: "server_inv s k \<Longrightarrow> server_inv (accept_request c h s) k"
  by (simp add: accept_request_def server_inv_def server_wf_def server_locks_def)

lemma server_iter_inv:
  "server_inv s k \<Longrightarrow> wf_io (send0 st) \<Longrightarrow> server_iter st env s k = Inr (s', k') \<Longrightarrow> server_inv s' k'"
  unfolding server_iter_def
  by (auto split: if_splits accept_result.splits intro: serve_clients_inv accept_request_inv)

lemma server_run_inv:
  "server_inv s k \<Longrightarrow> \<forall>(st, env) \<in> set es. wf_io (send0 st) \<Longrightarrow>
   server_run es s k = Inr (s', k') \<Longrightarrow> server_inv s' k'"
  by (induction es s k rule: server_run.induct)
    (auto split: sum.splits prod.splits dest: server_iter_inv)

text \<open>The start-up code establishes it, for a process that holds no lock on the file yet.\<close>

lemma server_main_init_inv:
  assumes init: "server_main_init p argv env k = Inr (s, k')"
    and clear: "\<forall>i < 10. slot_clear (flocks k) p i"
  shows "server_inv s k'"
proof -
  from init have
    s: "pid s = p" "lastpos s = 9" "length (fds s) = 21"
      "locked s = replicate 10 0" "bulletinbuf s = poke 0 (file_read 0 250 (board k)) (replicate 250 NUL)"
    and k': "k' = k\<lparr>board := file_write 0 (bulletinbuf s) (board k)\<rparr>"
    by (auto simp: server_main_init_def Let_def split: if_splits sum.splits prod.splits)
  have "length (bulletinbuf s) = 250"
    by (simp add: s(5) file_read_def length_poke)
  moreover from this have "250 \<le> length (board k')"
    by (simp add: k' length_file_write)
  ultimately show ?thesis using clear
    by (simp add: s(1-4) k' server_inv_def server_wf_def server_locks_def list_all_iff)
qed

end
