(* ===== verification/Bulletin_Client.thy ===== *)
theory Bulletin_Client
  imports Bulletin_Types
begin

text \<open>
  The bulletin board client (\<open>HW1/client.c\<close>): \<open>init_client\<close>, \<open>print_board\<close> and the command
  loop of \<open>main\<close>, as functions of the words on standard input and of the \<open>io\<close> structures that
  arrive from the server. \<open>scanf\<close> writes into the memory of the \<open>message\<close> structure, so a long
  name or text runs into the fields behind it; past the structure it is a fault. \<open>printf\<close> with \<open>%s\<close> reads up
  to a zero byte; past the structure it is a fault, too. Standard input stays open: when the words
  have run out, \<open>scanf\<close> waits for more. The lemmas state what the server will find in the message.
\<close>

section \<open>State\<close>

record client =
  ip :: string
  client_port :: int
  client_fd :: int

record client_state =
  c_out :: "io list"
  c_stdout :: "string list"

text \<open>The uninitialised \<open>io send\<close> of a call.\<close>

record client_stack =
  c_send0 :: io

record client_env =
  cenv_socket :: int
  cenv_inet_pton :: int
  cenv_connect :: int

definition init_client :: "string list \<Rightarrow> client_env \<Rightarrow> client result" where
  "init_client argv env =
     (if atoi (argv ! 2) = 0 \<or> atoi (argv ! 2) > 65536 then Inl (Program_Exit 1)
      else if cenv_socket env < 0 then Inl (Program_Exit 1)
      else if cenv_inet_pton env \<le> 0 then Inl (Program_Exit 1)
      else if cenv_connect env < 0 then Inl (Program_Exit 1)
      else Inr \<lparr>ip = argv ! 1, client_port = atoi (argv ! 2) mod 65536, client_fd = cenv_socket env\<rparr>)"

section \<open>Operations\<close>

definition c_send :: "io \<Rightarrow> client_state \<Rightarrow> client_state" where
  "c_send x cs = cs\<lparr>c_out := c_out cs @ [x]\<rparr>"

definition c_print :: "string list \<Rightarrow> client_state \<Rightarrow> client_state" where
  "c_print ls cs = cs\<lparr>c_stdout := c_stdout cs @ ls\<rparr>"

definition rule_line :: string where
  "rule_line = ''==============================''"

text \<open>The two \<open>printf\<close> of one post. The first one prints the string that starts at \<open>rd.From\<close>, and runs on
  into \<open>rd.Content\<close> if there is no zero byte in \<open>From\<close>; the second one prints the string at \<open>rd.Content\<close>. A
  string that does not end within the record is read on past it.\<close>

definition print_s :: "bytes \<Rightarrow> string result" where
  "print_s mem = (if NUL \<in> set mem then Inr (cstr mem) else Inl Buffer_Overread)"

definition show_record :: "bb_record \<Rightarrow> string list result" where
  "show_record r =
     (case print_s (record_bytes r) of
        Inl e \<Rightarrow> Inl e
      | Inr author \<Rightarrow>
          (case print_s (Content r) of
             Inl e \<Rightarrow> Inl e
           | Inr txt \<Rightarrow> Inr [''FROM: '' @ author, ''CONTENT:'', txt]))"

text \<open>The reading loop of \<open>print_board\<close>: what it prints, and the input left after \<open>!end\<close>, or \<open>None\<close> when the
  input runs out before and the call blocks in \<open>read\<close>.\<close>

fun read_board :: "io list \<Rightarrow> (string list \<times> io list option) result" where
  "read_board [] = Inr ([], None)"
| "read_board (x # xs) =
     (if type_is ''!end'' x then Inr ([], Some xs)
      else (case show_record (bytes_record (peek 0 sizeof_record (io_buf x))) of
              Inl e \<Rightarrow> Inl e
            | Inr ls \<Rightarrow>
                (case read_board xs of
                   Inl e \<Rightarrow> Inl e
                 | Inr (out, rest) \<Rightarrow> Inr (ls @ out, rest))))"

definition print_board ::
  "client_stack \<Rightarrow> io list \<Rightarrow> client_state \<Rightarrow> (io list option \<times> client_state) result" where
  "print_board st inp cs =
     (let cs1 = c_print [rule_line] (c_send (set_type ''!pull'' (c_send0 st)) cs)
      in case read_board inp of
           Inl e \<Rightarrow> Inl e
         | Inr (out, None) \<Rightarrow> Inr (None, c_print out cs1)
         | Inr (out, Some rest) \<Rightarrow> Inr (Some rest, c_print (out @ [rule_line]) cs1))"

text \<open>The two \<open>scanf\<close> calls of a post write into the \<open>message\<close> structure, at the offsets of its
  fields \<open>rd.From\<close> and \<open>rd.Content\<close>.\<close>

definition fill_message :: "string \<Rightarrow> string \<Rightarrow> message \<Rightarrow> bytes result" where
  "fill_message from content m =
     (case scanf_s 0 from (message_bytes m) of
        Inl e \<Rightarrow> Inl e
      | Inr mem \<Rightarrow> scanf_s FROM_LEN content mem)"

definition finish_io :: "io \<Rightarrow> bytes \<Rightarrow> io" where
  "finish_io send mem =
     set_type ''!finish''
       (send\<lparr>io_buf := poke 0 mem (io_buf send), io_size := int sizeof_message\<rparr>)"

text \<open>How far the client gets with a given input: it has left the loop, or it waits in \<open>scanf\<close> or \<open>read\<close>
  for input that has not arrived.\<close>

datatype client_outcome =
    Exited client_state
  | Blocked client_state

definition prompt :: string where
  "prompt = ''Please enter your command (post/pull/exit): ''"

fun client_loop ::
  "client_stack \<Rightarrow> string list \<Rightarrow> io list \<Rightarrow> client_state \<Rightarrow> client_outcome result" where
  "client_loop st [] inp cs = Inr (Blocked (c_print [prompt] cs))"
| "client_loop st (w # ws) inp cs =
     (let cs1 = c_print [prompt] cs
      in if 20 \<le> length w then Inl Buffer_Overflow
         else if w = ''exit'' then Inr (Exited (c_send (set_type ''!exit'' (c_send0 st)) cs1))
         else if w = ''pull'' then
           (case print_board st inp cs1 of
              Inl e \<Rightarrow> Inl e
            | Inr (None, cs2) \<Rightarrow> Inr (Blocked cs2)
            | Inr (Some inp', cs2) \<Rightarrow> client_loop st ws inp' cs2)
         else if w = ''post'' then
           (let send = set_type ''!post'' (c_send0 st); cs2 = c_send send cs1
            in case inp of
                 [] \<Rightarrow> Inr (Blocked cs2)
               | receive # inp' \<Rightarrow>
                   if type_is ''!full'' receive
                   then client_loop st ws inp'
                          (c_print [''[Error] Maximum posting limit exceeded''] cs2)
                   else
                     (let msg = bytes_message (peek 0 sizeof_message (io_buf receive));
                          cs3 = c_print [''FROM: ''] cs2; cs4 = c_print [''CONTENT:''] cs3
                      in case ws of
                           [] \<Rightarrow> Inr (Blocked cs3)
                         | [from] \<Rightarrow>
                             (case scanf_s 0 from (message_bytes msg) of
                                Inl e \<Rightarrow> Inl e
                              | Inr mem \<Rightarrow> Inr (Blocked cs4))
                         | from # content # ws' \<Rightarrow>
                             (case fill_message from content msg of
                                Inl e \<Rightarrow> Inl e
                              | Inr mem \<Rightarrow> client_loop st ws' inp' (c_send (finish_io send mem) cs4))))
         else client_loop st ws inp cs1)"

text \<open>\<open>main\<close> of the client after \<open>init_client\<close>: the banner, the board, the loop.\<close>

definition client_main ::
  "client_stack \<Rightarrow> string list \<Rightarrow> io list \<Rightarrow> client_outcome result" where
  "client_main st ws inp =
     (let cs = c_print [rule_line, ''Welcome to CSIE Bulletin board''] \<lparr>c_out = [], c_stdout = []\<rparr>
      in case print_board st inp cs of
           Inl e \<Rightarrow> Inl e
         | Inr (None, cs1) \<Rightarrow> Inr (Blocked cs1)
         | Inr (Some inp', cs1) \<Rightarrow> client_loop st ws inp' cs1)"

section \<open>What is printed of a record\<close>

lemma print_s_word: "is_word w \<Longrightarrow> print_s (w @ NUL # mem) = Inr w"
  by (simp add: print_s_def)

lemma in_take_NUL: "0 < n \<Longrightarrow> NUL \<in> set (take n (NUL # mem))"
  by (simp add: take_Cons')

lemma show_record_eq:
  "show_record r =
     (if NUL \<in> set (Content r)
      then Inr [''FROM: '' @ cstr (record_bytes r), ''CONTENT:'', cstr (Content r)]
      else Inl Buffer_Overread)"
  by (auto simp: show_record_def print_s_def record_bytes_def)

section \<open>What the server finds in the message\<close>

lemma fill_message_ok:
  assumes "wf_message m" and "length frm \<le> 31" and "length content \<le> 26"
  shows "fill_message frm content m =
    Inr (poke 5 (content @ [NUL]) (poke 0 (frm @ [NUL]) (message_bytes m)))"
  using assms by (simp add: fill_message_def scanf_s_def length_message_bytes length_poke)

lemma fill_message_overflow:
  assumes "wf_message m" and "31 < length frm \<or> 26 < length content"
  shows "fill_message frm content m = Inl Buffer_Overflow"
  using assms by (auto simp: fill_message_def scanf_s_def length_message_bytes length_poke)

lemma poke_beyond_poke:
  assumes "length mem = 32" and "length a \<le> 5" and "5 + length b \<le> 32"
  shows "poke 5 b (poke 0 a mem) = a @ take (5 - length a) (drop (length a) mem) @ b @ drop (5 + length b) mem"
  using assms by (simp add: poke_def drop_take)

lemma fill_message_fits:
  assumes m: "wf_message m" and frm: "is_word frm" "length frm \<le> 4"
    and content: "is_word content" "length content \<le> 19"
    and run: "fill_message frm content m = Inr mem"
  defines "m' \<equiv> bytes_message mem"
  shows "length mem = 32 \<and> cstr mem = frm \<and> pos m' = pos m \<and> wf_message m' \<and>
    show_record (rd m') = Inr [''FROM: '' @ frm, ''CONTENT:'', content]"
proof -
  let ?mb = "message_bytes m"
  have len: "length ?mb = 32" using m by (rule length_message_bytes)
  have mem: "mem = poke 5 (content @ [NUL]) (poke 0 (frm @ [NUL]) ?mb)"
    using fill_message_ok [OF m, of frm content] frm(2) content(2) run by simp
  have lmem: "length mem = 32"
    using len frm content by (simp add: mem length_poke)
  have "peek 28 4 mem = peek 28 4 ?mb"
    using len frm content by (simp add: mem peek_poke_after length_poke)
  also have "\<dots> = encode_int (pos m)"
    using m by (simp add: message_bytes_def wf_message_def length_record_bytes peek_def)
  finally have p: "pos m' = pos m"
    using m by (simp add: m'_def bytes_message_def wf_message_def wrap32_id)
  have rb: "record_bytes (rd m') = take 25 mem"
    using lmem by (simp add: m'_def bytes_message_def record_bytes_of_bytes)
  have "mem = (frm @ [NUL]) @ take (4 - length frm) (drop (Suc (length frm)) ?mb) @
      (content @ [NUL]) @ drop (6 + length content) ?mb"
    unfolding mem using len frm content
    by (subst poke_beyond_poke) (simp_all add: numeral_eq_Suc)
  then have "cstr (take 25 mem) = frm" "cstr mem = frm"
    using frm cstr_take_word [of frm 25] by simp_all
  moreover have "drop 5 mem = content @ NUL # drop (6 + length content) ?mb"
    using drop_poke_same [of 5 "poke 0 (frm @ [NUL]) ?mb" "content @ [NUL]"] len frm
    by (simp add: mem length_poke drop_poke_after)
  then have "Content (rd m') = take 20 (content @ NUL # drop (6 + length content) ?mb)"
    by (simp add: m'_def bytes_message_def bytes_record_def peek_def)
  then have "cstr (Content (rd m')) = content" "NUL \<in> set (Content (rd m'))"
    using content by (simp_all add: cstr_take_word in_take_NUL)
  ultimately show ?thesis
    using p rb lmem by (simp add: m'_def wf_bytes_message show_record_eq)
qed

text \<open>A name of five or more characters loses its end to the text, whose first character lands on
  the name's sixth: the name is then shown with the text attached to it.\<close>

lemma fill_message_long_from:
  assumes m: "wf_message m" and frm: "is_word frm" "5 \<le> length frm"
    and content: "is_word content" "length content \<le> 19"
    and run: "fill_message frm content m = Inr mem"
  shows "show_record (rd (bytes_message mem)) = Inr [''FROM: '' @ take 5 frm @ content, ''CONTENT:'', content]"
proof -
  let ?mb = "message_bytes m"
  have len: "length ?mb = 32" using m by (rule length_message_bytes)
  have f31: "length frm \<le> 31"
    using run m fill_message_overflow [of m frm content] by (metis not_le sum.distinct(1))
  then have mem: "mem = poke 5 (content @ [NUL]) (poke 0 (frm @ [NUL]) ?mb)"
    using fill_message_ok [OF m, of frm content] content(2) run by simp
  have lmem: "length mem = 32"
    using len f31 content by (simp add: mem length_poke)
  have "take 5 mem = take 5 frm"
    using len f31 frm by (simp add: mem take_poke_before length_poke) (simp add: poke_def)
  moreover have "drop 5 mem = content @ NUL # drop (6 + length content) (poke 0 (frm @ [NUL]) ?mb)"
    using drop_poke_same [of 5 "poke 0 (frm @ [NUL]) ?mb" "content @ [NUL]"] len f31
    by (simp add: mem length_poke)
  note d5 = this
  from \<open>take 5 mem = take 5 frm\<close> d5
  have "mem = take 5 frm @ content @ NUL # drop (6 + length content) (poke 0 (frm @ [NUL]) ?mb)"
    by (metis append_take_drop_id)
  then have "take 25 mem = take 5 frm @ take 20 (content @ NUL # drop (6 + length content) (poke 0 (frm @ [NUL]) ?mb))"
    using frm by simp
  moreover have "is_word (take 5 frm)"
    using frm(1) by (auto simp: is_word_def dest: in_set_takeD)
  ultimately have "cstr (record_bytes (rd (bytes_message mem))) = take 5 frm @ content"
    using lmem content by (simp add: bytes_message_def record_bytes_of_bytes cstr_take_word)
  moreover have "Content (rd (bytes_message mem)) =
      take 20 (content @ NUL # drop (6 + length content) (poke 0 (frm @ [NUL]) ?mb))"
    by (simp add: bytes_message_def bytes_record_def peek_def d5)
  ultimately show ?thesis using content by (simp add: show_record_eq cstr_take_word in_take_NUL)
qed

text \<open>A text of 23 characters puts its terminating zero on the low byte of the slot number.\<close>

lemma fill_message_slot_lost:
  assumes m: "wf_message m" "0 \<le> pos m" "pos m < 256" and frm: "length frm \<le> 4"
    and content: "length content = 23"
    and run: "fill_message frm content m = Inr mem"
  shows "pos (bytes_message mem) = 0"
proof -
  let ?mb = "message_bytes m"
  have len: "length ?mb = 32" using m(1) by (rule length_message_bytes)
  have "mem = poke 5 (content @ [NUL]) (poke 0 (frm @ [NUL]) ?mb)"
    using fill_message_ok [OF m(1), of frm content] frm content run by simp
  then have d5: "drop 5 mem = content @ NUL # drop 29 (poke 0 (frm @ [NUL]) ?mb)"
    using drop_poke_same [of 5 "poke 0 (frm @ [NUL]) ?mb" "content @ [NUL]"] len content frm
    by (simp add: length_poke)
  have "drop 28 mem = drop 23 (drop 5 mem)" by simp
  also have "\<dots> = drop 23 (content @ NUL # drop 29 (poke 0 (frm @ [NUL]) ?mb))"
    by (simp only: d5)
  also have "\<dots> = NUL # drop 29 ?mb"
    using content frm len by (simp add: drop_poke_after)
  also have "drop 29 ?mb = [NUL, NUL, NUL]"
    using m by (simp add: message_bytes_def wf_message_def length_record_bytes encode_int_def
        drop_Cons' char_of_def)
  finally show ?thesis
    by (simp add: bytes_message_def peek_def decode_int_def wrap32_def)
qed

end
