(* ===== verification/Bulletin_System.thy ===== *)
theory Bulletin_System
  imports Bulletin_Server_Correct Bulletin_Client
begin

text \<open>
  The bulletin board as a whole, for the theorems that need more than one of its parts: what the
  work of one process leaves of the locks of the others, a post on its way from the client to
  the board, the board on the client's screen, and the cyclic order of the slots.
\<close>

section \<open>One server's work and the locks of the others\<close>

text \<open>The effect of an operation of process \<open>p\<close> on the kernel, as the other processes see it.\<close>

definition kernel_frame :: "nat \<Rightarrow> kernel \<Rightarrow> kernel \<Rightarrow> bool" where
  "kernel_frame p k k' \<longleftrightarrow>
     length (board k) \<le> length (board k') \<and>
     (lock_excl (flocks k) \<longrightarrow> lock_excl (flocks k')) \<and>
     (\<forall>q own. q \<noteq> p \<longrightarrow>
        board_locks.tracks 10 (flocks k') q own = board_locks.tracks 10 (flocks k) q own)"

lemma kernel_frame_refl [simp, intro]: "kernel_frame p k k"
  by (simp add: kernel_frame_def)

lemma kernel_frame_trans: "kernel_frame p a b \<Longrightarrow> kernel_frame p b c \<Longrightarrow> kernel_frame p a c"
  by (auto simp: kernel_frame_def)

lemma slot_acquire_excl: "lock_excl tab \<Longrightarrow> lock_excl (snd (slot_acquire p i tab))"
  and slot_release_excl: "lock_excl tab \<Longrightarrow> lock_excl (snd (slot_release p i tab))"
  by (simp_all add: slot_acquire_def slot_release_def write_lock_def unlock_def lock_reg_excl
      del: write_lock_slot unlock_slot)

lemma handle_finish_frame:
  assumes "handle_finish x s k = Inr (s', k')"
  shows "pid s' = pid s \<and> kernel_frame (pid s) k k'"
proof -
  have "0 \<le> pos (finish_msg x) \<and> pos (finish_msg x) < 10"
    using assms handle_finish_bad by fastforce
  then obtain i where "pos (finish_msg x) = int i" "i < 10"
    by (metis nonneg_int_cases of_nat_less_numeral_iff)
  with assms show ?thesis
    by (auto simp: handle_finish_ok kernel_frame_def slot_release_excl board_locks.tracks_others
        length_file_write)
qed

lemma server_main_init_frame:
  assumes "server_main_init p argv env k = Inr (s, k')"
  shows "pid s = p \<and> flocks k' = flocks k \<and> length (board k) \<le> length (board k')"
  using assms
  by (auto simp: server_main_init_def Let_def length_file_write split: if_splits sum.splits prod.splits)

lemma lock_reg_tracks:
  assumes "p \<noteq> q"
  shows "board_locks.tracks 10 (snd (lock_reg p ty off len tab)) q own = board_locks.tracks 10 tab q own"
proof -
  have "holds (snd (lock_reg p ty off len tab)) q t b = holds tab q t b" for t b
    using assms(1) lock_reg_other_entries [of _ p ty off len tab] by (auto simp: holds_def)
  moreover have "slot_clear (snd (lock_reg p ty off len tab)) q i = slot_clear tab q i" for i
    using assms(1) lock_reg_other_entries [of _ p ty off len tab] by (auto simp: slot_clear_iff)
  ultimately show ?thesis by (simp add: board_locks.tracks_def slot_mine_alt)
qed

lemma slot_mine_unique:
  "lock_excl tab \<Longrightarrow> slot_mine tab p i \<Longrightarrow> slot_mine tab q i \<Longrightarrow> p = q"
  unfolding lock_excl_def slot_mine_alt by (meson dual_order.refl less_add_same_cancel1 zero_less_numeral)

section \<open>A post from the client to the board\<close>

lemma available_io_message:
  assumes "wf_io (send0 st)" and "wf_message (msg0 st)" and "i < 10"
  shows "bytes_message (peek 0 32 (io_buf (available_io st i))) = (msg0 st)\<lparr>pos := int i\<rparr>"
    and "type_is t (available_io st i) \<longleftrightarrow> t = ''!available''"
proof -
  let ?m = "(msg0 st)\<lparr>pos := int i\<rparr>"
  have wf: "wf_message ?m" using assms by (simp add: wf_message_def int32_def)
  then have "peek 0 32 (io_buf (available_io st i)) = message_bytes ?m"
    using assms(1) poke_at_start [of "message_bytes ?m" "io_buf (send0 st)"]
    by (simp add: available_io_def length_message_bytes wf_io_def)
  then show "bytes_message (peek 0 32 (io_buf (available_io st i))) = ?m"
    using bytes_message_bytes [OF wf, of "[]"] by simp
  show "type_is t (available_io st i) \<longleftrightarrow> t = ''!available''"
    by (auto simp: available_io_def type_is_def set_type_def is_word_def)
qed

lemma finish_io_msg:
  assumes "wf_io send" and "length mem = 32"
  shows "finish_msg (finish_io send mem) = bytes_message mem"
    and "peek 0 32 (io_buf (finish_io send mem)) = mem"
    and "type_is t (finish_io send mem) \<longleftrightarrow> t = ''!finish''"
  using assms poke_at_start [of mem "io_buf send"]
  by (auto simp: finish_msg_def finish_io_def wf_io_def is_word_def)

text \<open>The client's side of a post that the server accepted.\<close>

lemma client_posts:
  assumes "wf_message m" "is_word frm" "length frm \<le> 4" "is_word content" "length content \<le> 19"
    and "bytes_message (peek 0 32 (io_buf receive)) = m" and "\<not> type_is ''!full'' receive"
  shows "\<exists>mem cs'. fill_message frm content m = Inr mem \<and>
    client_loop cst [''post'', frm, content] [receive] cs = Inr (Blocked cs') \<and>
    c_out cs' = c_out cs @ [set_type ''!post'' (c_send0 cst),
                            finish_io (set_type ''!post'' (c_send0 cst)) mem]"
proof -
  obtain mem where "fill_message frm content m = Inr mem"
    using fill_message_ok [of m frm content] assms by auto
  with assms show ?thesis by (simp add: Let_def c_send_def c_print_def)
qed

section \<open>The board on the client's screen\<close>

text \<open>A post that ends within its record.\<close>

definition terminated :: "bytes \<Rightarrow> bool" where
  "terminated bs \<longleftrightarrow> NUL \<in> set (Content (bytes_record bs))"

lemma read_board_records:
  assumes "map (\<lambda>x. (cstr (io_type x), peek 0 25 (io_buf x))) xs = map (\<lambda>r. (''!record'', r)) rs"
    and "type_is ''!end'' e" and "\<forall>r \<in> set rs. length r = 25"
  shows "read_board (xs @ e # rest) =
    (if list_all terminated rs
     then Inr (concat (map (\<lambda>r. [''FROM: '' @ cstr r, ''CONTENT:'', cstr (drop FROM_LEN r)]) rs), Some rest)
     else Inl Buffer_Overread)"
  using assms(1,3)
proof (induction xs arbitrary: rs)
  case Nil
  with assms(2) show ?case by simp
next
  case (Cons x xs)
  then obtain r rs' where r: "rs = r # rs'" "cstr (io_type x) = ''!record''" "peek 0 25 (io_buf x) = r"
    "map (\<lambda>x. (cstr (io_type x), peek 0 25 (io_buf x))) xs = map (\<lambda>r. (''!record'', r)) rs'" "length r = 25"
    by (cases rs) auto
  have "record_bytes (bytes_record r) = r" "Content (bytes_record r) = drop 5 r"
    using record_bytes_of_bytes [of r] r(5) by (simp_all add: bytes_record_def peek_def)
  with r Cons.IH [of rs'] Cons.prems(2) show ?case
    by (auto simp: type_is_def show_record_eq terminated_def)
qed

section \<open>Cyclic order\<close>

lemma length_cyclic [simp]: "length (cyclic n i) = n"
  by (induction n arbitrary: i) auto

lemma nth_cyclic: "i < 10 \<Longrightarrow> j < n \<Longrightarrow> cyclic n i ! j = (i + j) mod 10"
proof (induction n arbitrary: i j)
  case (Suc n)
  show ?case
  proof (cases j)
    case (Suc j')
    with Suc.IH [of "Suc i mod 10" j'] Suc.prems show ?thesis by (simp add: mod_simps)
  qed (use Suc.prems in simp)
qed simp

lemma next_free_cyclic:
  assumes "0 \<le> lastpos s" and "next_free s tab = Some i"
  shows "\<exists>d < 10. int i = (lastpos s + 1 + int d) mod 10 \<and> slot_free s tab i \<and>
    (\<forall>e < d. \<not> slot_free s tab (nat ((lastpos s + 1 + int e) mod 10)))"
proof -
  let ?j = "Suc (nat (lastpos s)) mod 10"
  have pos: "(?j + e) mod 10 = nat ((lastpos s + 1 + int e) mod 10)" for e
    using assms(1) by (simp add: nat_mod_distrib nat_add_distrib mod_simps add.commute)
  from assms(2) obtain d where d: "d < 10" "i = (?j + d) mod 10" "slot_free s tab i"
      "\<forall>e < d. \<not> slot_free s tab ((?j + e) mod 10)"
    by (auto simp: next_free_def find_Some_iff nth_cyclic)
  from d(2) have "int i = (lastpos s + 1 + int d) mod 10"
    unfolding pos by simp
  with d show ?thesis unfolding pos by blast
qed

end
