(* ===== verification/Bulletin_Races.thy ===== *)
theory Bulletin_Races
  imports Bulletin_System
begin

text \<open>
  Several servers on one board, interleaved at the single calls of \<open>fcntl\<close>. The handlers of \<open>!post\<close> and
  \<open>!pull\<close> make many lock calls; here each is a step of its own (\<open>advance\<close>), with the place in the
  handler as a program counter, and any other process may come in between. Run without interruption
  the steps of a request are the handler of \<open>Bulletin_Server\<close> (\<open>request_runs\<close>). What the code does not
  keep, the answer to the second \<open>write_lock\<close> of a post, is recorded in \<open>refused\<close>.
\<close>

section \<open>A server between two lock calls\<close>

text \<open>\<open>Find n index c\<close>: in the loop of \<open>find_available\<close> with \<open>n\<close> rounds to go; \<open>Probed\<close>: after a
  \<open>write_lock\<close> there that succeeded; \<open>Reply tmp c\<close>: \<open>find_available\<close> has returned \<open>tmp\<close>; \<open>Pull\<close> and
  \<open>Pull_Probed\<close>: the same two places in the loop of \<open>!pull\<close>, with its local variables.\<close>

datatype server_pc =
    Idle
  | Find nat nat int
  | Probed nat int
  | Reply int int
  | Pull "nat list" int nat io
  | Pull_Probed nat "nat list" int nat io

record busy_server =
  srv :: server_state
  spc :: server_pc
  refused :: "nat set"

text \<open>The request of an idle server, up to its first lock call; \<open>!finish\<close> makes just one.\<close>

definition begin_request ::
  "stack \<Rightarrow> nat \<Rightarrow> io \<Rightarrow> busy_server \<Rightarrow> kernel \<Rightarrow> (busy_server \<times> kernel) result" where
  "begin_request st i receive f k =
     (let s = srv f; c = fds s ! i
      in if type_is ''!post'' receive
         then Inr (f\<lparr>spc := Find RECORD_NUM (nat ((lastpos s + 1) mod int RECORD_NUM)) c\<rparr>, k)
         else if type_is ''!exit'' receive then Inr (f\<lparr>srv := handle_exit i c s\<rparr>, k)
         else if type_is ''!pull'' receive
         then Inr (f\<lparr>srv := s\<lparr>bulletinbuf := poke 0 (file_read 0 (RECORD_NUM * sizeof_record) (board k))
                                        (bulletinbuf s)\<rparr>,
                     spc := Pull [0..<RECORD_NUM] c 0 (send0 st)\<rparr>, k)
         else if type_is ''!finish'' receive
         then (case handle_finish receive s k of
                 Inl e \<Rightarrow> Inl e
               | Inr (s', k') \<Rightarrow> Inr (f\<lparr>srv := s', refused := refused f - {nat (pos (finish_msg receive))}\<rparr>, k'))
         else Inr (f, k))"

text \<open>From one lock call of a request to the next.\<close>

definition lock_at :: "busy_server \<Rightarrow> nat \<Rightarrow> kernel \<Rightarrow> int \<times> kernel" where
  "lock_at f i k =
     (case write_lock (pid (srv f)) (int i * int sizeof_record) (int sizeof_record) (flocks k) of
        (r, tab) \<Rightarrow> (r, k\<lparr>flocks := tab\<rparr>))"

definition unlock_at :: "busy_server \<Rightarrow> nat \<Rightarrow> kernel \<Rightarrow> kernel" where
  "unlock_at f i k =
     k\<lparr>flocks := snd (unlock (pid (srv f)) (int i * int sizeof_record) (int sizeof_record) (flocks k))\<rparr>"

definition find_next :: "nat \<Rightarrow> nat \<Rightarrow> int \<Rightarrow> server_pc" where
  "find_next n index c = Find n ((index + 1) mod RECORD_NUM) c"

definition show_slot :: "nat \<Rightarrow> nat list \<Rightarrow> int \<Rightarrow> nat \<Rightarrow> io \<Rightarrow> busy_server \<Rightarrow> busy_server" where
  "show_slot i is c num_locked send f =
     (if cstr (drop (i * sizeof_record) (bulletinbuf (srv f))) \<noteq> []
      then
        (let send1 = set_type ''!record''
               (send\<lparr>io_buf := poke 0 (slot_bytes i (bulletinbuf (srv f))) (io_buf send),
                     io_size := int sizeof_record\<rparr>)
         in f\<lparr>srv := send_io c send1 (srv f), spc := Pull is c num_locked send1\<rparr>)
      else f\<lparr>spc := Pull is c num_locked send\<rparr>)"

definition pull_end :: "int \<Rightarrow> nat \<Rightarrow> io \<Rightarrow> busy_server \<Rightarrow> busy_server" where
  "pull_end c num_locked send f =
     (let s1 = send_io c (set_type ''!end'' (send\<lparr>io_size := 0\<rparr>)) (srv f);
          s2 = (if 0 < num_locked
                then s1\<lparr>stdout := stdout s1 @
                       [''[Warning] Try to access locked post - '' @ show_nat num_locked]\<rparr>
                else s1)
      in f\<lparr>srv := s2, spc := Idle\<rparr>)"

definition reply_step :: "stack \<Rightarrow> int \<Rightarrow> int \<Rightarrow> busy_server \<times> kernel \<Rightarrow> busy_server \<times> kernel" where
  "reply_step st tmp c = (\<lambda>(f, k).
     (case post_reply st c tmp (srv f) k of
        (s', k') \<Rightarrow>
          (f\<lparr>srv := s', spc := Idle,
             refused := (if tmp = - 1 then refused f
                         else if fst (lock_at f (nat tmp) k) = - 1 then insert (nat tmp) (refused f)
                         else refused f - {nat tmp})\<rparr>, k')))"

fun advance :: "stack \<Rightarrow> busy_server \<times> kernel \<Rightarrow> busy_server \<times> kernel" where
  "advance st (f, k) =
     (case spc f of
        Idle \<Rightarrow> (f, k)
      | Find n index c \<Rightarrow>
          (case n of
             0 \<Rightarrow> (f\<lparr>spc := Reply (- 1) c\<rparr>, k)
           | Suc m \<Rightarrow>
               if locked (srv f) ! index = 1 then (f\<lparr>spc := find_next m index c\<rparr>, k)
               else (case lock_at f index k of
                       (r, k1) \<Rightarrow>
                         if r \<noteq> - 1 then (f\<lparr>spc := Probed index c\<rparr>, k1)
                         else (f\<lparr>spc := find_next m index c\<rparr>, k1)))
      | Probed index c \<Rightarrow> (f\<lparr>spc := Reply (int index) c\<rparr>, unlock_at f index k)
      | Reply tmp c \<Rightarrow> reply_step st tmp c (f, k)
      | Pull [] c n send \<Rightarrow> (pull_end c n send f, k)
      | Pull (i # is) c n send \<Rightarrow>
          if locked (srv f) ! i = 1 then (f\<lparr>spc := Pull is c (n + 1) send\<rparr>, k)
          else (case lock_at f i k of
                  (r, k1) \<Rightarrow>
                    if r = - 1 then (f\<lparr>spc := Pull is c (n + 1) send\<rparr>, k1)
                    else (f\<lparr>spc := Pull_Probed i is c n send\<rparr>, k1))
      | Pull_Probed i is c n send \<Rightarrow> (show_slot i is c n send f, unlock_at f i k))"

declare advance.simps [simp del]

section \<open>Several servers\<close>

record race_sys =
  servers :: "busy_server list"
  kern :: kernel

text \<open>Servers start, accept connections, begin requests when idle and go on with them; a process that
  is not a server may lock any range.\<close>

inductive race_step :: "race_sys \<Rightarrow> race_sys \<Rightarrow> bool" where
  start: "\<lbrakk>p \<notin> pid ` srv ` set (servers g); \<forall>i < RECORD_NUM. slot_clear (flocks (kern g)) p i;
           server_main_init p argv env (kern g) = Inr (s', k')\<rbrakk>
          \<Longrightarrow> race_step g (g\<lparr>servers := servers g @ [\<lparr>srv = s', spc = Idle, refused = {}\<rparr>], kern := k'\<rparr>)"
| accept: "\<lbrakk>servers g = us @ f # vs; spc f = Idle\<rbrakk>
          \<Longrightarrow> race_step g (g\<lparr>servers := us @ f\<lparr>srv := accept_request c h (srv f)\<rparr> # vs\<rparr>)"
| request: "\<lbrakk>servers g = us @ f # vs; spc f = Idle; begin_request st i x f (kern g) = Inr (f', k')\<rbrakk>
          \<Longrightarrow> race_step g (g\<lparr>servers := us @ f' # vs, kern := k'\<rparr>)"
| lock_call: "\<lbrakk>servers g = us @ f # vs; advance st (f, kern g) = (f', k')\<rbrakk>
          \<Longrightarrow> race_step g (g\<lparr>servers := us @ f' # vs, kern := k'\<rparr>)"
| foreign: "\<lbrakk>p \<notin> pid ` srv ` set (servers g); 0 < len;
             k' = (kern g)\<lparr>flocks := snd (lock_reg p ty off len (flocks (kern g)))\<rparr>\<rbrakk>
          \<Longrightarrow> race_step g (g\<lparr>kern := k'\<rparr>)"

definition race_init :: "race_sys \<Rightarrow> bool" where
  "race_init g \<longleftrightarrow> servers g = [] \<and> flocks (kern g) = []"

section \<open>A request that is not interrupted\<close>

definition runs_to :: "stack \<Rightarrow> busy_server \<times> kernel \<Rightarrow> busy_server \<times> kernel \<Rightarrow> bool" where
  "runs_to st x y \<longleftrightarrow> (\<exists>m. (advance st ^^ m) x = y)"

lemma runs_refl [intro, simp]: "runs_to st x x"
  by (auto simp: runs_to_def intro: exI [of _ 0])

lemma runs_to_step: "runs_to st (advance st x) y \<Longrightarrow> runs_to st x y"
  unfolding runs_to_def by (metis funpow_Suc_right comp_apply)

lemma runs_trans: "runs_to st x y \<Longrightarrow> runs_to st y z \<Longrightarrow> runs_to st x z"
  unfolding runs_to_def by (metis funpow_add comp_apply)

lemma runs_last: "runs_to st x y \<Longrightarrow> advance st y = z \<Longrightarrow> runs_to st x z"
  using runs_trans [OF _ runs_to_step [OF runs_refl]] by blast

lemma same_locks [simp]: "k\<lparr>flocks := flocks k\<rparr> = k"
  and same_srv [simp]: "f\<lparr>srv := srv f, spc := x\<rparr> = f\<lparr>spc := x\<rparr>"
  by simp_all

lemmas slot_calls = lock_at_def unlock_at_def

lemma find_runs:
  "i < RECORD_NUM \<Longrightarrow> find_loop n (int i) (srv f) (flocks k) = (r, tab) \<Longrightarrow>
   runs_to st (f\<lparr>spc := Find n i c\<rparr>, k) (f\<lparr>spc := Reply r c\<rparr>, k\<lparr>flocks := tab\<rparr>)"
proof (induction n arbitrary: i k)
  case 0
  then show ?case by - (rule runs_to_step, auto simp: advance.simps)
next
  case (Suc n)
  obtain q t where q: "slot_acquire (pid (srv f)) i (flocks k) = (q, t)" by fastforce
  note IH = Suc.IH [of "Suc i mod 10", simplified, folded next_index]
  consider "locked (srv f) ! i = 1" | "locked (srv f) ! i \<noteq> 1" "q \<noteq> - 1"
    | "locked (srv f) ! i \<noteq> 1" "q = - 1" by blast
  then show ?case
  proof cases
    case 1
    with Suc.prems IH [of k] show ?thesis
      by - (rule runs_to_step, simp add: advance.simps find_next_def)
  next
    case 2
    with Suc.prems q have "r = int i" "tab = snd (slot_release (pid (srv f)) i t)" by auto
    with 2 q show ?thesis
      by - (rule runs_to_step, simp add: advance.simps slot_calls, rule runs_to_step,
        simp add: advance.simps slot_calls)
  next
    case 3
    with Suc.prems q IH [of "k\<lparr>flocks := t\<rparr>"] show ?thesis
      by - (rule runs_to_step, simp add: advance.simps find_next_def slot_calls)
  qed
qed

lemma pull_runs:
  "pull_loop is c n send (srv f) (flocks k) = (n', send', s', tab) \<Longrightarrow>
   runs_to st (f\<lparr>spc := Pull is c n send\<rparr>, k) (f\<lparr>srv := s', spc := Pull [] c n' send'\<rparr>, k\<lparr>flocks := tab\<rparr>)"
proof (induction "is" arbitrary: n send f k)
  case Nil
  then show ?case by auto
next
  case (Cons i "is")
  obtain q t where q: "slot_acquire (pid (srv f)) i (flocks k) = (q, t)" by fastforce
  consider "locked (srv f) ! i = 1" | "locked (srv f) ! i \<noteq> 1" "q \<noteq> - 1"
    | "locked (srv f) ! i \<noteq> 1" "q = - 1" by blast
  then show ?case
  proof cases
    case 1
    with Cons.prems Cons.IH [of "n + 1" send f k] show ?thesis
      by - (rule runs_to_step, simp add: advance.simps)
  next
    case 2
    let ?k = "k\<lparr>flocks := snd (slot_release (pid (srv f)) i t)\<rparr>"
    obtain f' send1 where f': "show_slot i is c n send f = f'\<lparr>spc := Pull is c n send1\<rparr>"
      "refused f' = refused f"
      "pull_loop is c n send1 (srv f') (flocks ?k) = (n', send', s', tab)"
      using 2 Cons.prems q by (auto simp: show_slot_def Let_def split: if_splits)
    have "f'\<lparr>srv := s', spc := Pull [] c n' send'\<rparr> = f\<lparr>srv := s', spc := Pull [] c n' send'\<rparr>"
      using f'(2) by simp
    moreover have "show_slot i is c n send (f\<lparr>spc := Pull_Probed i is c n send\<rparr>) = f'\<lparr>spc := Pull is c n send1\<rparr>"
      using f'(1) by (auto simp: show_slot_def Let_def)
    ultimately show ?thesis using 2 q Cons.IH [OF f'(3)]
      by - (rule runs_to_step, simp add: advance.simps slot_calls, rule runs_to_step,
        simp add: advance.simps slot_calls)
  next
    case 3
    with Cons.prems q Cons.IH [of "n + 1" send f "k\<lparr>flocks := t\<rparr>"] show ?thesis
      by - (rule runs_to_step, simp add: advance.simps slot_calls)
  qed
qed

lemma pull_runs':
  assumes "pull_loop is c n send s (flocks k) = (n', send', s', tab)"
  shows "runs_to st (f\<lparr>srv := s, spc := Pull is c n send\<rparr>, k)
    (f\<lparr>srv := s', spc := Pull [] c n' send'\<rparr>, k\<lparr>flocks := tab\<rparr>)"
  using pull_runs [where f = "f\<lparr>srv := s\<rparr>" and st = st] assms by simp

lemma post_runs:
  assumes "0 \<le> lastpos (srv f)"
  shows "\<exists>f'. runs_to st (f\<lparr>spc := Find RECORD_NUM (nat ((lastpos (srv f) + 1) mod 10)) c\<rparr>, k)
              (f', snd (handle_post st c (srv f) k)) \<and>
    srv f' = fst (handle_post st c (srv f) k) \<and> spc f' = Idle"
proof -
  obtain r tab where r: "find_loop RECORD_NUM ((lastpos (srv f) + 1) mod 10) (srv f) (flocks k) = (r, tab)"
    by fastforce
  have "runs_to st (f\<lparr>spc := Find RECORD_NUM (nat ((lastpos (srv f) + 1) mod 10)) c\<rparr>, k)
     (f\<lparr>spc := Reply r c\<rparr>, k\<lparr>flocks := tab\<rparr>)"
    by (rule find_runs) (use r in simp_all)
  moreover obtain f' where "advance st (f\<lparr>spc := Reply r c\<rparr>, k\<lparr>flocks := tab\<rparr>) =
      (f', snd (handle_post st c (srv f) k))" "srv f' = fst (handle_post st c (srv f) k)" "spc f' = Idle"
    using r by (auto simp: advance.simps reply_step_def handle_post_def post_find_def find_available_def
        case_prod_beta)
  ultimately show ?thesis using runs_last by blast
qed

text \<open>The steps of a request, one after the other, are the handler.\<close>

lemma request_runs:
  assumes "handle_request st i x (srv f) k = Inr (s', k')" and "0 \<le> lastpos (srv f)" and "spc f = Idle"
  shows "\<exists>f1 k1 f'. begin_request st i x f k = Inr (f1, k1) \<and> runs_to st (f1, k1) (f', k') \<and>
    srv f' = s' \<and> spc f' = Idle"
proof -
  let ?c = "fds (srv f) ! i"
  let ?s = "srv f\<lparr>bulletinbuf := poke 0 (file_read 0 250 (board k)) (bulletinbuf (srv f))\<rparr>"
  obtain n send s2 tab where l:
    "pull_loop [0..<10] ?c 0 (send0 st) ?s (flocks k) = (n, send, s2, tab)" by (metis prod_cases4)
  let ?e = "pull_end ?c n send (f\<lparr>srv := s2, spc := Pull [] ?c n send\<rparr>)"
  have "srv ?e = fst (handle_pull st ?c (srv f) k)" "spc ?e = Idle"
    "k\<lparr>flocks := tab\<rparr> = snd (handle_pull st ?c (srv f) k)"
    using l by (simp_all add: handle_pull_def Let_def pull_end_def)
  moreover have "runs_to st (f\<lparr>srv := ?s, spc := Pull [0..<10] ?c 0 (send0 st)\<rparr>, k)
      (f\<lparr>srv := s2, spc := Pull [] ?c n send\<rparr>, k\<lparr>flocks := tab\<rparr>)"
    by (rule pull_runs' [OF l])
  then have "runs_to st (f\<lparr>srv := ?s, spc := Pull [0..<10] ?c 0 (send0 st)\<rparr>, k) (?e, k\<lparr>flocks := tab\<rparr>)"
    by (rule runs_last) (simp add: advance.simps)
  ultimately have pull: "\<exists>f'. runs_to st (f\<lparr>srv := ?s, spc := Pull [0..<10] ?c 0 (send0 st)\<rparr>, k)
      (f', snd (handle_pull st ?c (srv f) k)) \<and> srv f' = fst (handle_pull st ?c (srv f) k) \<and> spc f' = Idle"
    by metis
  show ?thesis
    using assms pull post_runs [OF assms(2), of st ?c k]
    by (auto simp: begin_request_def handle_request_def Let_def split: if_splits sum.splits)
qed

section \<open>What a server holds\<close>

text \<open>The slots whose write lock a server has: those it has handed out, but for the ones it was
  refused, and the one it is trying.\<close>

fun probing :: "server_pc \<Rightarrow> nat \<Rightarrow> bool" where
  "probing (Probed j c) i \<longleftrightarrow> i = j"
| "probing (Pull_Probed j is c n send) i \<longleftrightarrow> i = j"
| "probing _ i \<longleftrightarrow> False"

definition owns :: "busy_server \<Rightarrow> nat \<Rightarrow> bool" where
  "owns f i \<longleftrightarrow> locked (srv f) ! i = 1 \<and> i \<notin> refused f \<or> probing (spc f) i"

text \<open>The slots named by the place in the handler exist, and one that is being tried or about to be
  handed out is not marked.\<close>

fun place_ok :: "int list \<Rightarrow> server_pc \<Rightarrow> bool" where
  "place_ok l Idle \<longleftrightarrow> True"
| "place_ok l (Find n i c) \<longleftrightarrow> i < RECORD_NUM"
| "place_ok l (Probed i c) \<longleftrightarrow> i < RECORD_NUM \<and> l ! i \<noteq> 1"
| "place_ok l (Reply r c) \<longleftrightarrow> r = - 1 \<or> 0 \<le> r \<and> r < int RECORD_NUM \<and> l ! nat r \<noteq> 1"
| "place_ok l (Pull is c n send) \<longleftrightarrow> list_all (\<lambda>i. i < RECORD_NUM) is"
| "place_ok l (Pull_Probed i is c n send) \<longleftrightarrow> list_all (\<lambda>i. i < RECORD_NUM) (i # is) \<and> l ! i \<noteq> 1"

definition busy_inv :: "busy_server \<Rightarrow> lock_table \<Rightarrow> bool" where
  "busy_inv f tab \<longleftrightarrow>
     length (locked (srv f)) = RECORD_NUM \<and> place_ok (locked (srv f)) (spc f) \<and>
     board_locks.tracks RECORD_NUM tab (pid (srv f)) (owns f)"

definition race_inv :: "race_sys \<Rightarrow> bool" where
  "race_inv g \<longleftrightarrow>
     distinct (map (pid \<circ> srv) (servers g)) \<and> lock_excl (flocks (kern g)) \<and>
     (\<forall>f \<in> set (servers g). busy_inv f (flocks (kern g)))"

text \<open>A step of one server: its own invariant, and what the others see of it.\<close>

definition good_step :: "busy_server \<Rightarrow> kernel \<Rightarrow> busy_server \<Rightarrow> kernel \<Rightarrow> bool" where
  "good_step f k f' k' \<longleftrightarrow>
     busy_inv f' (flocks k') \<and> pid (srv f') = pid (srv f) \<and> kernel_frame (pid (srv f)) k k'"

lemma acquire_frame_kernel: "kernel_frame p k (k\<lparr>flocks := snd (slot_acquire p i (flocks k))\<rparr>)"
  and release_frame_kernel: "kernel_frame p k (k\<lparr>flocks := snd (slot_release p i (flocks k))\<rparr>)"
  by (auto simp: kernel_frame_def slot_acquire_excl slot_release_excl board_locks.tracks_others)

text \<open>The three effects a step can have on the locks of its server.\<close>

lemma good_still:
  assumes "busy_inv f (flocks k)" and "locked (srv f') = locked (srv f)" "pid (srv f') = pid (srv f)"
    and "refused f' = refused f" and "\<forall>i. probing (spc f') i = probing (spc f) i"
    and "place_ok (locked (srv f)) (spc f')"
  shows "good_step f k f' k"
proof -
  have "owns f' = owns f" using assms by (simp add: owns_def fun_eq_iff)
  with assms show ?thesis by (simp add: good_step_def busy_inv_def)
qed

lemma good_acquire:
  assumes "busy_inv f (flocks k)" and "\<not> slot_busy (flocks k) (pid (srv f)) i"
    and "pid (srv f') = pid (srv f)" "length (locked (srv f')) = RECORD_NUM"
    and "owns f' = (owns f)(i := True)" and "place_ok (locked (srv f')) (spc f')"
  shows "good_step f k f' (k\<lparr>flocks := snd (slot_acquire (pid (srv f)) i (flocks k))\<rparr>)"
  using assms
  by (auto simp: good_step_def busy_inv_def acquire_frame_kernel intro: board_locks.tracks_acquire)

lemma good_release:
  assumes "busy_inv f (flocks k)"
    and "pid (srv f') = pid (srv f)" "length (locked (srv f')) = RECORD_NUM"
    and "owns f' = (owns f)(i := False)" and "place_ok (locked (srv f')) (spc f')"
  shows "good_step f k f' (k\<lparr>flocks := snd (slot_release (pid (srv f)) i (flocks k))\<rparr>)"
  using assms
  by (auto simp: good_step_def busy_inv_def release_frame_kernel intro: board_locks.tracks_release)

lemma lock_at_cases:
  obtains "slot_busy (flocks k) (pid (srv f)) i" "lock_at f i k = (- 1, k)"
  | r where "\<not> slot_busy (flocks k) (pid (srv f)) i" "r \<noteq> - 1"
      "lock_at f i k = (r, k\<lparr>flocks := snd (slot_acquire (pid (srv f)) i (flocks k))\<rparr>)"
proof (cases "slot_busy (flocks k) (pid (srv f)) i")
  case True
  then show ?thesis using that(1) by (simp add: lock_at_def board_locks.probe_refused)
next
  case False
  then have "fst (slot_acquire (pid (srv f)) i (flocks k)) \<noteq> - 1"
    by (simp only: board_locks.acquire_iff not_False_eq_True)
  with False show ?thesis by (intro that(2)) (auto simp: lock_at_def case_prod_beta)
qed

section \<open>Every step keeps the invariant\<close>

lemma find_good:
  assumes inv: "busy_inv f (flocks k)" and pl: "spc f = Find n i c" and step: "advance st (f, k) = (f', k')"
  shows "good_step f k f' k'"
proof (cases n)
  case 0
  with inv pl step show ?thesis by (auto simp: advance.simps intro!: good_still)
next
  case (Suc m)
  have i: "i < 10" using inv pl by (simp add: busy_inv_def)
  show ?thesis
  proof (cases "locked (srv f) ! i = 1")
    case True
    with inv Suc pl step show ?thesis
      by (auto simp: advance.simps find_next_def intro!: good_still)
  next
    case free: False
    show ?thesis
    proof (cases rule: lock_at_cases [of k f i])
      case 1
      with inv free Suc pl step show ?thesis
        by (auto simp: advance.simps find_next_def intro!: good_still)
    next
      case (2 r)
      with free Suc pl step have "f' = f\<lparr>spc := Probed i c\<rparr>"
        "k' = k\<lparr>flocks := snd (slot_acquire (pid (srv f)) i (flocks k))\<rparr>"
        by (auto simp: advance.simps)
      with 2 i free pl inv show ?thesis
        by (auto simp: owns_def fun_eq_iff busy_inv_def intro!: good_acquire [OF inv])
    qed
  qed
qed

lemma pull_good:
  assumes inv: "busy_inv f (flocks k)" and pl: "spc f = Pull is c n send"
    and step: "advance st (f, k) = (f', k')"
  shows "good_step f k f' k'"
proof (cases "is")
  case Nil
  with inv pl step show ?thesis
    by (auto simp: advance.simps pull_end_def Let_def intro!: good_still)
next
  case (Cons i js)
  have i: "i < 10" "list_all (\<lambda>i. i < 10) js" using inv pl Cons by (simp_all add: busy_inv_def)
  show ?thesis
  proof (cases "locked (srv f) ! i = 1")
    case True
    with inv Cons pl step i show ?thesis
      by (auto simp: advance.simps intro!: good_still)
  next
    case free: False
    show ?thesis
    proof (cases rule: lock_at_cases [of k f i])
      case 1
      with inv free Cons pl step i show ?thesis
        by (auto simp: advance.simps intro!: good_still)
    next
      case (2 r)
      with free Cons pl step have "f' = f\<lparr>spc := Pull_Probed i js c n send\<rparr>"
        "k' = k\<lparr>flocks := snd (slot_acquire (pid (srv f)) i (flocks k))\<rparr>"
        by (auto simp: advance.simps)
      with 2 i free pl inv show ?thesis
        by (auto simp: owns_def fun_eq_iff busy_inv_def intro!: good_acquire [OF inv])
    qed
  qed
qed

lemma probed_good:
  assumes inv: "busy_inv f (flocks k)" and pl: "spc f = Probed i c \<or> spc f = Pull_Probed i is c n send"
    and step: "advance st (f, k) = (f', k')"
  shows "good_step f k f' k'"
proof -
  have "k' = k\<lparr>flocks := snd (slot_release (pid (srv f)) i (flocks k))\<rparr>"
    "locked (srv f') = locked (srv f)" "pid (srv f') = pid (srv f)" "refused f' = refused f"
    "\<not> probing (spc f') j" "place_ok (locked (srv f)) (spc f')" for j
    using pl step inv
    by (auto simp: advance.simps unlock_at_def show_slot_def Let_def busy_inv_def split: if_splits)
  moreover have "owns f' = (owns f)(i := False)"
    using pl inv calculation by (auto simp: owns_def fun_eq_iff busy_inv_def)
  ultimately show ?thesis using inv by (auto simp: busy_inv_def intro!: good_release [OF inv])
qed

lemma reply_good:
  assumes inv: "busy_inv f (flocks k)" and pl: "spc f = Reply r c" and step: "advance st (f, k) = (f', k')"
  shows "good_step f k f' k'"
proof (cases "r = - 1")
  case True
  with inv pl step show ?thesis
    by (auto simp: advance.simps reply_step_def post_reply_def intro!: good_still)
next
  case False
  then obtain i where i: "r = int i" "i < 10" "locked (srv f) ! i \<noteq> 1"
    using inv pl by (auto simp: busy_inv_def elim: nonneg_int_cases)
  have len: "length (locked (srv f)) = 10" using inv by (simp add: busy_inv_def)
  note step' = step [unfolded advance.simps pl server_pc.case reply_step_def]
  show ?thesis
  proof (cases rule: lock_at_cases [of k f i])
    case 1
    then have "slot_acquire (pid (srv f)) i (flocks k) = (- 1, flocks k)"
      by (simp add: board_locks.probe_refused)
    with 1 step' i have f': "locked (srv f') = (locked (srv f))[i := 1]" "pid (srv f') = pid (srv f)"
      "refused f' = insert i (refused f)" "spc f' = Idle" "k' = k"
      by (auto simp: post_reply_def Let_def)
    then have "owns f' = owns f" using i len pl by (auto simp: owns_def fun_eq_iff nth_list_update)
    with f' inv show ?thesis by (simp add: good_step_def busy_inv_def)
  next
    case (2 q)
    with step' i have f': "locked (srv f') = (locked (srv f))[i := 1]" "pid (srv f') = pid (srv f)"
      "refused f' = refused f - {i}" "spc f' = Idle"
      "k' = k\<lparr>flocks := snd (slot_acquire (pid (srv f)) i (flocks k))\<rparr>"
      by (auto simp: post_reply_def Let_def)
    then have "owns f' = (owns f)(i := True)"
      using i len pl by (auto simp: owns_def fun_eq_iff nth_list_update)
    with len show ?thesis
      unfolding f'(5) by (intro good_acquire [OF inv 2(1) f'(2)]) (simp_all add: f')
  qed
qed

lemma advance_good:
  assumes inv: "busy_inv f (flocks k)" and step: "advance st (f, k) = (f', k')"
  shows "good_step f k f' k'"
proof (cases "spc f")
  case Idle
  with assms show ?thesis by (auto simp: advance.simps intro!: good_still)
next
  case (Find n i c)
  then show ?thesis by (rule find_good [OF inv _ step])
next
  case (Probed i c)
  then show ?thesis by (intro probed_good [OF inv _ step] disjI1)
next
  case (Reply r c)
  then show ?thesis by (rule reply_good [OF inv _ step])
next
  case (Pull "is" c n send)
  then show ?thesis by (rule pull_good [OF inv _ step])
next
  case (Pull_Probed i "is" c n send)
  then show ?thesis by (intro probed_good [OF inv _ step] disjI2)
qed

lemma begin_request_good:
  assumes inv: "busy_inv f (flocks k)" and pl: "spc f = Idle"
    and step: "begin_request st i x f k = Inr (f', k')"
  shows "good_step f k f' k'"
proof (cases "type_is ''!post'' x \<or> type_is ''!exit'' x \<or> type_is ''!pull'' x \<or> \<not> type_is ''!finish'' x")
  case True
  have "nat ((lastpos (srv f) + 1) mod 10) < 10" "list_all (\<lambda>i. i < 10) [0..<10]"
    by (simp_all add: nat_less_iff list_all_iff)
  with inv True pl step show ?thesis
    by (auto simp: begin_request_def Let_def handle_exit_def split: if_splits intro!: good_still)
next
  case False
  with step obtain s' where fin: "handle_finish x (srv f) k = Inr (s', k')"
    and f': "f' = f\<lparr>srv := s', refused := refused f - {nat (pos (finish_msg x))}\<rparr>"
    by (auto simp: begin_request_def Let_def split: sum.splits)
  have "0 \<le> pos (finish_msg x) \<and> pos (finish_msg x) < 10"
    using fin handle_finish_bad by fastforce
  then obtain j where j: "pos (finish_msg x) = int j" "j < 10"
    by (metis nonneg_int_cases of_nat_less_numeral_iff)
  have len: "length (locked (srv f)) = 10" using inv by (simp add: busy_inv_def)
  have s': "locked s' = (locked (srv f))[j := 0]" "pid s' = pid (srv f)"
    "flocks k' = snd (slot_release (pid (srv f)) j (flocks k))"
    using fin handle_finish_ok [OF j, of "srv f" k] by auto
  have "owns f' = (owns f)(j := False)"
    using pl len j by (auto simp: owns_def fun_eq_iff f' s' nth_list_update)
  then have "board_locks.tracks 10 (flocks k') (pid (srv f)) (owns f')"
    using inv by (simp add: busy_inv_def s' board_locks.tracks_release)
  with handle_finish_frame [OF fin] pl len show ?thesis
    by (simp add: good_step_def busy_inv_def f' s')
qed

lemma busy_inv_frame:
  assumes "busy_inv f (flocks k)" and "kernel_frame p k k'" and "pid (srv f) \<noteq> p"
  shows "busy_inv f (flocks k')"
  using assms by (simp add: busy_inv_def kernel_frame_def)

lemma race_inv_step:
  assumes inv: "race_inv g" and g: "servers g = us @ f # vs" and step: "good_step f (kern g) f' k'"
  shows "race_inv (g\<lparr>servers := us @ f' # vs, kern := k'\<rparr>)"
proof -
  have "busy_inv h (flocks k')" if "h \<in> set us \<union> set vs" for h
  proof -
    have "busy_inv h (flocks (kern g))" "pid (srv h) \<noteq> pid (srv f)"
      using inv that by (auto simp: race_inv_def g image_iff)
    then show ?thesis using step busy_inv_frame by (auto simp: good_step_def)
  qed
  then show ?thesis using inv step by (auto simp: race_inv_def g good_step_def kernel_frame_def)
qed

lemma foreign_frame: "0 < len \<Longrightarrow> kernel_frame p k (k\<lparr>flocks := snd (lock_reg p ty off len (flocks k))\<rparr>)"
  by (simp add: kernel_frame_def lock_reg_excl lock_reg_tracks)

lemma server_start_inv:
  assumes "server_main_init p argv env k = Inr (s, k')" and "\<forall>i < RECORD_NUM. slot_clear (flocks k) p i"
  shows "busy_inv \<lparr>srv = s, spc = Idle, refused = {}\<rparr> (flocks k')"
proof -
  have "server_inv s k'" using server_main_init_inv [OF assms(1)] assms(2) by simp
  then have "server_wf s" "server_locks s (flocks k')" by (simp_all add: server_inv_def)
  moreover have "owns \<lparr>srv = s, spc = Idle, refused = {}\<rparr> = (\<lambda>i. locked s ! i = 1)"
    by (simp add: owns_def fun_eq_iff)
  ultimately show ?thesis
    by (simp add: busy_inv_def server_wf_def server_locks_tracks)
qed

lemma race_step_inv: "race_step g g' \<Longrightarrow> race_inv g \<Longrightarrow> race_inv g'"
proof (induction rule: race_step.induct)
  case (start p g argv env s' k')
  note f = server_main_init_frame [OF start(3)]
  have "busy_inv \<lparr>srv = s', spc = Idle, refused = {}\<rparr> (flocks k')"
    using server_start_inv [OF start(3)] start(2) by simp
  then show ?case using start.prems start(1) f by (auto simp: race_inv_def)
next
  case (accept g us f vs c h)
  have "busy_inv f (flocks (kern g))" using accept by (auto simp: race_inv_def)
  then have "good_step f (kern g) (f\<lparr>srv := accept_request c h (srv f)\<rparr>) (kern g)"
    using accept(2) by (intro good_still) (simp_all add: accept_request_def)
  from race_inv_step [OF accept.prems accept(1) this] show ?case by simp
next
  case (request g us f vs st i x f' k')
  have "busy_inv f (flocks (kern g))" using request by (auto simp: race_inv_def)
  from race_inv_step [OF request.prems request(1) begin_request_good [OF this request(2,3)]] show ?case .
next
  case (lock_call g us f vs st f' k')
  have "busy_inv f (flocks (kern g))" using lock_call by (auto simp: race_inv_def)
  from race_inv_step [OF lock_call.prems lock_call(1) advance_good [OF this lock_call(2)]] show ?case .
next
  case (foreign p g len k' ty off)
  have frame: "kernel_frame p (kern g) k'" using foreign(2,3) foreign_frame by simp
  have "busy_inv f (flocks k')" if "f \<in> set (servers g)" for f
    by (rule busy_inv_frame [OF _ frame]) (use foreign.prems foreign(1) that in \<open>auto simp: race_inv_def\<close>)
  then show ?case using foreign.prems frame by (simp add: race_inv_def kernel_frame_def)
qed

interpretation race: invariant_system race_init race_step race_inv
  by unfold_locales (simp add: race_init_def race_inv_def lock_excl_def, rule race_step_inv)

lemma race_inv_marked:
  assumes "race_inv g" and "f \<in> set (servers g)" and "i < RECORD_NUM" and "locked (srv f) ! i = 1"
  shows "if i \<in> refused f then slot_clear (flocks (kern g)) (pid (srv f)) i
         else slot_mine (flocks (kern g)) (pid (srv f)) i"
proof -
  have "busy_inv f (flocks (kern g))" using assms by (simp add: race_inv_def)
  moreover from this have "\<not> probing (spc f) i" using assms(4)
    by (cases "spc f") (auto simp: busy_inv_def)
  ultimately show ?thesis
    using assms(3,4) by (auto simp: busy_inv_def board_locks.tracks_def owns_def)
qed

lemma race_inv_exclusive:
  assumes "race_inv g" and "a < length (servers g)" "b < length (servers g)" "a \<noteq> b" and "i < RECORD_NUM"
    and "locked (srv (servers g ! a)) ! i = 1" "locked (srv (servers g ! b)) ! i = 1"
  shows "i \<in> refused (servers g ! a) \<or> i \<in> refused (servers g ! b)"
proof (rule ccontr)
  assume not: "\<not> ?thesis"
  have "slot_mine (flocks (kern g)) (pid (srv (servers g ! a))) i"
    "slot_mine (flocks (kern g)) (pid (srv (servers g ! b))) i"
    using race_inv_marked [OF assms(1) nth_mem [OF assms(2)] assms(5,6)]
      race_inv_marked [OF assms(1) nth_mem [OF assms(3)] assms(5,7)] not by simp_all
  then have "pid (srv (servers g ! a)) = pid (srv (servers g ! b))"
    using assms(1) slot_mine_unique by (auto simp: race_inv_def)
  then show False using assms(1-4) by (auto simp: race_inv_def distinct_conv_nth)
qed

section \<open>Executions of one server among others\<close>

lemma advance_race:
  assumes "advance st (f, k) = (f', k')"
  shows "race_step \<lparr>servers = us @ f # vs, kern = k\<rparr> \<lparr>servers = us @ f' # vs, kern = k'\<rparr>"
  using race_step.lock_call [of "\<lparr>servers = us @ f # vs, kern = k\<rparr>" us f vs st f' k'] assms by simp

lemma runs_race:
  assumes "runs_to st (f, k) (f', k')"
  shows "race_step\<^sup>*\<^sup>* \<lparr>servers = us @ f # vs, kern = k\<rparr> \<lparr>servers = us @ f' # vs, kern = k'\<rparr>"
proof -
  have "(advance st ^^ m) (f, k) = (f', k') \<Longrightarrow>
    race_step\<^sup>*\<^sup>* \<lparr>servers = us @ f # vs, kern = k\<rparr> \<lparr>servers = us @ f' # vs, kern = k'\<rparr>" for m
  proof (induction m arbitrary: f' k')
    case (Suc m)
    obtain f1 k1 where mid: "(advance st ^^ m) (f, k) = (f1, k1)" by fastforce
    with Suc.prems have "advance st (f1, k1) = (f', k')" by simp
    then have "race_step \<lparr>servers = us @ f1 # vs, kern = k1\<rparr> \<lparr>servers = us @ f' # vs, kern = k'\<rparr>"
      by (rule advance_race)
    with Suc.IH [OF mid] show ?case by (rule rtranclp.rtrancl_into_rtrancl)
  qed simp
  then show ?thesis using assms by (auto simp: runs_to_def)
qed

lemma request_race:
  assumes "spc f = Idle" and "begin_request st i x f k = Inr (f', k')"
  shows "race_step \<lparr>servers = us @ f # vs, kern = k\<rparr> \<lparr>servers = us @ f' # vs, kern = k'\<rparr>"
  using race_step.request [of "\<lparr>servers = us @ f # vs, kern = k\<rparr>" us f vs] assms by simp

text \<open>A search on a board without locks, up to the point where the slot is known but not yet taken.\<close>

lemma search_race:
  assumes "spc f = Idle" and "type_is ''!post'' x" and "lastpos (srv f) = 9" and "locked (srv f) ! 0 \<noteq> 1"
    and "flocks k = []"
  shows "race_step\<^sup>*\<^sup>* \<lparr>servers = us @ f # vs, kern = k\<rparr>
    \<lparr>servers = us @ f\<lparr>spc := Reply 0 (fds (srv f) ! i)\<rparr> # vs, kern = k\<rparr>"
proof -
  let ?c = "fds (srv f) ! i"
  have "find_loop 10 (int 0) (srv f) (flocks k) = (0, [])"
    using assms(4,5)
    by (simp add: numeral_eq_Suc lock_defs carve_def overlaps_def)
  from find_runs [OF _ this, of st ?c] assms(5)
  have "runs_to st (f\<lparr>spc := Find 10 0 ?c\<rparr>, k) (f\<lparr>spc := Reply 0 ?c\<rparr>, k)"
    by (simp add: same_locks [of k, unfolded assms(5)])
  from request_race [OF assms(1), of st i x k "f\<lparr>spc := Find 10 0 ?c\<rparr>" k us vs] runs_race [OF this, of us vs]
  show ?thesis using assms(2,3) by (simp add: begin_request_def converse_rtranclp_into_rtranclp)
qed

end
