(* ===== verification/Bulletin_Theorems.thy ===== *)
theory Bulletin_Theorems
  imports Bulletin_Races
begin

text \<open>
  The properties of the bulletin board (\<open>HW1\<close>), each with a witness at a concrete board: process 7
  holds slot 0, the server is process 1 and has handed out slot 1.
\<close>

section \<open>A concrete board\<close>

definition demo_io :: io where
  "demo_io = \<lparr>io_type = replicate 20 NUL, io_buf = replicate 4096 NUL, io_size = 0\<rparr>"

definition demo_message :: message where
  "demo_message =
     \<lparr>rd = \<lparr>From = replicate 5 NUL, Content = replicate 20 NUL\<rparr>, padding = replicate 3 NUL, pos = 0\<rparr>"

definition demo_stack :: stack where
  "demo_stack = \<lparr>send0 = demo_io, msg0 = demo_message, receive0 = demo_io\<rparr>"

definition demo_request :: request where
  "demo_request = \<lparr>host = [], conn_fd = 5, buf_len = 0, req_id = 0\<rparr>"

definition demo_server :: server_state where
  "demo_server =
     \<lparr>pid = 1, svr = \<lparr>hostname = [], port = 8080, listen_fd = 3\<rparr>,
      requestP = replicate 8 demo_request, maxfd = 8, lastpos = 9,
      fds = (replicate 21 (- 1))[0 := 3, 1 := 5], locked = (replicate 10 0)[1 := 1],
      bulletinbuf = replicate 250 NUL, sock_out = [], closed = [], stdout = []\<rparr>"

definition demo_kernel :: kernel where
  "demo_kernel =
     \<lparr>board = replicate 250 NUL,
      flocks = [\<lparr>h_pid = 7, h_type = F_WRLCK, h_start = 0, h_end = 25\<rparr>,
                \<lparr>h_pid = 1, h_type = F_WRLCK, h_start = 25, h_end = 50\<rparr>]\<rparr>"

lemmas demo_defs = demo_io_def demo_message_def demo_stack_def demo_request_def demo_server_def
  demo_kernel_def

lemma demo_wf [simp]: "wf_io demo_io" "wf_io (send0 demo_stack)" "wf_message (msg0 demo_stack)"
  by (simp_all add: demo_defs wf_io_def wf_message_def wf_record_def int32_def)

lemma demo_locks: "server_locks demo_server (flocks demo_kernel)"
  by code_simp

lemma demo_inv [simp]: "server_inv demo_server demo_kernel"
proof -
  have "list_all (\<lambda>v. v = 0 \<or> v = 1) (locked demo_server)" by code_simp
  then have "server_wf demo_server" by (simp add: server_wf_def) (simp add: demo_server_def)
  then show ?thesis using demo_locks by (simp add: server_inv_def) (simp add: demo_kernel_def)
qed

lemma demo_next_free [simp]: "next_free demo_server (flocks demo_kernel) = Some 2"
  by code_simp

section \<open>Finding a slot\<close>

text \<open>C1 (functional). \<open>find_available\<close> leaves the lock table as it found it. It returns \<open>-1\<close>
  exactly when no slot is free (every slot is handed out by this server or locked by another
  process), and otherwise the first free slot in cyclic order after the last one handed out.\<close>

theorem find_available_first_free:
  assumes "server_inv s k" and "find_available s (flocks k) = (r, tab)"
  shows "tab = flocks k \<and>
    (r = - 1 \<longleftrightarrow> (\<forall>i < RECORD_NUM. \<not> slot_free s (flocks k) i)) \<and>
    (r \<noteq> - 1 \<longrightarrow>
       (\<exists>d < 10. r = (lastpos s + 1 + int d) mod 10 \<and> slot_free s (flocks k) (nat r) \<and>
          (\<forall>e < d. \<not> slot_free s (flocks k) (nat ((lastpos s + 1 + int e) mod 10)))))"
proof (cases "next_free s (flocks k)")
  case None
  then show ?thesis
    using find_available_next_free [OF assms(1)] assms(2) next_free_None [of s "flocks k"] by auto
next
  case (Some i)
  have "0 \<le> lastpos s" using assms(1) by (simp add: server_inv_def server_wf_def)
  from next_free_cyclic [OF this Some] next_free_Some [OF Some]
    find_available_next_free [OF assms(1)] assms(2) Some
  show ?thesis by auto
qed

theorem find_available_first_free_witness:
  "find_available demo_server (flocks demo_kernel) = (2, flocks demo_kernel) \<and>
   (\<exists>d < 10. (2::int) = (lastpos demo_server + 1 + int d) mod 10)"
proof -
  have run: "find_available demo_server (flocks demo_kernel) = (2, flocks demo_kernel)"
    by (simp add: find_available_next_free)
  show ?thesis using find_available_first_free [OF demo_inv run] run by auto
qed

section \<open>Posting\<close>

text \<open>C2 (functional). A \<open>!post\<close> request: with no free slot the server answers \<open>!full\<close> and
  changes nothing else; otherwise it marks the slot, takes its write lock, remembers it as the
  last one, and answers \<open>!available\<close> with the slot number where the client reads it.\<close>

theorem post_answers:
  assumes "server_inv s k" and "wf_io (send0 st)" and "wf_message (msg0 st)"
    and "handle_post st c s k = (s', k')"
  shows "\<exists>x. sock_out s' = sock_out s @ [(conn_fd (requestP s ! nat c), x)] \<and>
    (case next_free s (flocks k) of
       None \<Rightarrow> type_is ''!full'' x \<and> k' = k \<and> locked s' = locked s \<and> lastpos s' = lastpos s
     | Some i \<Rightarrow> type_is ''!available'' x \<and>
         pos (bytes_message (peek 0 sizeof_message (io_buf x))) = int i \<and>
         locked s ! i = 0 \<and> locked s' = (locked s)[i := 1] \<and> lastpos s' = int i \<and>
         slot_mine (flocks k') (pid s) i \<and> board k' = board k)"
proof (cases "next_free s (flocks k)")
  case None
  with assms show ?thesis by (auto simp: handle_post_full is_word_def)
next
  case (Some i)
  then have i: "i < 10" "slot_free s (flocks k) i" by (simp_all add: next_free_Some)
  have "locked s ! i \<in> set (locked s)"
    using assms(1) i(1) by (intro nth_mem) (simp add: server_inv_def server_wf_def)
  then have "locked s ! i = 0"
    using assms(1) i(2) by (auto simp: server_inv_def server_wf_def slot_free_def list_all_iff)
  moreover have "slot_mine (snd (slot_acquire (pid s) i (flocks k))) (pid s) i"
    using i(2) by (simp add: slot_free_def board_locks.acquire_mine)
  moreover have
    "s' = (send_io c (available_io st i) s)\<lparr>locked := (locked s)[i := 1], lastpos := int i\<rparr>"
    "k' = k\<lparr>flocks := snd (slot_acquire (pid s) i (flocks k))\<rparr>"
    using assms(4) by (simp_all add: handle_post_slot [OF assms(1) Some])
  ultimately show ?thesis
    by (intro exI [of _ "available_io st i"])
      (simp add: Some available_io_message [OF assms(2,3) i(1)])
qed

theorem post_answers_witness:
  "\<exists>x. sock_out (fst (handle_post demo_stack 5 demo_server demo_kernel)) = [(5, x)] \<and>
     type_is ''!available'' x \<and> pos (bytes_message (peek 0 sizeof_message (io_buf x))) = 2"
proof -
  obtain s' k' where run: "handle_post demo_stack 5 demo_server demo_kernel = (s', k')" by fastforce
  from post_answers [OF demo_inv demo_wf(2,3) run] show ?thesis
    by (auto simp: run) (simp_all add: demo_server_def demo_request_def)
qed

section \<open>The invariant\<close>

text \<open>C3 (invariant). From a start-up that succeeds, through any sequence of poll iterations
  (any clients, any requests, well formed or not), a server that has not stopped has its arrays in
  shape, and its \<open>locked\<close> array agrees with the kernel: it holds the write lock on exactly the
  slots marked 1 and nothing on the others.\<close>

theorem server_run_invariant:
  assumes "server_main_init p argv env k0 = Inr (s, k)"
    and "\<forall>i < RECORD_NUM. slot_clear (flocks k0) p i"
    and "\<forall>(st, penv) \<in> set es. wf_io (send0 st)"
    and "server_run es s k = Inr (s', k')"
  shows "server_wf s' \<and> RECORD_NUM * sizeof_record \<le> length (board k') \<and>
    (\<forall>i < RECORD_NUM. (locked s' ! i = 1 \<longrightarrow> slot_mine (flocks k') (pid s') i) \<and>
                       (locked s' ! i \<noteq> 1 \<longrightarrow> slot_clear (flocks k') (pid s') i))"
proof -
  have "server_inv s k" using server_main_init_inv [OF assms(1)] assms(2) by simp
  from server_run_inv [OF this assms(3,4)] show ?thesis
    by (simp add: server_inv_def server_locks_def)
qed

definition demo_init_env :: init_env where
  "demo_init_env =
     \<lparr>env_hostname = ''h'', env_socket = 3, env_setsockopt = 0, env_bind = 0, env_listen = 0,
      env_dtablesize = 8, env_requests = Some (replicate 8 demo_request)\<rparr>"

text \<open>A connection is accepted, and in the next iteration the client posts.\<close>

definition demo_accept :: poll_env where
  "demo_accept = \<lparr>num_in = 1, revents = (replicate 21 False)[0 := True], accepted = Accepted 5 ''c'',
                  received = (\<lambda>_. None)\<rparr>"

definition demo_post_io :: io where
  "demo_post_io = set_type ''!post'' demo_io"

definition demo_serve :: poll_env where
  "demo_serve = \<lparr>num_in = 1, revents = (replicate 21 False)[1 := True], accepted = Accepted 5 ''c'',
                 received = (\<lambda>_. Some demo_post_io)\<rparr>"

lemma serve_none: "\<forall>i \<in> set js. \<not> revents env ! i \<Longrightarrow> serve_clients st env js s k = Inr (s, k)"
  by (induction js) auto

lemma demo_server_start:
  obtains s k' where "server_main_init p [''server'', ''8080''] demo_init_env k = Inr (s, k')"
    "pid s = p" "lastpos s = 9" "locked s = replicate 10 0" "flocks k' = flocks k"
    "length (requestP s) = 8" "fds s = (replicate 21 (- 1))[0 := 3]"
  by (simp add: server_main_init_def init_server_def demo_init_env_def Let_def)

lemma demo_accept_iter:
  assumes "length (requestP s) = 8"
  shows "server_iter demo_stack demo_accept s k = Inr (accept_request 5 ''c'' s, k)"
  using assms serve_none [of "[1..<21]" demo_accept] by (simp add: server_iter_def demo_accept_def)

lemma demo_serve_iter:
  assumes "length (requestP s) = 8" and "fds s ! 1 = 5" and "server_inv s k" and "next_free s (flocks k) = Some i"
  obtains s' where "server_iter demo_stack demo_serve s k =
      Inr (s', k\<lparr>flocks := snd (slot_acquire (pid s) i (flocks k))\<rparr>)"
    "locked s' = (locked s)[i := 1]" "pid s' = pid s"
proof -
  have r: "revents demo_serve ! i \<longleftrightarrow> i = 1" if "i < 21" for i
    using that by (simp add: demo_serve_def nth_list_update)
  have "type_is ''!post'' demo_post_io" by (simp add: demo_post_io_def is_word_def)
  then have req: "handle_request demo_stack 1 demo_post_io s k = Inr (handle_post demo_stack 5 s k)"
    using assms(2) by (simp add: handle_request_def)
  have "[1..<21] = 1 # [2..<21]" by (simp add: upt_conv_Cons)
  then have "serve_clients demo_stack demo_serve [1..<21] s k = Inr (handle_post demo_stack 5 s k)"
    using assms(1,2) r req
    by (simp add: serve_none case_prod_beta demo_serve_def [THEN arg_cong, of received] del: upt_rec_numeral)
  then show ?thesis
    using that r [of 0] by (simp add: server_iter_def handle_post_slot [OF assms(3,4)] demo_serve_def)
qed

theorem server_run_invariant_witness:
  "\<exists>s k s' k'. server_main_init 1 [''server'', ''8080''] demo_init_env \<lparr>board = [], flocks = []\<rparr> = Inr (s, k) \<and>
     server_run [(demo_stack, demo_accept), (demo_stack, demo_serve)] s k = Inr (s', k') \<and>
     locked s' = (replicate 10 0)[0 := 1] \<and> slot_mine (flocks k') 1 0 \<and> slot_clear (flocks k') 1 1"
proof -
  let ?k0 = "\<lparr>board = [], flocks = []\<rparr>"
  let ?es = "[(demo_stack, demo_accept), (demo_stack, demo_serve)]"
  obtain s k where init: "server_main_init 1 [''server'', ''8080''] demo_init_env ?k0 = Inr (s, k)"
    and s: "pid s = 1" "lastpos s = 9" "locked s = replicate 10 0" "flocks k = []"
    "length (requestP s) = 8" "fds s = (replicate 21 (- 1))[0 := 3]"
    by (rule demo_server_start [of 1 ?k0]) simp
  have c: "\<forall>i < RECORD_NUM. slot_clear (flocks ?k0) 1 i" by (simp add: slot_clear_def)
  let ?s1 = "accept_request 5 ''c'' s"
  have inv: "server_inv ?s1 k" using server_main_init_inv [OF init] c by (simp add: accept_request_inv)
  have s1: "length (requestP ?s1) = 8" "fds ?s1 ! 1 = 5" "locked ?s1 = replicate 10 0" "lastpos ?s1 = 9" "pid ?s1 = 1"
    using s by (simp_all add: accept_request_def upt_conv_Cons [of 1, simplified])
  have "slot_free ?s1 (flocks k) 0" using s(4) s1 by (simp add: slot_free_def slot_busy_def)
  moreover have "cyclic 10 0 = 0 # cyclic 9 1" by code_simp
  ultimately have "next_free ?s1 (flocks k) = Some 0" by (simp add: next_free_def s1)
  then obtain s' k' where iter: "server_iter demo_stack demo_serve ?s1 k = Inr (s', k')"
    "locked s' = (replicate 10 0)[0 := 1]" "pid s' = 1"
    by (rule demo_serve_iter [OF s1(1,2) inv]) (simp add: s1)
  then have run: "server_run ?es s k = Inr (s', k')" by (simp add: demo_accept_iter [OF s(5)])
  have w: "\<forall>(st, penv) \<in> set ?es. wf_io (send0 st)" by simp
  from server_run_invariant [OF init c w run] init run iter show ?thesis by auto
qed

section \<open>One client per slot\<close>

text \<open>C4 (safety). Servers sharing one board, interleaved at every single call of \<open>fcntl\<close> (servers starting,
  accepting, searching, probing, replying, pulling, finishing, with any requests, and other processes
  locking any ranges). A server that has a slot marked as handed out holds its write lock, unless the
  second \<open>write_lock\<close> of that post was refused, in which case it holds no lock there; and when two servers
  have the same slot handed out, one of them was refused. So a slot is handed out once as long as no
  answer that the code ignores is a refusal.\<close>

theorem slots_exclusive:
  assumes "race_init g0" and "race_step\<^sup>*\<^sup>* g0 g" and "a < length (servers g)" and "i < RECORD_NUM"
    and "locked (srv (servers g ! a)) ! i = 1"
  shows "(if i \<in> refused (servers g ! a)
          then slot_clear (flocks (kern g)) (pid (srv (servers g ! a))) i
          else slot_mine (flocks (kern g)) (pid (srv (servers g ! a))) i) \<and>
    (\<forall>b < length (servers g). b \<noteq> a \<longrightarrow> locked (srv (servers g ! b)) ! i = 1 \<longrightarrow>
       i \<in> refused (servers g ! a) \<or> i \<in> refused (servers g ! b))"
proof -
  note inv = race.reachable_inv [OF assms(1,2)]
  from race_inv_marked [OF inv nth_mem [OF assms(3)] assms(4,5)] race_inv_exclusive [OF inv assms(3) _ _ assms(4,5)]
  show ?thesis by auto
qed

text \<open>Two servers that have started on an empty board.\<close>

lemma demo_two_servers:
  obtains g0 s1 s2 k where "race_init g0"
    "race_step\<^sup>*\<^sup>* g0 \<lparr>servers = [\<lparr>srv = s1, spc = Idle, refused = {}\<rparr>, \<lparr>srv = s2, spc = Idle, refused = {}\<rparr>], kern = k\<rparr>"
    "pid s1 = 1" "pid s2 = 2" "lastpos s1 = 9" "lastpos s2 = 9"
    "locked s1 = replicate 10 0" "locked s2 = replicate 10 0" "flocks k = []"
proof -
  let ?g0 = "\<lparr>servers = [], kern = \<lparr>board = [], flocks = []\<rparr>\<rparr>"
  obtain s1 k1 where s1: "server_main_init 1 [''server'', ''8080''] demo_init_env (kern ?g0) = Inr (s1, k1)"
    "pid s1 = 1" "lastpos s1 = 9" "locked s1 = replicate 10 0" "flocks k1 = []"
    by (rule demo_server_start [of 1 "kern ?g0"]) simp
  obtain s2 k2 where s2: "server_main_init 2 [''server'', ''8080''] demo_init_env k1 = Inr (s2, k2)"
    "pid s2 = 2" "lastpos s2 = 9" "locked s2 = replicate 10 0" "flocks k2 = []"
    by (rule demo_server_start [of 2 k1]) (simp add: s1)
  let ?f = "\<lambda>s. \<lparr>srv = s, spc = Idle, refused = {}\<rparr>"
  have "race_step ?g0 \<lparr>servers = [?f s1], kern = k1\<rparr>"
    using race_step.start [OF _ _ s1(1)] by (simp add: slot_clear_def)
  moreover have "race_step \<lparr>servers = [?f s1], kern = k1\<rparr> \<lparr>servers = [?f s1, ?f s2], kern = k2\<rparr>"
    using race_step.start [of 2 "\<lparr>servers = [?f s1], kern = k1\<rparr>"] s1 s2 by (simp add: slot_clear_def)
  ultimately have "race_step\<^sup>*\<^sup>* ?g0 \<lparr>servers = [?f s1, ?f s2], kern = k2\<rparr>" by simp
  then show ?thesis using s1 s2 by (intro that [of ?g0 s1 s2 k2]) (simp_all add: race_init_def)
qed

theorem slots_exclusive_witness:
  "\<exists>g0 g. race_init g0 \<and> race_step\<^sup>*\<^sup>* g0 g \<and> length (servers g) = 2 \<and>
     locked (srv (servers g ! 0)) ! 0 = 1 \<and> locked (srv (servers g ! 1)) ! 0 = 1 \<and>
     0 \<in> refused (servers g ! 0) \<and> 0 \<notin> refused (servers g ! 1) \<and>
     slot_clear (flocks (kern g)) 1 0 \<and> slot_mine (flocks (kern g)) 2 0"
proof -
  obtain g0 s1 s2 k where g0: "race_init g0"
    "race_step\<^sup>*\<^sup>* g0 \<lparr>servers = [\<lparr>srv = s1, spc = Idle, refused = {}\<rparr>, \<lparr>srv = s2, spc = Idle, refused = {}\<rparr>], kern = k\<rparr>"
    and s: "pid s1 = 1" "pid s2 = 2" "lastpos s1 = 9" "lastpos s2 = 9"
    "locked s1 = replicate 10 0" "locked s2 = replicate 10 0" "flocks k = []"
    by (rule demo_two_servers) blast
  let ?f = "\<lambda>s pl. \<lparr>srv = s, spc = pl, refused = {}\<rparr>"
  let ?c1 = "fds s1 ! 1" and ?c2 = "fds s2 ! 1"
  have post: "type_is ''!post'' demo_post_io" by (simp add: demo_post_io_def is_word_def)
  have a: "race_step\<^sup>*\<^sup>* \<lparr>servers = [?f s1 Idle, ?f s2 Idle], kern = k\<rparr>
      \<lparr>servers = [?f s1 (Reply 0 ?c1), ?f s2 Idle], kern = k\<rparr>"
    using search_race [of "?f s1 Idle" demo_post_io k "[]" "[?f s2 Idle]" 1] post s by simp
  have b: "race_step\<^sup>*\<^sup>* \<lparr>servers = [?f s1 (Reply 0 ?c1), ?f s2 Idle], kern = k\<rparr>
      \<lparr>servers = [?f s1 (Reply 0 ?c1), ?f s2 (Reply 0 ?c2)], kern = k\<rparr>"
    using search_race [of "?f s2 Idle" demo_post_io k "[?f s1 (Reply 0 ?c1)]" "[]" 1] post s by simp
  let ?tab = "[\<lparr>h_pid = 2, h_type = F_WRLCK, h_start = 0, h_end = 25\<rparr>]"
  obtain f2 where f2: "advance demo_stack (?f s2 (Reply 0 ?c2), k) = (f2, k\<lparr>flocks := ?tab\<rparr>)"
    "locked (srv f2) = 1 # replicate 9 0" "refused f2 = {}" "pid (srv f2) = 2"
    using s by (simp add: advance.simps reply_step_def post_reply_def lock_at_def lock_defs Let_def numeral_eq_Suc)
  obtain f1 where f1: "advance demo_stack (?f s1 (Reply 0 ?c1), k\<lparr>flocks := ?tab\<rparr>) = (f1, k\<lparr>flocks := ?tab\<rparr>)"
    "locked (srv f1) = 1 # replicate 9 0" "refused f1 = {0}" "pid (srv f1) = 1"
    using s by (simp add: advance.simps reply_step_def post_reply_def lock_at_def lock_defs Let_def
        obstructs_def overlaps_def numeral_eq_Suc)
  let ?g = "\<lparr>servers = [f1, f2], kern = k\<lparr>flocks := ?tab\<rparr>\<rparr>"
  have "race_step \<lparr>servers = [?f s1 (Reply 0 ?c1), ?f s2 (Reply 0 ?c2)], kern = k\<rparr>
      \<lparr>servers = [?f s1 (Reply 0 ?c1), f2], kern = k\<lparr>flocks := ?tab\<rparr>\<rparr>"
    using advance_race [OF f2(1), of "[?f s1 (Reply 0 ?c1)]" "[]"] by simp
  then have "race_step\<^sup>*\<^sup>* g0 \<lparr>servers = [?f s1 (Reply 0 ?c1), f2], kern = k\<lparr>flocks := ?tab\<rparr>\<rparr>"
    by (rule rtranclp.rtrancl_into_rtrancl [OF rtranclp_trans [OF rtranclp_trans [OF g0(2) a] b]])
  then have reach: "race_step\<^sup>*\<^sup>* g0 ?g"
    by (rule rtranclp.rtrancl_into_rtrancl) (use advance_race [OF f1(1), of "[]" "[f2]"] in simp)
  show ?thesis
    using slots_exclusive [OF g0(1) reach, of 0 0] slots_exclusive [OF g0(1) reach, of 1 0] g0(1) reach
    by (intro exI [of _ g0] exI [of _ ?g]) (simp add: f1 f2)
qed

section \<open>Reading the board\<close>

text \<open>C5 (functional). A \<open>!pull\<close> request changes neither the file nor a lock. The client is sent
  one \<open>!record\<close> per slot that is free and has an author, in slot order, each with the slot's 25
  bytes, and then \<open>!end\<close>; the number of slots that are not free is reported on standard output
  when there is one.\<close>

theorem pull_sends_board:
  assumes "server_inv s k" and "wf_io (send0 st)" and "handle_pull st c s k = (s', k')"
  shows "k' = k \<and> locked s' = locked s \<and> lastpos s' = lastpos s \<and>
    (\<exists>es e. sock_out s' = sock_out s @ es @ [(conn_fd (requestP s ! nat c), e)] \<and> type_is ''!end'' e \<and>
       map io_view es =
         map (\<lambda>i. (conn_fd (requestP s ! nat c), ''!record'', slot_bytes i (board k)))
           (filter (\<lambda>i. slot_free s (flocks k) i \<and> cstr (slot_bytes i (board k)) \<noteq> []) [0..<RECORD_NUM])) \<and>
    stdout s' = stdout s @
      (let n = length (filter (\<lambda>i. \<not> slot_free s (flocks k) i) [0..<RECORD_NUM])
       in if n = 0 then [] else [''[Warning] Try to access locked post - '' @ show_nat n])"
  using handle_pull_spec [OF assms] by (auto simp: Let_def)

theorem pull_sends_board_witness:
  "stdout (fst (handle_pull demo_stack 5 demo_server demo_kernel)) =
     [''[Warning] Try to access locked post - 2'']"
proof -
  obtain s' k' where run: "handle_pull demo_stack 5 demo_server demo_kernel = (s', k')" by fastforce
  have "length (filter (\<lambda>i. \<not> slot_free demo_server (flocks demo_kernel) i) [0..<RECORD_NUM]) = 2"
    by code_simp
  moreover have "stdout demo_server = []" by (simp add: demo_server_def)
  moreover have "show_nat 2 = ''2''" by code_simp
  ultimately show ?thesis
    using pull_sends_board [OF demo_inv demo_wf(2) run] by (simp add: run Let_def)
qed

text \<open>C6 (round trip). The client's reading loop, fed with what the server sends for a pull. If the text of
  every visible post ends within its record, the loop stops at \<open>!end\<close> and has printed exactly the author
  and the text of the visible slots, in order; if one does not (a text of \<open>CONTENT_LEN\<close> characters or
  more was posted), \<open>printf\<close> reads on past the record.\<close>

theorem pull_round_trip:
  assumes "server_inv s k" and "wf_io (send0 st)" and "handle_pull st c s k = (s', k')"
    and "sock_out s' = sock_out s @ sent"
  shows "read_board (map snd sent) =
    (let posts = map (\<lambda>i. slot_bytes i (board k))
           (filter (\<lambda>i. slot_free s (flocks k) i \<and> cstr (slot_bytes i (board k)) \<noteq> []) [0..<RECORD_NUM])
     in if \<forall>b \<in> set posts. NUL \<in> set (drop FROM_LEN b)
        then Inr (concat (map (\<lambda>b. [''FROM: '' @ cstr b, ''CONTENT:'', cstr (drop FROM_LEN b)]) posts), Some [])
        else Inl Buffer_Overread)"
proof -
  let ?vis = "filter (\<lambda>i. slot_free s (flocks k) i \<and> cstr (slot_bytes i (board k)) \<noteq> []) [0..<10]"
  let ?posts = "map (\<lambda>i. slot_bytes i (board k)) ?vis"
  from handle_pull_spec [OF assms(1-3)] assms(4) obtain es fd e where
    es: "sent = es @ [(fd, e)]" "type_is ''!end'' e"
      "map io_view es = map (\<lambda>i. (fd, ''!record'', slot_bytes i (board k))) ?vis"
    by auto
  have "map (\<lambda>x. (cstr (io_type x), peek 0 25 (io_buf x))) (map snd es) = map snd (map io_view es)"
    by (simp add: io_view_def)
  also have "\<dots> = map (\<lambda>r. (''!record'', r)) ?posts" by (simp add: es(3))
  finally have view: "map (\<lambda>x. (cstr (io_type x), peek 0 25 (io_buf x))) (map snd es) =
      map (\<lambda>r. (''!record'', r)) ?posts" .
  have "250 \<le> length (board k)" using assms(1) by (simp add: server_inv_def)
  then have len: "\<forall>r \<in> set ?posts. length r = 25" by (auto simp: slot_bytes_def)
  then have "list_all terminated ?posts \<longleftrightarrow> (\<forall>b \<in> set ?posts. NUL \<in> set (drop FROM_LEN b))"
    by (auto simp: list_all_iff terminated_def bytes_record_def peek_def)
  with read_board_records [OF view es(2) len, of "[]"] show ?thesis by (simp add: es(1) Let_def)
qed

text \<open>The board of the example with a post in slot 3.\<close>

definition demo_post :: bytes where
  "demo_post = ''ann'' @ replicate 2 NUL @ ''hello'' @ replicate 15 NUL"

definition demo_board :: kernel where
  "demo_board = demo_kernel\<lparr>board := replicate 75 NUL @ demo_post @ replicate 150 NUL\<rparr>"

lemma demo_board_inv: "server_inv demo_server demo_board"
  using demo_inv by (simp add: server_inv_def demo_board_def demo_post_def)

lemma demo_board_posts:
  "map (\<lambda>i. slot_bytes i (board demo_board))
     (filter (\<lambda>i. slot_free demo_server (flocks demo_board) i \<and> cstr (slot_bytes i (board demo_board)) \<noteq> [])
       [0..<RECORD_NUM]) = [demo_post]"
  by code_simp

theorem pull_round_trip_witness:
  "\<exists>sent. sock_out (fst (handle_pull demo_stack 5 demo_server demo_board)) = sent \<and>
     read_board (map snd sent) = Inr ([''FROM: ann'', ''CONTENT:'', ''hello''], Some [])"
proof -
  obtain s' k' where run: "handle_pull demo_stack 5 demo_server demo_board = (s', k')" by fastforce
  have "sock_out s' = sock_out demo_server @ sock_out s'" by (simp add: demo_server_def)
  note rt = pull_round_trip [OF demo_board_inv demo_wf(2) run this]
  have "NUL \<in> set (drop FROM_LEN demo_post)" "cstr demo_post = ''ann''" "cstr (drop FROM_LEN demo_post) = ''hello''"
    by code_simp+
  with rt run show ?thesis unfolding demo_board_posts by simp
qed

section \<open>Publishing a post\<close>

text \<open>C7 (functional). A \<open>!finish\<close> request whose slot number is in range stores the post in that
  slot and in no other, clears the slot's mark and this server's lock on it, and keeps the
  invariant; a slot number outside the table is an out-of-bounds access.\<close>

theorem finish_publishes:
  assumes "server_inv s k" and "BUFFER_SIZE \<le> length (io_buf x)"
  shows "(case handle_finish x s k of
       Inl f \<Rightarrow> f = Index_Out_Of_Bounds \<and> \<not> (0 \<le> pos (finish_msg x) \<and> pos (finish_msg x) < int RECORD_NUM)
     | Inr (s', k') \<Rightarrow>
         (\<exists>i < RECORD_NUM. pos (finish_msg x) = int i \<and> server_inv s' k' \<and>
           slot_bytes i (board k') = record_bytes (rd (finish_msg x)) \<and>
           (\<forall>j < RECORD_NUM. j \<noteq> i \<longrightarrow> slot_bytes j (board k') = slot_bytes j (board k)) \<and>
           locked s' = (locked s)[i := 0] \<and> slot_clear (flocks k') (pid s) i))"
proof (cases "0 \<le> pos (finish_msg x) \<and> pos (finish_msg x) < 10")
  case False
  then show ?thesis by (simp add: handle_finish_bad)
next
  case True
  then obtain i where i: "pos (finish_msg x) = int i" "i < 10"
    by (metis nonneg_int_cases of_nat_less_numeral_iff)
  have wf: "wf_record (rd (finish_msg x))"
    using assms(2) by (simp add: finish_msg_def bytes_message_def wf_bytes_record)
  note len = length_record_bytes [OF wf]
  have b: "250 \<le> length (board k)" using assms(1) by (simp add: server_inv_def)
  note run = handle_finish_ok [OF i]
  from run [of s k] handle_finish_inv [OF assms(1)] show ?thesis
    using i len b
    by (auto simp: slot_bytes_write_same slot_bytes_write_other board_locks.release_clear
        intro!: exI [of _ i])
qed

theorem finish_publishes_witness:
  "server_inv demo_server demo_kernel \<and>
   (\<exists>s' k'. handle_finish demo_io demo_server demo_kernel = Inr (s', k') \<and> server_inv s' k')"
proof -
  have "BUFFER_SIZE \<le> length (io_buf demo_io)" by (simp add: demo_io_def)
  note pub = finish_publishes [OF demo_inv this]
  have "pos (finish_msg demo_io) = int 0"
    by (simp add: finish_msg_def demo_io_def bytes_message_def peek_def decode_int_def wrap32_def numeral_eq_Suc)
  then obtain r where "handle_finish demo_io demo_server demo_kernel = Inr r"
    using handle_finish_ok [of demo_io 0] by simp
  with pub show ?thesis by (cases r) auto
qed

section \<open>From the keyboard to the board\<close>

text \<open>C8 (round trip). When the server has a free slot and the user enters a name of at most 4
  and a text of at most 19 characters: the client's answer to \<open>!available\<close> is a \<open>!finish\<close> that
  the server accepts; the slot it had reserved then holds that name and text as the client will
  show them, every other slot is unchanged, the slot is free again for this server and the post is
  logged under the name.\<close>

theorem post_round_trip:
  assumes "server_inv s k" and "wf_io (send0 st)" and "wf_message (msg0 st)"
    and "next_free s (flocks k) = Some i"
    and "handle_post st c s k = (s1, k1)" and "sock_out s1 = sock_out s @ [(fd, reply)]"
    and "wf_io (c_send0 cst)" and "is_word frm" "length frm \<le> 4"
    and "is_word content" "length content \<le> 19"
  shows "\<exists>cs' fin s2 k2.
    client_loop cst [''post'', frm, content] [reply] cs = Inr (Blocked cs') \<and>
    c_out cs' = c_out cs @ [set_type ''!post'' (c_send0 cst), fin] \<and> type_is ''!finish'' fin \<and>
    handle_request st j fin s1 k1 = Inr (s2, k2) \<and>
    show_record (bytes_record (slot_bytes i (board k2))) = Inr [''FROM: '' @ frm, ''CONTENT:'', content] \<and>
    (\<forall>n < RECORD_NUM. n \<noteq> i \<longrightarrow> slot_bytes n (board k2) = slot_bytes n (board k)) \<and>
    locked s2 = (locked s)[i := 0] \<and>
    stdout s2 = stdout s @ [''[Log] Receive post from '' @ frm]"
proof -
  have i: "i < 10" using assms(4) next_free_Some by blast
  have s1: "s1 = (send_io c (available_io st i) s)\<lparr>locked := (locked s)[i := 1], lastpos := int i\<rparr>"
    and k1: "k1 = k\<lparr>flocks := snd (slot_acquire (pid s) i (flocks k))\<rparr>"
    using assms(5) by (simp_all add: handle_post_slot [OF assms(1,4)])
  have reply: "reply = available_io st i" using assms(6) by (simp add: s1)
  let ?m = "(msg0 st)\<lparr>pos := int i\<rparr>"
  note av = available_io_message [OF assms(2,3) i]
  have m: "wf_message ?m" using assms(3) i by (simp add: wf_message_def int32_def)
  obtain mem cs' where mem: "fill_message frm content ?m = Inr mem"
    and loop: "client_loop cst [''post'', frm, content] [reply] cs = Inr (Blocked cs')"
    and out: "c_out cs' = c_out cs @ [set_type ''!post'' (c_send0 cst),
        finish_io (set_type ''!post'' (c_send0 cst)) mem]"
    using client_posts [OF m assms(8-11), of reply cst cs] by (auto simp: reply av)
  let ?fin = "finish_io (set_type ''!post'' (c_send0 cst)) mem"
  note fit = fill_message_fits [OF m assms(8-11) mem]
  then have lm: "length mem = 32" and r: "wf_record (rd (bytes_message mem))"
    by (auto simp: wf_message_def)
  have send: "wf_io (set_type ''!post'' (c_send0 cst))" using assms(7) by simp
  note fin = finish_io_msg [OF send lm]
  have p: "pos (finish_msg ?fin) = int i" using fit by (simp add: fin)
  have log: "cstr mem = frm"
    using fit by simp
  have req: "handle_request st j ?fin s1 k1 = handle_finish ?fin s1 k1"
    by (simp add: handle_request_def fin)
  have len: "250 \<le> length (board k)" using assms(1) by (simp add: server_inv_def)
  show ?thesis
    using handle_finish_ok [OF p i, of s1 k1] loop out req fit r i len
    by (intro exI [of _ cs'] exI [of _ ?fin])
      (auto simp: fin s1 k1 log slot_bytes_write_same slot_bytes_write_other length_record_bytes
        bytes_record_bytes [of _ "[]", simplified])
qed

definition demo_client :: client_stack where
  "demo_client = \<lparr>c_send0 = demo_io\<rparr>"

theorem post_round_trip_witness:
  "\<exists>fin s2 k2.
    handle_request demo_stack 1 fin (fst (handle_post demo_stack 5 demo_server demo_kernel))
      (snd (handle_post demo_stack 5 demo_server demo_kernel)) = Inr (s2, k2) \<and>
    show_record (bytes_record (slot_bytes 2 (board k2))) = Inr [''FROM: ann'', ''CONTENT:'', ''hello'']"
proof -
  obtain s1 k1 where run: "handle_post demo_stack 5 demo_server demo_kernel = (s1, k1)" by fastforce
  have out: "sock_out s1 = sock_out demo_server @ [(5, available_io demo_stack 2)]"
    using run handle_post_slot [OF demo_inv demo_next_free, of demo_stack 5]
    by (auto simp: demo_server_def demo_request_def)
  have c: "wf_io (c_send0 demo_client)" by (simp add: demo_client_def)
  have w: "is_word ''ann''" "length ''ann'' \<le> 4" "is_word ''hello''" "length ''hello'' \<le> 19"
    by (simp_all add: is_word_def)
  show ?thesis
    using post_round_trip [OF demo_inv demo_wf(2,3) demo_next_free run out c w, of "\<lparr>c_out = [], c_stdout = []\<rparr>" 1]
    by (auto simp: run)
qed

section \<open>Input that does not fit\<close>

text \<open>C10 (bounds). A name of 5 characters or more is not kept apart from the text: the author
  that is stored and shown is its first 5 characters followed by the whole text (here a text that
  fits its array).\<close>

theorem long_name_runs_into_text:
  assumes "wf_message m" and "is_word frm" and "FROM_LEN \<le> length frm"
    and "is_word content" and "length content < CONTENT_LEN"
    and "fill_message frm content m = Inr mem"
  shows "show_record (rd (bytes_message mem)) =
    Inr [''FROM: '' @ take FROM_LEN frm @ content, ''CONTENT:'', content]"
  using fill_message_long_from [OF assms(1,2) _ assms(4) _ assms(6)] assms(3,5) by simp

theorem long_name_runs_into_text_witness:
  "\<exists>mem. fill_message ''alice'' ''hi'' demo_message = Inr mem \<and>
     show_record (rd (bytes_message mem)) = Inr [''FROM: alicehi'', ''CONTENT:'', ''hi'']"
proof -
  have m: "wf_message demo_message" using demo_wf(3) by (simp add: demo_stack_def)
  obtain mem where mem: "fill_message ''alice'' ''hi'' demo_message = Inr mem"
    using fill_message_ok [OF m, of "''alice''" "''hi''"] by simp
  show ?thesis
    using long_name_runs_into_text [OF m _ _ _ _ mem] mem by (simp add: is_word_def)
qed

text \<open>C11 (bounds). A text of 23 characters overwrites the slot number that the server sent: the
  \<open>!finish\<close> message names slot 0 whatever slot was reserved, so the post replaces slot 0 and the
  reserved slot stays marked.\<close>

theorem long_text_changes_slot:
  assumes "server_inv s k" and "wf_message m" and "pos m = int i" and "0 < i" and "i < RECORD_NUM"
    and "locked s ! i = 1" and "length frm \<le> 4" and "length content = 23"
    and "fill_message frm content m = Inr mem" and "wf_io send"
  shows "\<exists>s' k'. handle_finish (finish_io send mem) s k = Inr (s', k') \<and>
    slot_bytes 0 (board k') = take 25 mem \<and> slot_bytes i (board k') = slot_bytes i (board k) \<and>
    locked s' ! i = 1"
proof -
  have lm: "length mem = 32"
    using fill_message_ok [OF assms(2), of frm content] assms(2,7,8,9)
    by (simp add: length_message_bytes length_poke)
  note fin = finish_io_msg [OF assms(10) lm]
  have p: "pos (finish_msg (finish_io send mem)) = int 0"
    using fill_message_slot_lost [OF assms(2) _ _ assms(7-9)] assms(3,5) by (simp add: fin)
  have rb: "record_bytes (rd (bytes_message mem)) = take 25 mem"
    using lm by (simp add: bytes_message_def record_bytes_of_bytes)
  have len: "250 \<le> length (board k)" using assms(1) by (simp add: server_inv_def)
  show ?thesis
    using handle_finish_ok [OF p, of s k] assms(4-6) len lm
    by (simp add: fin rb slot_bytes_write_same [of _ 0, simplified]
        slot_bytes_write_other [of _ 0, simplified])
qed

theorem long_text_changes_slot_witness:
  "\<exists>mem s' k'. fill_message ''bob'' (replicate 23 CHR ''x'') (demo_message\<lparr>pos := 1\<rparr>) = Inr mem \<and>
     handle_finish (finish_io demo_io mem) demo_server demo_kernel = Inr (s', k') \<and>
     slot_bytes 0 (board k') = take 25 mem \<and> locked s' ! 1 = 1"
proof -
  let ?m = "demo_message\<lparr>pos := 1\<rparr>"
  have m: "wf_message ?m" using demo_wf(3) by (simp add: demo_stack_def wf_message_def int32_def)
  obtain mem where mem: "fill_message ''bob'' (replicate 23 CHR ''x'') ?m = Inr mem"
    using fill_message_ok [OF m, of "''bob''" "replicate 23 CHR ''x''"] by simp
  have "locked demo_server ! 1 = 1" by (simp add: demo_server_def)
  with long_text_changes_slot [OF demo_inv m _ _ _ _ _ _ mem demo_wf(1), of 1] mem
  show ?thesis by auto
qed

section \<open>A post that is overtaken\<close>

text \<open>C9 (safety). \<open>find_available\<close> gives the lock back before the \<open>!post\<close> handler takes it, and
  the handler does not look at the second result. If another server's whole post falls between the
  two, both servers hand out the same slot, and the overtaken one does so without the lock.\<close>

theorem overtaken_post_shares_slot:
  assumes "server_inv a k" and "server_inv b k" and "pid a \<noteq> pid b"
    and "next_free a (flocks k) = Some i" and "next_free b (flocks k) = Some i"
    and "post_find a k = (r, k1)" and "handle_post st c b k1 = (b', k2)"
    and "post_reply st c r a k2 = (a', k3)"
  shows "locked a' ! i = 1 \<and> locked b' ! i = 1 \<and> lastpos a' = lastpos b' \<and>
    slot_mine (flocks k3) (pid b) i \<and> \<not> slot_mine (flocks k3) (pid a) i"
proof -
  have i: "i < 10" "slot_free b (flocks k) i" using next_free_Some [OF assms(5)] by auto
  have a: "r = int i" "k1 = k" using assms(6) post_find_spec [OF assms(1)] assms(4) by simp_all
  have b': "b' = (send_io c (available_io st i) b)\<lparr>locked := (locked b)[i := 1], lastpos := int i\<rparr>"
    and k2: "k2 = k\<lparr>flocks := snd (slot_acquire (pid b) i (flocks k))\<rparr>"
    using assms(7) handle_post_slot [OF assms(2,5)] by (simp_all add: a)
  have mine: "slot_mine (flocks k2) (pid b) i"
    using i(2) by (simp add: k2 slot_free_def board_locks.acquire_mine)
  have "slot_busy (flocks k2) (pid a) i"
    using board_locks.mine_busy [OF mine assms(3)] .
  then have acq: "slot_acquire (pid a) i (flocks k2) = (- 1, flocks k2)"
    by (rule board_locks.probe_refused)
  have len: "length (locked a) = 10" "length (locked b) = 10"
    using assms(1,2) by (simp_all add: server_inv_def server_wf_def)
  have ca: "slot_clear (flocks k) (pid a) i"
    using assms(1) next_free_Some [OF assms(4)]
    by (auto simp: server_inv_def server_locks_def slot_free_def)
  then have "slot_clear (flocks k2) (pid a) i"
    using assms(3) by (simp add: k2 board_locks.acquire_clear_frame)
  then have "\<not> slot_mine (flocks k2) (pid a) i" using board_locks.mine_not_clear by blast
  moreover have "flocks k3 = flocks k2" "lastpos a' = int i" "locked a' = (locked a)[i := 1]"
    using assms(8) i(1) by (auto simp: post_reply_def a acq Let_def)
  ultimately show ?thesis using i(1) len mine by (simp add: b')
qed

definition demo_server2 :: server_state where
  "demo_server2 = demo_server\<lparr>pid := 2, locked := (replicate 10 0)\<rparr>"

theorem overtaken_post_shares_slot_witness:
  "\<exists>a' b' k1 k2 k3. post_find demo_server demo_kernel = (2, k1) \<and>
     handle_post demo_stack 5 demo_server2 k1 = (b', k2) \<and>
     post_reply demo_stack 5 2 demo_server k2 = (a', k3) \<and> locked a' ! 2 = 1 \<and> locked b' ! 2 = 1"
proof -
  have l2: "server_locks demo_server2 (flocks demo_kernel)" by code_simp
  have n2: "next_free demo_server2 (flocks demo_kernel) = Some 2" by code_simp
  have inv2: "server_inv demo_server2 demo_kernel"
    using demo_inv l2 by (simp add: server_inv_def server_wf_def demo_server2_def list_all_iff)
  have p: "pid demo_server \<noteq> pid demo_server2" by (simp add: demo_server_def demo_server2_def)
  have f: "post_find demo_server demo_kernel = (2, demo_kernel)" by (simp add: post_find_spec)
  obtain b' k2 where b: "handle_post demo_stack 5 demo_server2 demo_kernel = (b', k2)" by fastforce
  obtain a' k3 where a: "post_reply demo_stack 5 2 demo_server k2 = (a', k3)" by fastforce
  from overtaken_post_shares_slot [OF demo_inv inv2 p demo_next_free n2 f b a] f b a
  show ?thesis by blast
qed

section \<open>The client's port argument\<close>

text \<open>C12 (error). \<open>init_client\<close> started with the port \<open>v\<close> on the command line. It gets through exactly when
  \<open>v\<close> is not 0 and at most 65536 (so 65536 and every negative number are accepted) and the system calls
  succeed; otherwise the program exits. The port that is used is \<open>v\<close> modulo 65536, which is the number
  the user gave only for 1 to 65535.\<close>

theorem init_client_port:
  assumes "int32 v"
  shows "init_client [prog, addr, show_int v] env =
     (if v \<noteq> 0 \<and> v \<le> 65536 \<and> 0 \<le> cenv_socket env \<and> 0 < cenv_inet_pton env \<and> 0 \<le> cenv_connect env
      then Inr \<lparr>ip = addr, client_port = v mod 65536, client_fd = cenv_socket env\<rparr>
      else Inl (Program_Exit 1)) \<and>
    (\<forall>cl. init_client [prog, addr, show_int v] env = Inr cl \<longrightarrow>
       (client_port cl = v \<longleftrightarrow> 1 \<le> v \<and> v \<le> 65535))"
proof -
  have a: "atoi (show_int v) = v" using atoi_show_int [OF assms] .
  have "v mod 65536 = v \<longleftrightarrow> 1 \<le> v \<and> v \<le> 65535" if "v \<noteq> 0"
  proof
    assume "v mod 65536 = v"
    then have "0 \<le> v" "v < 65536"
      using pos_mod_sign [of 65536 v] pos_mod_bound [of 65536 v] by simp_all
    with that show "1 \<le> v \<and> v \<le> 65535" by simp
  qed simp
  then show ?thesis by (auto simp: init_client_def a)
qed

theorem init_client_port_witness:
  "(\<exists>cl. init_client [''client'', ''127.0.0.1'', ''-1''] \<lparr>cenv_socket = 3, cenv_inet_pton = 1, cenv_connect = 0\<rparr> =
      Inr cl \<and> client_port cl = 65535) \<and>
   (\<exists>cl. init_client [''client'', ''127.0.0.1'', ''65536''] \<lparr>cenv_socket = 3, cenv_inet_pton = 1, cenv_connect = 0\<rparr> =
      Inr cl \<and> client_port cl = 0) \<and>
   init_client [''client'', ''127.0.0.1'', ''65537''] \<lparr>cenv_socket = 3, cenv_inet_pton = 1, cenv_connect = 0\<rparr> =
     Inl (Program_Exit 1)"
proof -
  let ?env = "\<lparr>cenv_socket = 3, cenv_inet_pton = 1, cenv_connect = 0\<rparr>"
  have digits: "char_of (49::nat) = CHR ''1''" "char_of (51::nat) = CHR ''3''" "char_of (53::nat) = CHR ''5''"
    "char_of (54::nat) = CHR ''6''" "char_of (55::nat) = CHR ''7''" by code_simp+
  have shown: "show_int (- 1) = ''-1''" "show_int 65536 = ''65536''" "show_int 65537 = ''65537''"
    by (simp_all add: show_int_def show_nat.simps digits)
  have r: "int32 (- 1)" "int32 65536" "int32 65537" by (simp_all add: int32_def)
  note started = init_client_port [of _ "''client''" "''127.0.0.1''" ?env]
  from started [OF r(1)] started [OF r(2)] started [OF r(3)] show ?thesis by (simp add: shown)
qed

end
