(* ===== verification/Service_Types.thy ===== *)
theory Service_Types
  imports SP_Prelude "HOL-Library.Word"
begin

text \<open>
  The data of the service manager (\<open>HW2/service.c\<close>, \<open>HW2/util.h\<close>): the \<open>command\<close> struct that
  travels through the pipes, the \<open>child\<close> array entries, the globals of one process, and the tree
  of processes. The tree replaces the pipes: the process at the other end of \<open>child[i].read_fd\<close>
  and \<open>child[i].write_fd\<close> is the \<open>i\<close>-th subtree. The theory also holds the lines the program
  prints and the abstract view of the tree (names and secrets) that the specification is about.
\<close>

section \<open>The command struct\<close>

text \<open>\<open>char type[20]\<close>, \<open>char content[7][MAX_FIFO_NAME_LEN]\<close>, \<open>char cmd[MAX_CMD_LEN]\<close>.\<close>

record command =
  ctype :: bytes
  content :: "bytes list"
  cmd_line :: bytes

definition wf_command :: "command \<Rightarrow> bool" where
  "wf_command c \<longleftrightarrow> length (ctype c) = 20 \<and> length (content c) = 7 \<and>
     (\<forall>b\<in>set (content c). length b = 64) \<and> length (cmd_line c) = 128"

text \<open>\<open>command receive = {0}\<close>.\<close>

definition zero_command :: command where
  "zero_command = \<lparr>ctype = replicate 20 NUL, content = replicate 7 (replicate 64 NUL),
     cmd_line = replicate 128 NUL\<rparr>"

text \<open>The string in \<open>type\<close> and in \<open>content[i]\<close>, the \<open>int\<close> and the \<open>bool\<close> that \<open>memcpy\<close> reads
  from \<open>content[i]\<close>.\<close>

definition type_of :: "command \<Rightarrow> string" where
  "type_of c = cstr (ctype c)"

definition arg :: "nat \<Rightarrow> command \<Rightarrow> string" where
  "arg i c = cstr (content c ! i)"

definition line_of :: "command \<Rightarrow> string" where
  "line_of c = cstr (cmd_line c)"

definition get_int :: "nat \<Rightarrow> command \<Rightarrow> int" where
  "get_int i c = decode_int (content c ! i)"

definition get_bool :: "nat \<Rightarrow> command \<Rightarrow> bool" where
  "get_bool i c = (hd (content c ! i) \<noteq> NUL)"

text \<open>\<open>strcpy(c.type, t)\<close>, and \<open>memcpy\<close> of the bytes of a value to \<open>c.content[i]\<close>.\<close>

definition set_type :: "string \<Rightarrow> command \<Rightarrow> command" where
  "set_type t c = c\<lparr>ctype := strcpy t (ctype c)\<rparr>"

definition set_bytes :: "nat \<Rightarrow> bytes \<Rightarrow> command \<Rightarrow> command" where
  "set_bytes i bs c = c\<lparr>content := (content c)[i := poke 0 bs (content c ! i)]\<rparr>"

definition set_int :: "nat \<Rightarrow> int \<Rightarrow> command \<Rightarrow> command" where
  "set_int i v c = set_bytes i (encode_int v) c"

definition set_bool :: "nat \<Rightarrow> bool \<Rightarrow> command \<Rightarrow> command" where
  "set_bool i v c = set_bytes i [if v then CHR 0x01 else NUL] c"

subsection \<open>Lemmas on commands\<close>

lemma type_set_type [simp]: "is_word t \<Longrightarrow> type_of (set_type t c) = t"
  by (simp add: type_of_def set_type_def)

lemma set_type_frame [simp]:
  "arg i (set_type t c) = arg i c" "line_of (set_type t c) = line_of c"
  "get_int i (set_type t c) = get_int i c" "get_bool i (set_type t c) = get_bool i c"
  "content (set_type t c) = content c" "cmd_line (set_type t c) = cmd_line c"
  by (simp_all add: set_type_def arg_def line_of_def get_int_def get_bool_def)

lemma set_bytes_frame [simp]:
  "type_of (set_bytes i bs c) = type_of c" "line_of (set_bytes i bs c) = line_of c"
  "length (content (set_bytes i bs c)) = length (content c)"
  "j \<noteq> i \<Longrightarrow> content (set_bytes i bs c) ! j = content c ! j"
  "j \<noteq> i \<Longrightarrow> arg j (set_bytes i bs c) = arg j c"
  "j \<noteq> i \<Longrightarrow> get_int j (set_bytes i bs c) = get_int j c"
  "j \<noteq> i \<Longrightarrow> get_bool j (set_bytes i bs c) = get_bool j c"
  by (simp_all add: set_bytes_def type_of_def line_of_def arg_def get_int_def get_bool_def)

lemma set_int_frame [simp]:
  "type_of (set_int i v c) = type_of c" "line_of (set_int i v c) = line_of c"
  "length (content (set_int i v c)) = length (content c)"
  "j \<noteq> i \<Longrightarrow> arg j (set_int i v c) = arg j c"
  "j \<noteq> i \<Longrightarrow> get_int j (set_int i v c) = get_int j c"
  "j \<noteq> i \<Longrightarrow> get_bool j (set_int i v c) = get_bool j c"
  by (simp_all add: set_int_def)

lemma set_bool_frame [simp]:
  "type_of (set_bool i v c) = type_of c" "line_of (set_bool i v c) = line_of c"
  "length (content (set_bool i v c)) = length (content c)"
  "j \<noteq> i \<Longrightarrow> arg j (set_bool i v c) = arg j c"
  "j \<noteq> i \<Longrightarrow> get_int j (set_bool i v c) = get_int j c"
  "j \<noteq> i \<Longrightarrow> get_bool j (set_bool i v c) = get_bool j c"
  by (simp_all add: set_bool_def)

lemma poke_0: "poke 0 bs mem = bs @ drop (length bs) mem"
  by (simp add: poke_def)

lemma get_set_int [simp]: "i < length (content c) \<Longrightarrow> get_int i (set_int i v c) = wrap32 v"
  by (simp add: set_int_def set_bytes_def get_int_def poke_0)

lemma get_set_bool [simp]: "i < length (content c) \<Longrightarrow> get_bool i (set_bool i v c) = v"
  by (simp add: set_bool_def set_bytes_def get_bool_def poke_0)

lemma set_int_set_int [simp]: "set_int i v (set_int i w c) = set_int i v c"
  by (cases "i < length (content c)")
    (simp_all add: set_int_def set_bytes_def poke_0 list_update_beyond)

lemma wf_set_ctype [simp]: "wf_command c \<Longrightarrow> length t < 20 \<Longrightarrow> wf_command (set_type t c)"
  by (simp add: wf_command_def set_type_def length_strcpy)

lemma wf_set_bytes [simp]:
  assumes "wf_command c" "length bs \<le> 64"
  shows "wf_command (set_bytes i bs c)"
proof (cases "i < 7")
  case True
  with assms have "length (content c ! i) = 64" by (simp add: wf_command_def)
  with assms have "length (poke 0 bs (content c ! i)) = 64" by (simp add: length_poke)
  with assms show ?thesis
    by (auto simp: wf_command_def set_bytes_def dest!: subsetD [OF set_update_subset_insert])
next
  case False
  with assms show ?thesis by (simp add: wf_command_def set_bytes_def list_update_beyond)
qed

lemma wf_set_int [simp]: "wf_command c \<Longrightarrow> wf_command (set_int i v c)"
  by (simp add: set_int_def)

lemma wf_set_bool [simp]: "wf_command c \<Longrightarrow> wf_command (set_bool i v c)"
  by (simp add: set_bool_def)

lemma wf_length_content [simp]: "wf_command c \<Longrightarrow> length (content c) = 7"
  by (simp add: wf_command_def)

lemma wf_zero_command [simp]: "wf_command zero_command"
  by (simp add: wf_command_def zero_command_def)

section \<open>Processes\<close>

text \<open>The globals of a process. \<open>pipe_read[i]\<close> and \<open>pipe_write[i]\<close> (\<open>i\<close> is 0 or 1) are file
  descriptors or -1. The array \<open>name[2][50]\<close> is written by \<open>finds\<close> and read by nobody; it is left
  out.\<close>

record pstate =
  service_name :: string
  secret :: "64 word"
  pid :: int
  pipe_read :: "nat \<Rightarrow> int"
  pipe_write :: "nat \<Rightarrow> int"

text \<open>The struct \<open>service\<close> of \<open>util.h\<close>: one entry of the \<open>child\<close> array.\<close>

record service =
  svc_pid :: int
  read_fd :: int
  write_fd :: int
  svc_name :: string

text \<open>A process: the entry its parent has for it in \<open>child\<close> (at the root, the Manager, the entry
  has no meaning), its globals, and the processes of its own \<open>child\<close> array, in array order;
  \<open>num_child\<close> is the length of that list.\<close>

datatype proc = Proc (entry: service) (globals: pstate) (child: "proc list")

abbreviation name_of :: "proc \<Rightarrow> string" where
  "name_of p \<equiv> service_name (globals p)"

definition Manager :: string where
  "Manager = ''Manager''"

definition is_manager :: "pstate \<Rightarrow> bool" where
  "is_manager s \<longleftrightarrow> service_name s = Manager"

section \<open>What the program prints\<close>

definition print_spawned :: "string \<Rightarrow> int \<Rightarrow> 64 word \<Rightarrow> string" where
  "print_spawned n i v = n @ '' has been spawned, pid: '' @ show_int i @ '', secret: '' @
     show_nat (unat v)"

definition print_not_exist :: "string \<Rightarrow> string" where
  "print_not_exist n = n @ '' doesn'' @ [CHR 0x27] @ ''t exist''"

definition print_receive_command :: "string \<Rightarrow> string \<Rightarrow> string" where
  "print_receive_command n c = n @ '' has received '' @ c"

definition print_spawn :: "string \<Rightarrow> string \<Rightarrow> string" where
  "print_spawn p c = p @ '' has spawned a new service '' @ c"

definition print_kill :: "string \<Rightarrow> int \<Rightarrow> string" where
  "print_kill t n = t @ '' and '' @ show_int n @ '' child services are killed''"

definition print_acquire_secret :: "string \<Rightarrow> string \<Rightarrow> 64 word \<Rightarrow> string" where
  "print_acquire_secret a b v = a @ '' has acquired a new secret from '' @ b @ '', value: '' @
     show_nat (unat v)"

definition print_exchange :: "string \<Rightarrow> string \<Rightarrow> string" where
  "print_exchange a b = a @ '' and '' @ b @ '' have exchanged their secrets''"

section \<open>The abstract tree of services\<close>

text \<open>What the commands are meant to do, on a tree of names and secrets. A child is added to every
  node with the parent's name, the subtrees whose root has the target's name are cut out, two names
  exchange their secrets; none of them searches, counts or sends anything.\<close>

datatype stree = Service (sname: string) (ssecret: "64 word") (subs: "stree list")

fun abs_tree :: "proc \<Rightarrow> stree" where
  "abs_tree (Proc e s ks) = Service (service_name s) (secret s) (map abs_tree ks)"

fun preorder :: "stree \<Rightarrow> string list" where
  "preorder (Service n v ts) = n # concat (map preorder ts)"

fun add_leaf :: "string \<Rightarrow> stree \<Rightarrow> stree \<Rightarrow> stree" where
  "add_leaf n leaf (Service m v ts) =
     Service m v (map (add_leaf n leaf) ts @ (if m = n then [leaf] else []))"

fun prune :: "string \<Rightarrow> stree \<Rightarrow> stree" where
  "prune n (Service m v ts) = Service m v (map (prune n) (filter (\<lambda>t. sname t \<noteq> n) ts))"

fun services :: "stree \<Rightarrow> (string \<times> 64 word) list" where
  "services (Service n v ts) = (n, v) # concat (map services ts)"

definition secret_in :: "string \<Rightarrow> stree \<Rightarrow> 64 word option" where
  "secret_in n t = map_of (services t) n"

fun subtree :: "string \<Rightarrow> stree \<Rightarrow> stree list" where
  "subtree n (Service m v ts) =
     (if m = n then [Service m v ts] else concat (map (subtree n) ts))"

fun assign2 :: "string \<Rightarrow> 64 word \<Rightarrow> string \<Rightarrow> 64 word \<Rightarrow> stree \<Rightarrow> stree" where
  "assign2 a va b vb (Service m v ts) =
     Service m (if m = a then va else if m = b then vb else v) (map (assign2 a va b vb) ts)"

definition names :: "proc \<Rightarrow> string list" where
  "names p = preorder (abs_tree p)"

text \<open>The prefix of a list up to and including the first \<open>x\<close>; the prefix up to and including the
  element at which the number of \<open>a\<close>s and \<open>b\<close>s, counted from \<open>n\<close>, becomes two.\<close>

definition upto_first :: "'a \<Rightarrow> 'a list \<Rightarrow> 'a list" where
  "upto_first x xs = takeWhile (\<lambda>y. y \<noteq> x) xs @ (if x \<in> set xs then [x] else [])"

fun upto_both :: "'a \<Rightarrow> 'a \<Rightarrow> int \<Rightarrow> 'a list \<Rightarrow> 'a list" where
  "upto_both a b n [] = []"
| "upto_both a b n (x # xs) =
     x # (let m = (if x = a \<or> x = b then n + 1 else n) in
          if m = 2 then [] else upto_both a b m xs)"

lemma upto_first_Cons [simp]:
  "upto_first x (y # ys) = (if y = x then [x] else y # upto_first x ys)"
  by (simp add: upto_first_def)

lemma upto_first_Nil [simp]: "upto_first x [] = []"
  by (simp add: upto_first_def)

lemma upto_first_append:
  "upto_first x (xs @ ys) = (if x \<in> set xs then upto_first x xs else xs @ upto_first x ys)"
  by (induction xs) auto

lemma upto_first_id: "x \<notin> set xs \<Longrightarrow> upto_first x xs = xs"
  by (induction xs) auto

lemma names_Proc [simp]: "names (Proc e s ks) = service_name s # concat (map names ks)"
proof -
  have "map preorder (map abs_tree ks) = map names ks" by (simp add: names_def)
  then show ?thesis by (simp only: names_def abs_tree.simps preorder.simps)
qed

lemma sname_in_preorder [simp]: "sname t \<in> set (preorder t)"
  by (cases t) simp

lemma sname_abs_tree [simp]: "sname (abs_tree p) = name_of p"
  by (cases p) simp

lemma name_of_in_names [simp]: "name_of p \<in> set (names p)"
  by (cases p) simp

end
