(* ===== verification/Service_Ops.thy ===== *)
theory Service_Ops
  imports Service_Types
begin

text \<open>
  The operations of \<open>HW2/service.c\<close>. A process that writes a command to a child and reads the
  reply is blocked until the child has served the command, so the pair of calls is one recursive
  call on the subtree; what the subtree prints comes between the two. Every handler starts where
  \<open>main\<close> does after \<open>read_and_split\<close>, with the line \<open>main\<close> prints for the command (\<open>announce\<close>),
  and returns the process afterwards, the reply and the printed lines.

  What the program takes from outside is in \<open>svc_env\<close>: the process ids \<open>fork\<close> returns, the value
  \<open>rand\<close> returns after \<open>srand(pid)\<close>, and the contents of the two \<open>command\<close> variables that
  \<open>suicide\<close> sends without having initialised them.
\<close>

record svc_env =
  fork_pid :: "nat \<Rightarrow> int"
  rand_of :: "int \<Rightarrow> 64 word"
  junk_child :: "int \<Rightarrow> command"
  junk_parent :: "int \<Rightarrow> command"

section \<open>Reading a command\<close>

text \<open>\<open>scanf("%s")\<close> into an array of a command: at the end of the input the array is unchanged.\<close>

fun scan_type :: "string list \<Rightarrow> command \<Rightarrow> (command \<times> string list) result" where
  "scan_type [] c = Inr (c, [])"
| "scan_type (w # ws) c =
     (if length w < 20 then Inr (set_type w c, ws) else Inl Buffer_Overflow)"

fun scan_content :: "nat \<Rightarrow> string list \<Rightarrow> command \<Rightarrow> (command \<times> string list) result" where
  "scan_content i [] c = Inr (c, [])"
| "scan_content i (w # ws) c =
     (if length w < 64 then Inr (set_bytes i (w @ [NUL]) c, ws) else Inl Buffer_Overflow)"

text \<open>\<open>sprintf(receive.cmd, ...)\<close>.\<close>

definition sprintf_cmd :: "string \<Rightarrow> command \<Rightarrow> command result" where
  "sprintf_cmd s c =
     (if length s < 128 then Inr (c\<lparr>cmd_line := strcpy s (cmd_line c)\<rparr>) else Inl Buffer_Overflow)"

text \<open>The Manager's branch of \<open>read_and_split\<close>; any other process reads the command from its pipe
  as it was written.\<close>

definition read_and_split :: "string list \<Rightarrow> (command \<times> string list) result" where
  "read_and_split ws =
     (case scan_type ws zero_command of
        Inl f \<Rightarrow> Inl f
      | Inr (c, ws1) \<Rightarrow>
          if type_of c = ''spawn'' \<or> type_of c = ''exchange'' then
            (case scan_content 0 ws1 c of
               Inl f \<Rightarrow> Inl f
             | Inr (c1, ws2) \<Rightarrow>
                 (case scan_content 1 ws2 c1 of
                    Inl f \<Rightarrow> Inl f
                  | Inr (c2, ws3) \<Rightarrow>
                      (case sprintf_cmd (type_of c2 @ '' '' @ arg 0 c2 @ '' '' @ arg 1 c2) c2 of
                         Inl f \<Rightarrow> Inl f
                       | Inr c3 \<Rightarrow> Inr (c3, ws3))))
          else if type_of c = ''kill'' then
            (case scan_content 0 ws1 c of
               Inl f \<Rightarrow> Inl f
             | Inr (c1, ws2) \<Rightarrow>
                 (case sprintf_cmd (type_of c1 @ '' '' @ arg 0 c1) c1 of
                    Inl f \<Rightarrow> Inl f
                  | Inr c2 \<Rightarrow> Inr (c2, ws2)))
          else Inr (c, ws1))"

text \<open>The first lines of the loop in \<open>main\<close>: which commands a process reports.\<close>

definition announce :: "command \<Rightarrow> pstate \<Rightarrow> string list" where
  "announce c s =
     (if type_of c \<noteq> ''start_exchange'' \<and> type_of c \<noteq> ''suicide'' \<and> type_of c \<noteq> ''exchange'' then
        [print_receive_command (service_name s) (line_of c)]
      else if type_of c = ''suicide'' \<and> service_name s = arg 0 c then
        [print_receive_command (service_name s) (line_of c)]
      else if type_of c = ''exchange'' \<and> (get_bool 5 c \<or> is_manager s) then
        [print_receive_command (service_name s) (line_of c)]
      else [])"

section \<open>Spawning\<close>

text \<open>The descriptors a process has open: the standard three, the two pipe ends to its parent, and
  two for each child. \<open>pipe2\<close> takes the lowest numbers that are free.\<close>

definition child_fds :: "proc list \<Rightarrow> int list" where
  "child_fds ks = concat (map (\<lambda>k. [read_fd (entry k), write_fd (entry k)]) ks)"

definition open_fds :: "pstate \<Rightarrow> proc list \<Rightarrow> int list" where
  "open_fds s ks = [0, 1, 2] @ (if is_manager s then [] else [3, 4]) @ child_fds ks"

definition lowest_fd :: "int list \<Rightarrow> int" where
  "lowest_fd used = hd (filter (\<lambda>i. i \<notin> set used) (map int [0..<Suc (length used)]))"

text \<open>What \<open>main\<close> does before its loop in the new process: the globals and the line it prints.\<close>

definition start_process :: "svc_env \<Rightarrow> int \<Rightarrow> string \<Rightarrow> pstate" where
  "start_process env i n = \<lparr>service_name = n, secret = rand_of env i, pid = i,
     pipe_read = (\<lambda>_. -1), pipe_write = (\<lambda>_. -1)\<rparr>"

definition start_line :: "pstate \<Rightarrow> string" where
  "start_line s = print_spawned (service_name s) (pid s) (secret s)"

text \<open>
  \<open>spawns\<close> and the \<open>read\<close> of the child's first message that follows it in \<open>main\<close>. The parent keeps
  the read end of the first pipe and the write end of the second. Entry 40 of \<open>child\<close> and a name of
  16 characters do not fit. A child called Manager takes itself for the Manager: it does not
  write the message and reads commands from standard input, and the \<open>read\<close> returns (without a message) only
  when that child ends. The model does not follow the program there.
\<close>

definition spawns :: "svc_env \<Rightarrow> int \<Rightarrow> string \<Rightarrow> pstate \<Rightarrow> proc list \<Rightarrow> (proc list \<times> string) result" where
  "spawns env cpid n s ks =
     (let used = open_fds s ks;
          pr = lowest_fd used;
          pw = lowest_fd (pr # used);
          cr = lowest_fd (pw # pr # used);
          cw = lowest_fd (cr # pw # pr # used);
          st = start_process env cpid n;
          e = \<lparr>svc_pid = cpid, read_fd = pr, write_fd = cw, svc_name = n\<rparr>
      in if 40 \<le> length ks then Inl Index_Out_Of_Bounds
         else if 16 \<le> length n then Inl Buffer_Overflow
         else if is_manager st then Inl Input_Taken
         else Inr (ks @ [Proc e st []], start_line st))"

text \<open>The spawn branch of \<open>main\<close>. \<open>rt\<close> is the string in \<open>receive_child.type\<close> at the end of the
  branch; the reply is \<open>send_parent.type\<close>, the only part of it that the parent reads.\<close>

definition spawn_report :: "command \<Rightarrow> pstate \<Rightarrow> proc list \<Rightarrow> string \<Rightarrow> string list" where
  "spawn_report c s ks rt =
     (let rt' = (if ks = [] then ''spawn_failed'' else rt) in
      if is_manager s \<and> rt' = ''spawn_failed'' then [print_not_exist (arg 0 c)]
      else if is_manager s \<and> rt' = ''spawn_success'' then [print_spawn (arg 0 c) (arg 1 c)]
      else [])"

fun spawn_branch :: "svc_env \<Rightarrow> int \<Rightarrow> command \<Rightarrow> proc \<Rightarrow> (proc \<times> string \<times> string list) result"
  and spawn_loop :: "svc_env \<Rightarrow> int \<Rightarrow> command \<Rightarrow> string \<Rightarrow> proc list \<Rightarrow>
        (proc list \<times> bool \<times> string \<times> string list) result" where
  "spawn_branch env cpid c (Proc e s ks) =
     (if arg 0 c = service_name s then
        (case spawns env cpid (arg 1 c) s ks of
           Inl f \<Rightarrow> Inl f
         | Inr (ks', l) \<Rightarrow>
             Inr (Proc e s ks', ''spawn_success'',
                  announce c s @ [l] @ spawn_report c s ks' ''spawn_success''))
      else
        (case spawn_loop env cpid c [] ks of
           Inl f \<Rightarrow> Inl f
         | Inr (ks', success, rt, ls) \<Rightarrow>
             Inr (Proc e s ks', if success then ''spawn_success'' else ''spawn_failed'',
                  announce c s @ ls @ spawn_report c s ks' rt)))"
| "spawn_loop env cpid c rt [] = Inr ([], False, rt, [])"
| "spawn_loop env cpid c rt (k # ks) =
     (case spawn_branch env cpid c k of
        Inl f \<Rightarrow> Inl f
      | Inr (k', rt', ls) \<Rightarrow>
          if rt' = ''spawn_success'' then Inr (k' # ks, True, rt', ls)
          else
            (case spawn_loop env cpid c rt' ks of
               Inl f \<Rightarrow> Inl f
             | Inr (ks', success, rt'', ls') \<Rightarrow> Inr (k' # ks', success, rt'', ls @ ls')))"

section \<open>Killing\<close>

text \<open>\<open>suicide\<close>: the children first, one after the other, then the process itself. The reply counts
  the processes of the subtree in \<open>content[2]\<close>.\<close>

fun suicide :: "svc_env \<Rightarrow> proc \<Rightarrow> command \<times> string list"
  and suicide_loop :: "svc_env \<Rightarrow> pstate \<Rightarrow> int \<Rightarrow> proc list \<Rightarrow> int \<times> string list" where
  "suicide env (Proc e s ks) =
     (let (num_killed, ls) = suicide_loop env s 1 ks;
          send_parent = set_int 2 num_killed (set_type ''suicide_success'' (junk_parent env (pid s)))
      in if \<not> is_manager s then (send_parent, ls)
         else (send_parent, ls @ [print_kill (service_name s) (num_killed - 1)]))"
| "suicide_loop env s num_killed [] = (num_killed, [])"
| "suicide_loop env s num_killed (k # ks) =
     (let send_child = set_type ''suicide'' (junk_child env (pid s));
          (receive_child, ls) = suicide env k;
          (n, ls') = suicide_loop env s (wrap32 (num_killed + get_int 2 receive_child)) ks
      in (n, announce send_child (globals k) @ ls @ ls'))"

text \<open>The kill branch of \<open>main\<close>. A process that is itself the target exits. In the loop, the entry
  of a killed child is removed from the array; a child that was asked to search has the target's
  name only if its entry had it too.\<close>

fun kill_branch :: "svc_env \<Rightarrow> command \<Rightarrow> proc \<Rightarrow> proc option \<times> command \<times> string list"
  and kill_loop :: "svc_env \<Rightarrow> command \<Rightarrow> command \<Rightarrow> proc list \<Rightarrow>
        proc list \<times> bool \<times> command \<times> string list" where
  "kill_branch env c (Proc e s ks) =
     (if service_name s = arg 0 c then
        (let (r, ls) = suicide env (Proc e s ks) in (None, r, announce c s @ ls))
      else
        (let (ks', success, receive_child, ls) = kill_loop env c (set_type ''kill_failed'' c) ks;
             send_parent = set_type (if success then ''kill_success'' else ''kill_failed'') receive_child;
             report = (if \<not> is_manager s then []
                       else if type_of receive_child = ''kill_failed'' then [print_not_exist (arg 0 c)]
                       else [print_kill (arg 0 c) (get_int 2 receive_child - 1)])
         in (Some (Proc e s ks'), send_parent, announce c s @ ls @ report)))"
| "kill_loop env c receive_child [] = ([], False, receive_child, [])"
| "kill_loop env c receive_child (k # ks) =
     (if arg 0 c = svc_name (entry k) then
        (let (r, ls) = suicide env k in (ks, True, r, announce (set_type ''suicide'' c) (globals k) @ ls))
      else
        (let (k', r, ls) = kill_branch env c k;
             k'' = (case k' of None \<Rightarrow> [] | Some q \<Rightarrow> [q])
         in if type_of r = ''kill_success'' then (k'' @ ks, True, r, ls)
            else
              (let (ks', success, r', ls') = kill_loop env c r ks
               in (k'' @ ks', success, r', ls @ ls'))))"

section \<open>Exchanging secrets\<close>

text \<open>\<open>traverse\<close> and its loop: the depth-first walk that stops when both services have been seen. A
  child prints the command it received (\<open>main\<close>) and then traverses.\<close>

fun traverse :: "command \<Rightarrow> proc \<Rightarrow> command \<times> string list"
  and traverse_loop :: "command \<Rightarrow> command \<Rightarrow> proc list \<Rightarrow> command \<times> string list" where
  "traverse c (Proc e s ks) =
     (let cnt = (if arg 0 c = service_name s \<or> arg 1 c = service_name s
                 then wrap32 (get_int 6 c + 1) else get_int 6 c)
      in if cnt = 2 then (set_type ''exchange_success'' c, [])
         else traverse_loop (set_int 6 cnt c) (set_int 6 cnt c) ks)"
| "traverse_loop send_child receive_child [] = (receive_child, [])"
| "traverse_loop send_child receive_child (k # ks) =
     (let (r, ls) = traverse send_child k;
          ls1 = announce send_child (globals k) @ ls
      in if type_of r = ''exchange_success'' then (r, ls1)
         else (let (r', ls') = traverse_loop r r ks in (r', ls1 @ ls')))"

text \<open>\<open>finds\<close>: the search for \<open>content[index]\<close> that leaves, in every process on the way down, the
  descriptors of the next one in \<open>pipe_read[index]\<close> and \<open>pipe_write[index]\<close>. A child takes the
  index from \<open>content[4]\<close>.\<close>

definition set_pipe :: "nat \<Rightarrow> service \<Rightarrow> pstate \<Rightarrow> pstate" where
  "set_pipe i e s = s\<lparr>pipe_read := (pipe_read s)(i := read_fd e),
     pipe_write := (pipe_write s)(i := write_fd e)\<rparr>"

fun finds :: "command \<Rightarrow> nat \<Rightarrow> proc \<Rightarrow> proc \<times> command \<times> string list"
  and finds_loop :: "command \<Rightarrow> command \<Rightarrow> proc list \<Rightarrow>
        proc list \<times> service option \<times> command \<times> string list" where
  "finds c0 index (Proc e s ks) =
     (let c = set_int 4 (int index) c0 in
      if service_name s = arg index c then (Proc e s ks, set_type ''find_success'' c, [])
      else
        (case finds_loop c c ks of
           (ks', Some hit, send_parent, ls) \<Rightarrow>
             (Proc e (set_pipe index hit s) ks', set_type ''find_success'' send_parent, ls)
         | (ks', None, send_parent, ls) \<Rightarrow>
             (Proc e s ks', set_type ''find_failed'' send_parent, ls)))"
| "finds_loop send_child send_parent [] = ([], None, send_parent, [])"
| "finds_loop send_child send_parent (k # ks) =
     (let sc = set_type ''exchange'' send_child;
          (k', r, ls) = finds sc (nat (get_int 4 sc)) k;
          ls1 = announce sc (globals k) @ ls
      in if type_of r = ''find_success'' then (k' # ks, Some (entry k), send_parent, ls1)
         else
           (let (ks', hit, sp, ls') = finds_loop r r ks in (k' # ks', hit, sp, ls1 @ ls')))"

text \<open>
  \<open>exchanges\<close>: the process named \<open>content[0]\<close> takes the first role, the one named \<open>content[1]\<close>
  the second, any other returns at once. \<open>(va, vb)\<close> are the values that the \<open>read\<close>s of the two
  roles deliver; a call is recorded with its role, the caller's name and the secret the caller writes to its FIFO.
  The theory \<open>Service_Rendezvous\<close> models the calls on the FIFOs and shows what the values are.
\<close>

datatype role = First | Second

type_synonym call = "role \<times> string \<times> 64 word"

definition exchanges :: "64 word \<times> 64 word \<Rightarrow> command \<Rightarrow> pstate \<Rightarrow> pstate \<times> call list" where
  "exchanges v c s =
     (if arg 0 c = service_name s then (s\<lparr>secret := fst v\<rparr>, [(First, service_name s, secret s)])
      else if arg 1 c = service_name s then (s\<lparr>secret := snd v\<rparr>, [(Second, service_name s, secret s)])
      else (s, []))"

definition reset_pipes :: "pstate \<Rightarrow> pstate" where
  "reset_pipes s = s\<lparr>pipe_read := (\<lambda>_. -1), pipe_write := (\<lambda>_. -1)\<rparr>"

text \<open>The start_exchange branch of \<open>main\<close>; \<open>deliver\<close> writes the command to one or two descriptors.
  A write reaches the child that has the descriptor as \<open>write_fd\<close>, and nobody if there is none; the
  children that are reached run in parallel. The replies are not looked at; the reads that wait for
  them return when the exchange is over.\<close>

fun start_exchange :: "64 word \<times> 64 word \<Rightarrow> command \<Rightarrow> proc \<Rightarrow> proc \<times> call list"
  and deliver :: "64 word \<times> 64 word \<Rightarrow> int list \<Rightarrow> command \<Rightarrow> proc list \<Rightarrow> proc list \<times> call list" where
  "start_exchange v c (Proc e s ks) =
     (let (s', ks', calls) =
        (if pipe_read s 0 = -1 \<and> pipe_read s 1 = -1 then
           (let (s', cs) = exchanges v c s in (s', ks, cs))
         else if arg 0 c = service_name s then
           (let (ks', cs) = deliver v [pipe_write s 1] c ks; (s', cs') = exchanges v c s in (s', ks', cs @ cs'))
         else if arg 1 c = service_name s then
           (let (ks', cs) = deliver v [pipe_write s 0] c ks; (s', cs') = exchanges v c s in (s', ks', cs @ cs'))
         else if pipe_read s 0 \<noteq> -1 \<and> pipe_read s 1 \<noteq> -1 \<and> pipe_read s 0 \<noteq> pipe_read s 1 then
           (let (ks', cs) = deliver v [pipe_write s 0, pipe_write s 1] c ks in (s, ks', cs))
         else if pipe_read s 0 \<noteq> -1 \<and> pipe_read s 1 \<noteq> -1 \<and> pipe_read s 0 = pipe_read s 1 then
           (let (ks', cs) = deliver v [pipe_write s 0] c ks in (s, ks', cs))
         else if pipe_read s 0 \<noteq> -1 then
           (let (ks', cs) = deliver v [pipe_write s 0] c ks in (s, ks', cs))
         else
           (let (ks', cs) = deliver v [pipe_write s 1] c ks in (s, ks', cs)))
      in (Proc e (reset_pipes s') ks', calls))"
| "deliver v fds c [] = ([], [])"
| "deliver v fds c (k # ks) =
     (let (ks', cs) = deliver v fds c ks in
      if write_fd (entry k) \<in> set fds then
        (let (k', cs') = start_exchange v c k in (k' # ks', cs' @ cs))
      else (k # ks', cs))"

text \<open>The FIFO names and flags the Manager puts into the command.\<close>

definition fifo_name :: "string \<Rightarrow> string \<Rightarrow> string" where
  "fifo_name a b = a @ ''_to_'' @ b @ ''.fifo''"

definition exchange_request :: "command \<Rightarrow> command result" where
  "exchange_request c =
     (let fifo1 = fifo_name (arg 0 c) (arg 1 c); fifo2 = fifo_name (arg 1 c) (arg 0 c) in
      if length fifo1 < 64 \<and> length fifo2 < 64 then
        Inr (set_bytes 6 [NUL] (set_bool 5 True
              (set_bytes 3 (fifo2 @ [NUL]) (set_bytes 2 (fifo1 @ [NUL]) c))))
      else Inl Buffer_Overflow)"

text \<open>The messages of the Manager's exchange branch after the two searches, with the calls of
  \<open>exchanges\<close> they lead to.\<close>

definition manager_exchange :: "64 word \<times> 64 word \<Rightarrow> command \<Rightarrow> proc \<Rightarrow> proc \<times> call list" where
  "manager_exchange v c p =
     (let send_child = set_type ''start_exchange'' c in
      if name_of p = arg 0 c then
        (case finds c 1 p of
           (Proc e s ks, _) \<Rightarrow>
             (let (ks', cs) = deliver v [pipe_write s 1] send_child ks; (s', cs') = exchanges v c s
              in (Proc e s' ks', cs @ cs')))
      else if name_of p = arg 1 c then
        (case finds c 0 p of
           (Proc e s ks, _) \<Rightarrow>
             (let (ks', cs) = deliver v [pipe_write s 0] send_child ks; (s', cs') = exchanges v c s
              in (Proc e s' ks', cs @ cs')))
      else
        (case finds c 1 (fst (finds c 0 p)) of
           (Proc e s ks, _) \<Rightarrow>
             if pipe_write s 0 = pipe_write s 1 then
               (let (ks', cs) = deliver v [pipe_write s 0] send_child ks in (Proc e s ks', cs))
             else
               (let (ks', cs) = deliver v [pipe_write s 0, pipe_write s 1] send_child ks
                in (Proc e s ks', cs))))"

text \<open>The lines the searches print.\<close>

definition search_lines :: "command \<Rightarrow> proc \<Rightarrow> string list" where
  "search_lines c p =
     (if name_of p = arg 0 c then snd (snd (finds c 1 p))
      else if name_of p = arg 1 c then snd (snd (finds c 0 p))
      else snd (snd (finds c 0 p)) @ snd (snd (finds c 1 (fst (finds c 0 p)))))"

text \<open>What the FIFOs deliver to the two roles, given the calls: each role reads what the other one
  wrote. With no call at all nothing is waited for; with one role missing the other waits
  for ever.\<close>

definition fifo_values :: "call list \<Rightarrow> (64 word \<times> 64 word) option" where
  "fifo_values cs =
     (case (map_of cs First, map_of cs Second) of
        (Some (a, va), Some (b, vb)) \<Rightarrow> Some (vb, va)
      | (None, None) \<Rightarrow> Some (0, 0)
      | _ \<Rightarrow> None)"

definition acquire_lines :: "command \<Rightarrow> call list \<Rightarrow> string list" where
  "acquire_lines c cs =
     (case (map_of cs First, map_of cs Second) of
        (Some (a, va), Some (b, vb)) \<Rightarrow>
          [print_acquire_secret a (arg 1 c) vb, print_acquire_secret b (arg 0 c) va]
      | _ \<Rightarrow> [])"

definition reset_root :: "proc \<Rightarrow> proc" where
  "reset_root p = Proc (entry p) (reset_pipes (globals p)) (child p)"

text \<open>The Manager's exchange branch.\<close>

definition exchange_branch :: "command \<Rightarrow> proc \<Rightarrow> (proc \<times> string list) result" where
  "exchange_branch c p =
     (case exchange_request c of
        Inl f \<Rightarrow> Inl f
      | Inr c1 \<Rightarrow>
          (let ls = snd (traverse c1 p);
               c2 = set_bool 5 False c1;
               calls = snd (manager_exchange (0, 0) c2 p)
           in case fifo_values calls of
                None \<Rightarrow> Inl Blocked
              | Some v \<Rightarrow>
                  Inr (reset_root (fst (manager_exchange v c2 p)),
                       announce c (globals p) @ ls @ search_lines c2 p @ acquire_lines c2 calls @
                       [print_exchange (arg 0 c) (arg 1 c)])))"

section \<open>The Manager's loop\<close>

text \<open>The \<open>n\<close>-th iteration of the loop of \<open>main\<close> in the Manager, with \<open>fork_pid env n\<close> the result of
  a \<open>fork\<close> in it: \<open>None\<close> when the process ends.\<close>

definition serve :: "svc_env \<Rightarrow> nat \<Rightarrow> command \<Rightarrow> proc \<Rightarrow> (proc option \<times> string list) result" where
  "serve env n c p =
     (if line_of c = [] \<and> type_of c = [] then Inr (None, [])
      else if type_of c = ''spawn'' then
        (case spawn_branch env (fork_pid env n) c p of
           Inl f \<Rightarrow> Inl f
         | Inr (p', _, ls) \<Rightarrow> Inr (Some p', ls))
      else if type_of c = ''kill'' then
        (let (p', _, ls) = kill_branch env c p in Inr (p', ls))
      else if type_of c = ''suicide'' then
        Inr (None, announce c (globals p) @ snd (suicide env p))
      else if type_of c = ''exchange'' then
        (case exchange_branch c p of
           Inl f \<Rightarrow> Inl f
         | Inr (p', ls) \<Rightarrow> Inr (Some p', ls))
      else if type_of c = ''start_exchange'' then
        (let (p', calls) = start_exchange (0, 0) c p in
         if fifo_values calls = None then Inl Blocked else Inr (Some p', announce c (globals p)))
      else Inr (Some p, announce c (globals p)))"

lemma read_and_split_consumes:
  "read_and_split (w # ws) = Inr (c, ws') \<Longrightarrow> length ws' < length (w # ws)"
proof -
  have scan: "scan_content i xs d = Inr (d', ys) \<Longrightarrow> length ys \<le> length xs" for i xs d d' ys
    by (cases xs) (auto split: if_splits)
  assume "read_and_split (w # ws) = Inr (c, ws')"
  then show ?thesis
    by (fastforce simp: read_and_split_def split: if_splits sum.splits prod.splits dest: scan)
qed

text \<open>The loop: it ends at the end of the input, when the Manager is killed, or in a fault. The
  outcome holds the tree that is left when the input ends and everything printed.\<close>

function manager_loop :: "svc_env \<Rightarrow> nat \<Rightarrow> string list \<Rightarrow> proc \<Rightarrow> (proc option \<times> string list) result" where
  "manager_loop env n [] p =
     (case read_and_split [] of Inl f \<Rightarrow> Inl f | Inr (c, _) \<Rightarrow>
        (case serve env n c p of Inl f \<Rightarrow> Inl f | Inr (_, ls) \<Rightarrow> Inr (Some p, ls)))"
| "manager_loop env n (w # ws) p =
     (case read_and_split (w # ws) of
        Inl f \<Rightarrow> Inl f
      | Inr (c, ws') \<Rightarrow>
          (case serve env n c p of
             Inl f \<Rightarrow> Inl f
           | Inr (None, ls) \<Rightarrow> Inr (None, ls)
           | Inr (Some p', ls) \<Rightarrow>
               (case manager_loop env (Suc n) ws' p' of
                  Inl f \<Rightarrow> Inl f
                | Inr (r, ls') \<Rightarrow> Inr (r, ls @ ls'))))"
  by pat_completeness auto
termination
  by (relation "measure (\<lambda>(env, n, ws, p). length ws)") (auto dest: read_and_split_consumes)

definition start_manager :: "svc_env \<Rightarrow> int \<Rightarrow> proc" where
  "start_manager env i =
     Proc \<lparr>svc_pid = 0, read_fd = -1, write_fd = -1, svc_name = Manager\<rparr> (start_process env i Manager) []"

definition service_main :: "svc_env \<Rightarrow> int \<Rightarrow> string list \<Rightarrow> (proc option \<times> string list) result" where
  "service_main env i ws =
     (case manager_loop env 0 ws (start_manager env i) of
        Inl f \<Rightarrow> Inl f
      | Inr (r, ls) \<Rightarrow> Inr (r, start_line (globals (start_manager env i)) # ls))"

end
