(* ===== verification/Service_Correct.thy ===== *)
theory Service_Correct
  imports Service_Ops
begin

text \<open>
  The invariant of the process tree and the correctness of the handlers of \<open>Service_Ops\<close> below the
  Manager: spawning refines \<open>add_leaf\<close>, killing refines \<open>prune\<close> and counts the subtree, the
  depth-first walk reports a prefix of the preorder, the searches mark the two paths, and the
  messages of an exchange reach exactly the two services.
\<close>

section \<open>The invariant\<close>

text \<open>Between two commands no process has a path marked, the descriptors of the children of a
  process are different and not negative, an entry of \<open>child\<close> has the name of the process behind it, no process but
  the root is called Manager, and names and children fit their arrays.\<close>

fun wf_proc :: "proc \<Rightarrow> bool" where
  "wf_proc (Proc e s ks) \<longleftrightarrow>
     pipe_read s = (\<lambda>_. -1) \<and> pipe_write s = (\<lambda>_. -1) \<and>
     length ks \<le> 40 \<and> distinct (child_fds ks) \<and> (\<forall>fd\<in>set (child_fds ks). 0 \<le> fd) \<and>
     (\<forall>k\<in>set ks. svc_name (entry k) = name_of k \<and> name_of k \<noteq> Manager \<and>
        length (name_of k) < 16 \<and> wf_proc k)"

definition manager_tree :: "proc \<Rightarrow> bool" where
  "manager_tree p \<longleftrightarrow> wf_proc p \<and> name_of p = Manager"

text \<open>No process has used its whole \<open>child\<close> array.\<close>

fun has_room :: "proc \<Rightarrow> bool" where
  "has_room (Proc e s ks) \<longleftrightarrow> length ks < 40 \<and> (\<forall>k\<in>set ks. has_room k)"

definition below_manager :: "proc \<Rightarrow> bool" where
  "below_manager p \<longleftrightarrow> wf_proc p \<and> svc_name (entry p) = name_of p \<and> name_of p \<noteq> Manager \<and>
     length (name_of p) < 16"

lemma below_manager_Proc:
  "below_manager (Proc e s ks) \<longleftrightarrow>
     svc_name e = service_name s \<and> service_name s \<noteq> Manager \<and> length (service_name s) < 16 \<and>
     pipe_read s = (\<lambda>_. -1) \<and> pipe_write s = (\<lambda>_. -1) \<and>
     length ks \<le> 40 \<and> distinct (child_fds ks) \<and> (\<forall>fd\<in>set (child_fds ks). 0 \<le> fd) \<and>
     (\<forall>k\<in>set ks. below_manager k)"
  by (auto simp: below_manager_def)

lemma wf_proc_iff:
  "wf_proc (Proc e s ks) \<longleftrightarrow>
     pipe_read s = (\<lambda>_. -1) \<and> pipe_write s = (\<lambda>_. -1) \<and>
     length ks \<le> 40 \<and> distinct (child_fds ks) \<and> (\<forall>fd\<in>set (child_fds ks). 0 \<le> fd) \<and>
     (\<forall>k\<in>set ks. below_manager k)"
  by (auto simp: below_manager_def)

abbreviation forest_names :: "proc list \<Rightarrow> string list" where
  "forest_names ks \<equiv> concat (map names ks)"

text \<open>The lines with which the named services report the command.\<close>

definition reports :: "command \<Rightarrow> string list \<Rightarrow> string list" where
  "reports c ns = map (\<lambda>n. print_receive_command n (line_of c)) ns"

lemma reports_simps [simp]:
  "reports c [] = []" "reports c (n # ns) = print_receive_command n (line_of c) # reports c ns"
  "reports c (ns @ ms) = reports c ns @ reports c ms"
  by (simp_all add: reports_def)

lemma announce_plain [simp]:
  "type_of c = ''spawn'' \<or> type_of c = ''kill'' \<Longrightarrow>
   announce c s = [print_receive_command (service_name s) (line_of c)]"
  by (auto simp: announce_def)

section \<open>Descriptors\<close>

lemma lowest_fd_fresh: "lowest_fd used \<notin> set used \<and> 0 \<le> lowest_fd used"
proof -
  let ?xs = "filter (\<lambda>i. i \<notin> set used) (map int [0..<Suc (length used)])"
  have "\<not> int ` {0..<Suc (length used)} \<subseteq> set used"
  proof
    assume "int ` {0..<Suc (length used)} \<subseteq> set used"
    then have "card (int ` {0..<Suc (length used)}) \<le> card (set used)"
      by (intro card_mono) auto
    then show False using card_length [of used] by (simp add: card_image)
  qed
  then have "\<exists>n\<in>{0..<Suc (length used)}. int n \<notin> set used" by blast
  then obtain n where "n < Suc (length used)" "int n \<notin> set used" by (meson atLeastLessThan_iff)
  then have "int n \<in> set ?xs" by (auto simp del: upt_Suc)
  then have "?xs \<noteq> []" by (metis list.distinct(1) list.set_cases)
  then have "hd ?xs \<in> set ?xs" by (rule hd_in_set)
  then show ?thesis unfolding lowest_fd_def by auto
qed

lemma child_fds_simps [simp]:
  "child_fds [] = []"
  "child_fds (k # ks) = read_fd (entry k) # write_fd (entry k) # child_fds ks"
  "child_fds (ks @ ls) = child_fds ks @ child_fds ls"
  by (simp_all add: child_fds_def)

lemma child_fds_entries: "child_fds ks = concat (map (\<lambda>e. [read_fd e, write_fd e]) (map entry ks))"
  by (simp add: child_fds_def comp_def)

lemma child_fds_cong: "map entry ks = map entry ls \<Longrightarrow> child_fds ks = child_fds ls"
  by (simp only: child_fds_entries)

section \<open>Spawning\<close>

lemma spawns_ok:
  assumes "length ks < 40" "length n < 16" "n \<noteq> Manager"
  shows "\<exists>e. spawns env i n s ks =
      Inr (ks @ [Proc e (start_process env i n) []], start_line (start_process env i n)) \<and>
    svc_name e = n \<and> read_fd e \<notin> set (child_fds ks) \<and> write_fd e \<notin> set (child_fds ks) \<and>
    read_fd e \<noteq> write_fd e \<and> 0 \<le> read_fd e \<and> 0 \<le> write_fd e"
proof -
  define used where "used = open_fds s ks"
  define pr where "pr = lowest_fd used"
  define pw where "pw = lowest_fd (pr # used)"
  define cr where "cr = lowest_fd (pw # pr # used)"
  define cw where "cw = lowest_fd (cr # pw # pr # used)"
  have "pr \<notin> set used" "0 \<le> pr" using lowest_fd_fresh [of used] by (auto simp: pr_def)
  moreover have "cw \<notin> set used" "cw \<noteq> pr" "0 \<le> cw"
    using lowest_fd_fresh [of "cr # pw # pr # used"] by (auto simp: cw_def)
  moreover have "set (child_fds ks) \<subseteq> set used" by (auto simp: used_def open_fds_def)
  moreover have "spawns env i n s ks =
      Inr (ks @ [Proc \<lparr>svc_pid = i, read_fd = pr, write_fd = cw, svc_name = n\<rparr> (start_process env i n) []],
           start_line (start_process env i n))"
    using assms
    by (simp add: spawns_def Let_def is_manager_def start_process_def
        used_def [symmetric] pr_def [symmetric] pw_def [symmetric] cr_def [symmetric] cw_def [symmetric])
  ultimately show ?thesis by auto
qed

lemma add_leaf_id: "n \<notin> set (preorder t) \<Longrightarrow> add_leaf n leaf t = t"
  by (induction t) (auto intro!: map_idI)

lemma add_leaf_abs [simp]: "n \<notin> set (names p) \<Longrightarrow> add_leaf n leaf (abs_tree p) = abs_tree p"
  by (simp add: add_leaf_id names_def)

lemma add_leaf_forest:
  "n \<notin> set (forest_names ks) \<Longrightarrow> map (add_leaf n leaf) (map abs_tree ks) = map abs_tree ks"
  by (auto intro!: add_leaf_id simp: names_def)

lemma spawn_report_below [simp]: "\<not> is_manager s \<Longrightarrow> spawn_report c s ks rt = []"
  by (simp add: spawn_report_def)

lemma spawn_miss:
  "\<lbrakk>type_of c = ''spawn''; below_manager p; arg 0 c \<notin> set (names p)\<rbrakk> \<Longrightarrow>
     spawn_branch env i c p = Inr (p, ''spawn_failed'', reports c (names p))"
  "\<lbrakk>type_of c = ''spawn''; \<forall>k\<in>set ks. below_manager k; arg 0 c \<notin> set (forest_names ks)\<rbrakk> \<Longrightarrow>
     spawn_loop env i c rt ks =
       Inr (ks, False, if ks = [] then rt else ''spawn_failed'', reports c (forest_names ks))"
proof (induction env i c p and env i c rt ks rule: spawn_branch_spawn_loop.induct)
  case (1 env i c e s ks)
  then show ?case
    by (auto simp: below_manager_Proc is_manager_def)
qed auto

definition new_leaf :: "svc_env \<Rightarrow> int \<Rightarrow> string \<Rightarrow> stree" where
  "new_leaf env i n = Service n (rand_of env i) []"

lemma abs_new_leaf: "abs_tree (Proc e (start_process env i n) []) = new_leaf env i n"
  by (simp add: new_leaf_def start_process_def)

lemma below_new_leaf:
  "svc_name e = n \<Longrightarrow> length n < 16 \<Longrightarrow> n \<noteq> Manager \<Longrightarrow> below_manager (Proc e (start_process env i n) [])"
  by (simp add: below_manager_Proc start_process_def)

text \<open>What a successful spawn below or at a process gives.\<close>

definition spawned :: "svc_env \<Rightarrow> int \<Rightarrow> command \<Rightarrow> proc list \<Rightarrow> proc list \<Rightarrow> bool" where
  "spawned env i c ks ks' \<longleftrightarrow>
     map abs_tree ks' = map (add_leaf (arg 0 c) (new_leaf env i (arg 1 c))) (map abs_tree ks) \<and>
     map entry ks' = map entry ks \<and> map globals ks' = map globals ks \<and>
     (\<forall>k\<in>set ks'. below_manager k)"

definition spawn_line :: "svc_env \<Rightarrow> int \<Rightarrow> command \<Rightarrow> string" where
  "spawn_line env i c = start_line (start_process env i (arg 1 c))"

text \<open>The name fits the arrays and does not make the child take itself for the Manager.\<close>

definition fits :: "string \<Rightarrow> bool" where
  "fits n \<longleftrightarrow> length n < 16 \<and> n \<noteq> Manager"

lemma spawns_fails:
  "\<not> (length ks < 40 \<and> fits n) \<Longrightarrow> \<exists>f. spawns env i n s ks = Inl f"
  by (auto simp: spawns_def Let_def fits_def is_manager_def start_process_def)

lemma spawn_here:
  assumes wf: "wf_proc (Proc e s ks)" and room: "length ks < 40" and new: "fits (arg 1 c)"
    and here: "arg 0 c = service_name s" and dist: "arg 0 c \<notin> set (forest_names ks)"
  shows "\<exists>ks'. spawns env i (arg 1 c) s ks = Inr (ks', spawn_line env i c) \<and> ks' \<noteq> [] \<and>
    abs_tree (Proc e s ks') = add_leaf (arg 0 c) (new_leaf env i (arg 1 c)) (abs_tree (Proc e s ks)) \<and>
    wf_proc (Proc e s ks')"
proof -
  have new': "length (arg 1 c) < 16" "arg 1 c \<noteq> Manager" using new by (auto simp: fits_def)
  obtain e' where e': "spawns env i (arg 1 c) s ks =
      Inr (ks @ [Proc e' (start_process env i (arg 1 c)) []], spawn_line env i c)"
    "svc_name e' = arg 1 c" "read_fd e' \<notin> set (child_fds ks)" "write_fd e' \<notin> set (child_fds ks)"
    "read_fd e' \<noteq> write_fd e'" "0 \<le> read_fd e'" "0 \<le> write_fd e'"
    using spawns_ok [OF room new', of env i s] by (auto simp: spawn_line_def)
  have "map (add_leaf (arg 0 c) (new_leaf env i (arg 1 c))) (map abs_tree ks) = map abs_tree ks"
    using dist by (rule add_leaf_forest)
  then have "abs_tree (Proc e s (ks @ [Proc e' (start_process env i (arg 1 c)) []])) =
      add_leaf (arg 0 c) (new_leaf env i (arg 1 c)) (abs_tree (Proc e s ks))"
    using here by (simp add: new_leaf_def start_process_def del: map_map)
  moreover have "wf_proc (Proc e s (ks @ [Proc e' (start_process env i (arg 1 c)) []]))"
    using wf e' room new' below_new_leaf [of e' "arg 1 c" env i]
    by (auto simp: wf_proc_iff simp del: wf_proc.simps)
  ultimately show ?thesis using e'(1) by blast
qed

text \<open>The outcome of a spawn below the Manager whose parent exists: a fault, because an array is
  full or the name does not do, or the new leaf.\<close>

definition spawn_outcome :: "svc_env \<Rightarrow> int \<Rightarrow> command \<Rightarrow> proc \<Rightarrow> bool" where
  "spawn_outcome env i c p \<longleftrightarrow>
     (\<exists>f. spawn_branch env i c p = Inl f \<and> \<not> (has_room p \<and> fits (arg 1 c))) \<or>
     (\<exists>p'. spawn_branch env i c p =
         Inr (p', ''spawn_success'',
              reports c (upto_first (arg 0 c) (names p)) @ [spawn_line env i c]) \<and>
       spawned env i c [p] [p'])"

definition spawn_loop_outcome :: "svc_env \<Rightarrow> int \<Rightarrow> command \<Rightarrow> string \<Rightarrow> proc list \<Rightarrow> bool" where
  "spawn_loop_outcome env i c rt ks \<longleftrightarrow>
     (\<exists>f. spawn_loop env i c rt ks = Inl f \<and> \<not> ((\<forall>k\<in>set ks. has_room k) \<and> fits (arg 1 c))) \<or>
     (\<exists>ks'. spawn_loop env i c rt ks =
         Inr (ks', True, ''spawn_success'',
              reports c (upto_first (arg 0 c) (forest_names ks)) @ [spawn_line env i c]) \<and>
       spawned env i c ks ks')"

lemma spawned_node:
  assumes "spawned env i c ks ks'" "wf_proc (Proc e s ks)" "service_name s \<noteq> arg 0 c"
  shows "abs_tree (Proc e s ks') = add_leaf (arg 0 c) (new_leaf env i (arg 1 c)) (abs_tree (Proc e s ks)) \<and>
    wf_proc (Proc e s ks')"
proof -
  have "child_fds ks' = child_fds ks" "length ks' = length ks"
    using assms(1) by (auto simp: spawned_def intro: child_fds_cong dest: map_eq_imp_length_eq)
  with assms show ?thesis
    by (auto simp: spawned_def wf_proc_iff simp del: wf_proc.simps)
qed

lemma spawn_hit:
  "\<lbrakk>type_of c = ''spawn''; below_manager p; distinct (names p); arg 0 c \<in> set (names p)\<rbrakk> \<Longrightarrow>
     spawn_outcome env i c p"
  "\<lbrakk>type_of c = ''spawn''; \<forall>k\<in>set ks. below_manager k; distinct (forest_names ks);
    arg 0 c \<in> set (forest_names ks)\<rbrakk> \<Longrightarrow> spawn_loop_outcome env i c rt ks"
proof (induction env i c p and env i c rt ks rule: spawn_branch_spawn_loop.induct)
  case (1 env i c e s ks)
  have wf: "wf_proc (Proc e s ks)" and below: "service_name s \<noteq> Manager" "svc_name e = service_name s"
    "length (service_name s) < 16"
    using 1(3) by (auto simp: below_manager_def)
  consider (fail) "arg 0 c = service_name s" "\<not> (length ks < 40 \<and> fits (arg 1 c))"
    | (here) "arg 0 c = service_name s" "length ks < 40" "fits (arg 1 c)"
    | (down) "arg 0 c \<noteq> service_name s" by blast
  then show ?case
  proof cases
    case fail
    then show ?thesis using spawns_fails [OF fail(2), of env i s] by (auto simp: spawn_outcome_def)
  next
    case here
    then have "arg 0 c \<notin> set (forest_names ks)" using 1(4) by simp
    with spawn_here [OF wf here(2,3,1)] obtain ks' where
      "spawns env i (arg 1 c) s ks = Inr (ks', spawn_line env i c)"
      "abs_tree (Proc e s ks') = add_leaf (arg 0 c) (new_leaf env i (arg 1 c)) (abs_tree (Proc e s ks))"
      "wf_proc (Proc e s ks')" by metis
    with 1(2) here(1) below show ?thesis unfolding spawn_outcome_def
      by (simp add: spawned_def is_manager_def below_manager_def del: abs_tree.simps wf_proc.simps)
  next
    case down
    then have "spawn_loop_outcome env i c [] ks"
      using 1 by (intro 1(1)) (auto simp: below_manager_Proc)
    then consider (fault) f where "spawn_loop env i c [] ks = Inl f"
        "\<not> ((\<forall>k\<in>set ks. has_room k) \<and> fits (arg 1 c))"
      | (leaf) ks' where "spawn_loop env i c [] ks = Inr (ks', True, ''spawn_success'',
          reports c (upto_first (arg 0 c) (forest_names ks)) @ [spawn_line env i c])" "spawned env i c ks ks'"
      by (auto simp: spawn_loop_outcome_def)
    then show ?thesis
    proof cases
      case fault
      with down show ?thesis by (auto simp: spawn_outcome_def)
    next
      case leaf
      then have "spawned env i c [Proc e s ks] [Proc e s ks']"
        using spawned_node [OF leaf(2) wf] down below
        by (simp add: spawned_def below_manager_def del: abs_tree.simps wf_proc.simps)
      with leaf(1) down below 1(2) show ?thesis by (simp add: spawn_outcome_def is_manager_def)
    qed
  qed
next
  case (3 env i c rt k ks)
  show ?case
  proof (cases "arg 0 c \<in> set (names k)")
    case True
    then have "spawn_outcome env i c k" using 3 by auto
    moreover have "arg 0 c \<notin> set (forest_names ks)" using True 3(5) by auto
    then have "map (add_leaf (arg 0 c) (new_leaf env i (arg 1 c))) (map abs_tree ks) = map abs_tree ks"
      by (rule add_leaf_forest)
    ultimately show ?thesis using 3(4) True
      by (auto simp: spawn_outcome_def spawn_loop_outcome_def spawned_def upto_first_append)
  next
    case False
    with 3 have miss: "spawn_branch env i c k = Inr (k, ''spawn_failed'', reports c (names k))"
      by (intro spawn_miss) auto
    with False 3 have "spawn_loop_outcome env i c ''spawn_failed'' ks" by fastforce
    with miss False 3(4) show ?thesis
      by (auto simp: spawn_loop_outcome_def spawned_def upto_first_append)
  qed
qed auto

section \<open>Killing\<close>

definition wf_env :: "svc_env \<Rightarrow> bool" where
  "wf_env env \<longleftrightarrow> (\<forall>i. wf_command (junk_child env i) \<and> wf_command (junk_parent env i))"

text \<open>The memory that \<open>suicide\<close> sends without initialising it does not hold the name of one of the
  services.\<close>

definition quiet :: "svc_env \<Rightarrow> string list \<Rightarrow> bool" where
  "quiet env ns \<longleftrightarrow> (\<forall>i. arg 0 (junk_child env i) \<notin> set ns)"

definition subtree_size :: "string \<Rightarrow> stree \<Rightarrow> nat" where
  "subtree_size n t = length (concat (map preorder (subtree n t)))"

lemma words [simp]:
  "is_word ''suicide''" "is_word ''suicide_success''" "is_word ''kill_success''"
  "is_word ''kill_failed''" "is_word ''exchange''" "is_word ''exchange_success''"
  "is_word ''find_success''" "is_word ''find_failed''" "is_word ''start_exchange''"
  by (simp_all add: is_word_def)

lemma announce_suicide:
  "type_of c = ''suicide'' \<Longrightarrow> announce c s =
     (if service_name s = arg 0 c then [print_receive_command (service_name s) (line_of c)] else [])"
  by (simp add: announce_def)

lemma suicide_count:
  "\<lbrakk>wf_env env; int (length (names p)) < 2147483648\<rbrakk> \<Longrightarrow>
     get_int 2 (fst (suicide env p)) = int (length (names p))"
  "\<lbrakk>wf_env env; 0 \<le> m; m + int (length (forest_names ks)) < 2147483648\<rbrakk> \<Longrightarrow>
     fst (suicide_loop env s m ks) = m + int (length (forest_names ks))"
proof (induction env p and env s m ks rule: suicide_suicide_loop.induct)
  case (1 env e s ks)
  then show ?case
    by (simp add: case_prod_beta Let_def wf_env_def wrap32_ge)
next
  case (3 env s m k ks)
  obtain r ls where r: "suicide env k = (r, ls)" by fastforce
  with 3 have "get_int 2 r = int (length (names k))" by simp
  with 3 r show ?case by (simp add: case_prod_beta wrap32_ge)
qed auto

lemma type_suicide [simp]: "type_of (fst (suicide env p)) = ''suicide_success''"
  by (cases p) (simp add: case_prod_beta Let_def)

lemma wf_suicide: "wf_env env \<Longrightarrow> wf_command (fst (suicide env p))"
  by (cases p) (simp add: case_prod_beta Let_def wf_env_def)

lemma suicide_quiet:
  "\<lbrakk>below_manager p; quiet env (names p)\<rbrakk> \<Longrightarrow> snd (suicide env p) = []"
  "\<lbrakk>\<forall>k\<in>set ks. below_manager k; quiet env (forest_names ks)\<rbrakk> \<Longrightarrow> snd (suicide_loop env s m ks) = []"
proof (induction env p and env s m ks rule: suicide_suicide_loop.induct)
  case (1 env e s ks)
  then show ?case
    by (simp add: case_prod_beta below_manager_Proc is_manager_def quiet_def)
next
  case (3 env s m k ks)
  then have "quiet env (names k)" "quiet env (forest_names ks)" by (auto simp: quiet_def)
  moreover from this(1) have "name_of k \<noteq> arg 0 (junk_child env i)" for i
    unfolding quiet_def by (metis name_of_in_names)
  moreover obtain r ls where "suicide env k = (r, ls)" by fastforce
  ultimately show ?case using 3 by (simp add: case_prod_beta announce_suicide)
qed auto

lemma kill_miss:
  "\<lbrakk>type_of c = ''kill''; below_manager p; arg 0 c \<notin> set (names p)\<rbrakk> \<Longrightarrow>
     \<exists>r. kill_branch env c p = (Some p, r, reports c (names p)) \<and> type_of r = ''kill_failed''"
  "\<lbrakk>type_of c = ''kill''; type_of rc = ''kill_failed''; \<forall>k\<in>set ks. below_manager k;
    arg 0 c \<notin> set (forest_names ks)\<rbrakk> \<Longrightarrow>
     \<exists>r. kill_loop env c rc ks = (ks, False, r, reports c (forest_names ks)) \<and> type_of r = ''kill_failed''"
proof (induction env c p and env c rc ks rule: kill_branch_kill_loop.induct)
  case (1 env c e s ks)
  then have "\<exists>r. kill_loop env c (set_type ''kill_failed'' c) ks =
      (ks, False, r, reports c (forest_names ks)) \<and> type_of r = ''kill_failed''"
    by (auto simp: below_manager_Proc)
  with 1 show ?case by (auto simp: below_manager_Proc is_manager_def)
next
  case (3 env c rc k ks)
  then have "svc_name (entry k) = name_of k" by (simp add: below_manager_def)
  with 3(6) have ne: "arg 0 c \<noteq> svc_name (entry k)" using name_of_in_names [of k] by auto
  with 3 obtain r where r: "kill_branch env c k = (Some k, r, reports c (names k))"
    "type_of r = ''kill_failed''" by auto
  with 3 ne obtain r' where "kill_loop env c r ks = (ks, False, r', reports c (forest_names ks))"
    "type_of r' = ''kill_failed''" by fastforce
  with r ne show ?case by simp
qed auto

text \<open>What a successful kill in a list of children gives.\<close>

definition killed :: "svc_env \<Rightarrow> command \<Rightarrow> proc list \<Rightarrow> proc list \<Rightarrow> command \<Rightarrow> bool" where
  "killed env c ks ks' r \<longleftrightarrow>
     map abs_tree ks' = map (prune (arg 0 c)) (filter (\<lambda>t. sname t \<noteq> arg 0 c) (map abs_tree ks)) \<and>
     map entry ks' = map entry (filter (\<lambda>k. name_of k \<noteq> arg 0 c) ks) \<and>
     (\<forall>k\<in>set ks'. below_manager k) \<and>
     get_int 2 r = (\<Sum>k\<leftarrow>ks. int (subtree_size (arg 0 c) (abs_tree k)))"

lemma prune_id: "n \<notin> set (preorder t) \<Longrightarrow> prune n t = t"
proof (induction t)
  case (Service m v ts)
  have "sname t \<noteq> n" if "t \<in> set ts" for t
    using that Service(2) sname_in_preorder [of t] by auto
  then have "filter (\<lambda>t. sname t \<noteq> n) ts = ts" by (simp add: filter_id_conv)
  with Service show ?case by (auto intro!: map_idI)
qed

lemma prune_forest:
  "n \<notin> set (forest_names ks) \<Longrightarrow>
   map (prune n) (filter (\<lambda>t. sname t \<noteq> n) (map abs_tree ks)) = map abs_tree ks \<and>
   filter (\<lambda>k. name_of k \<noteq> n) ks = ks"
proof -
  assume n: "n \<notin> set (forest_names ks)"
  then have "name_of k \<noteq> n" if "k \<in> set ks" for k
    using that name_of_in_names [of k] by auto
  then have f: "filter (\<lambda>k. name_of k \<noteq> n) ks = ks" by (simp add: filter_id_conv)
  have "map (prune n) (map abs_tree ks) = map abs_tree ks"
    using n by (auto intro!: prune_id simp: names_def)
  with f show ?thesis by (simp add: filter_map comp_def)
qed

lemma subtree_miss: "n \<notin> set (preorder t) \<Longrightarrow> subtree n t = []"
  by (induction t) auto

lemma subtree_size_miss [simp]: "n \<notin> set (names p) \<Longrightarrow> subtree_size n (abs_tree p) = 0"
  by (simp add: subtree_size_def subtree_miss names_def)

lemma subtree_size_root: "name_of p = n \<Longrightarrow> subtree_size n (abs_tree p) = length (names p)"
  by (cases p) (simp add: subtree_size_def names_def)

lemma subtree_size_below:
  "service_name s \<noteq> n \<Longrightarrow>
   int (subtree_size n (abs_tree (Proc e s ks))) = (\<Sum>k\<leftarrow>ks. int (subtree_size n (abs_tree k)))"
  by (induction ks) (auto simp: subtree_size_def)

lemma sum_subtree_miss [simp]:
  "n \<notin> set (forest_names ks) \<Longrightarrow> (\<Sum>k\<leftarrow>ks. int (subtree_size n (abs_tree k))) = 0"
  by (induction ks) auto

lemma distinct_child_fds_filter:
  "distinct (child_fds ks) \<Longrightarrow> distinct (child_fds (filter P ks)) \<and>
   set (child_fds (filter P ks)) \<subseteq> set (child_fds ks)"
  by (induction ks) auto

lemma killed_node:
  assumes "killed env c ks ks' r" "wf_proc (Proc e s ks)" "service_name s \<noteq> arg 0 c"
  shows "abs_tree (Proc e s ks') = prune (arg 0 c) (abs_tree (Proc e s ks)) \<and> wf_proc (Proc e s ks') \<and>
    get_int 2 r = int (subtree_size (arg 0 c) (abs_tree (Proc e s ks)))"
proof -
  have "child_fds ks' = child_fds (filter (\<lambda>k. name_of k \<noteq> arg 0 c) ks)"
    using assms(1) by (auto simp: killed_def intro: child_fds_cong)
  moreover have "length ks' \<le> length ks"
    using assms(1) by (metis killed_def length_map length_filter_le)
  ultimately have "wf_proc (Proc e s ks')"
    using assms(1,2) distinct_child_fds_filter [of ks "\<lambda>k. name_of k \<noteq> arg 0 c"]
    by (auto simp: wf_proc_iff killed_def simp del: wf_proc.simps)
  moreover have "abs_tree (Proc e s ks') = prune (arg 0 c) (abs_tree (Proc e s ks))"
    using assms(1) by (simp add: killed_def)
  moreover have "get_int 2 r = int (subtree_size (arg 0 c) (abs_tree (Proc e s ks)))"
    using assms(1,3) by (simp add: killed_def subtree_size_below del: abs_tree.simps)
  ultimately show ?thesis by blast
qed

text \<open>A kill below a process, and in a list of children, that finds its target.\<close>

definition branch_kills :: "svc_env \<Rightarrow> command \<Rightarrow> proc \<Rightarrow> bool" where
  "branch_kills env c p \<longleftrightarrow>
     (\<exists>p' r mid. kill_branch env c p =
         (Some p', r, reports c (upto_first (arg 0 c) (names p)) @ mid) \<and>
       type_of r = ''kill_success'' \<and> killed env c [p] [p'] r \<and>
       (quiet env (names p) \<longrightarrow> mid = []))"

definition loop_kills :: "svc_env \<Rightarrow> command \<Rightarrow> command \<Rightarrow> proc list \<Rightarrow> bool" where
  "loop_kills env c rc ks \<longleftrightarrow>
     (\<exists>ks' r mid. kill_loop env c rc ks =
         (ks', True, r, reports c (upto_first (arg 0 c) (forest_names ks)) @ mid) \<and>
       type_of r \<noteq> ''kill_failed'' \<and> killed env c ks ks' r \<and>
       (quiet env (forest_names ks) \<longrightarrow> mid = []))"

lemma kills_node:
  assumes "type_of c = ''kill''" "below_manager (Proc e s ks)" "service_name s \<noteq> arg 0 c"
    and "loop_kills env c (set_type ''kill_failed'' c) ks"
  shows "branch_kills env c (Proc e s ks)"
proof -
  have wf: "wf_proc (Proc e s ks)" and below: "service_name s \<noteq> Manager" "svc_name e = service_name s"
    "length (service_name s) < 16"
    using assms(2) by (auto simp: below_manager_def)
  obtain ks' r mid where ks': "kill_loop env c (set_type ''kill_failed'' c) ks =
         (ks', True, r, reports c (upto_first (arg 0 c) (forest_names ks)) @ mid)"
    "killed env c ks ks' r" "quiet env (forest_names ks) \<longrightarrow> mid = []"
    using assms(4) unfolding loop_kills_def by blast
  have "killed env c [Proc e s ks] [Proc e s ks'] (set_type ''kill_success'' r)"
    using killed_node [OF ks'(2) wf assms(3)] assms(3) below
    by (simp add: killed_def below_manager_def del: wf_proc.simps abs_tree.simps)
  moreover have "quiet env (names (Proc e s ks)) \<longrightarrow> mid = []"
    using ks'(3) by (simp add: quiet_def)
  ultimately show ?thesis using ks'(1) assms(1,3) below
    by (simp add: branch_kills_def is_manager_def)
qed

lemma kills_target:
  assumes "type_of c = ''kill''" "wf_env env" "\<forall>q\<in>set (k # ks). below_manager q"
    "int (length (forest_names (k # ks))) < 2147483648" "distinct (forest_names (k # ks))"
    and target: "name_of k = arg 0 c"
  shows "loop_kills env c rc (k # ks)"
proof -
  have k: "below_manager k" "svc_name (entry k) = name_of k"
    using assms(3) by (auto simp: below_manager_def)
  obtain r ls where r: "suicide env k = (r, ls)" by fastforce
  have rest: "arg 0 c \<notin> set (forest_names ks)"
    using assms(5) name_of_in_names [of k] target by auto
  have "get_int 2 r = int (length (names k))"
    using suicide_count(1) [of env k] assms(2,4) r by simp
  then have "killed env c (k # ks) ks r"
    using prune_forest [OF rest] target rest assms(3) by (simp add: killed_def subtree_size_root)
  moreover have "quiet env (forest_names (k # ks)) \<longrightarrow> ls = []"
    using suicide_quiet(1) [of k env] k(1) r by (auto simp: quiet_def)
  moreover have "type_of r \<noteq> ''kill_failed''" using type_suicide [of env k] r by simp
  moreover have "upto_first (arg 0 c) (forest_names (k # ks)) = [arg 0 c]"
    using target by (cases k) simp
  ultimately show ?thesis using r target k assms(1) by (simp add: loop_kills_def announce_suicide)
qed

lemma kills_inside:
  assumes "\<forall>q\<in>set (k # ks). below_manager q" "distinct (forest_names (k # ks))"
    and inside: "name_of k \<noteq> arg 0 c" "arg 0 c \<in> set (names k)" and kill: "branch_kills env c k"
  shows "loop_kills env c rc (k # ks)"
proof -
  have k: "svc_name (entry k) = name_of k" using assms(1) by (auto simp: below_manager_def)
  have rest: "arg 0 c \<notin> set (forest_names ks)" using assms(2) inside by auto
  obtain k' r mid where k': "kill_branch env c k =
       (Some k', r, reports c (upto_first (arg 0 c) (names k)) @ mid)"
     "type_of r = ''kill_success''" "killed env c [k] [k'] r" "quiet env (names k) \<longrightarrow> mid = []"
    using kill unfolding branch_kills_def by blast
  have "killed env c (k # ks) (k' # ks) r"
    using prune_forest [OF rest] k'(3) rest assms(1) inside by (simp add: killed_def)
  moreover have "quiet env (forest_names (k # ks)) \<longrightarrow> mid = []"
    using k'(4) by (auto simp: quiet_def)
  ultimately show ?thesis using k' k inside by (simp add: loop_kills_def upto_first_append)
qed

lemma kills_later:
  assumes "type_of c = ''kill''" "\<forall>q\<in>set (k # ks). below_manager q"
    and later: "arg 0 c \<notin> set (names k)"
    and r: "kill_branch env c k = (Some k, r, reports c (names k))" "type_of r = ''kill_failed''"
    and kills: "loop_kills env c r ks"
  shows "loop_kills env c rc (k # ks)"
proof -
  have k: "below_manager k" "svc_name (entry k) = name_of k"
    using assms(2) by (auto simp: below_manager_def)
  have ne: "name_of k \<noteq> arg 0 c" using later by (metis name_of_in_names)
  obtain ks' r' mid where ks': "kill_loop env c r ks =
       (ks', True, r', reports c (upto_first (arg 0 c) (forest_names ks)) @ mid)"
     "type_of r' \<noteq> ''kill_failed''" "killed env c ks ks' r'" "quiet env (forest_names ks) \<longrightarrow> mid = []"
    using kills unfolding loop_kills_def by blast
  have "killed env c (k # ks) (k # ks') r'"
    using ks'(3) later ne k by (simp add: killed_def prune_id names_def [symmetric])
  moreover have "quiet env (forest_names (k # ks)) \<longrightarrow> mid = []"
    using ks'(4) by (auto simp: quiet_def)
  ultimately show ?thesis using r ks' k later ne by (simp add: loop_kills_def upto_first_append)
qed

lemma kill_finds:
  "\<lbrakk>type_of c = ''kill''; wf_env env; below_manager p; int (length (names p)) < 2147483648;
    distinct (names p); arg 0 c \<in> set (names p); name_of p \<noteq> arg 0 c\<rbrakk> \<Longrightarrow> branch_kills env c p"
  "\<lbrakk>type_of c = ''kill''; wf_env env; \<forall>k\<in>set ks. below_manager k;
    int (length (forest_names ks)) < 2147483648;
    distinct (forest_names ks); arg 0 c \<in> set (forest_names ks)\<rbrakk> \<Longrightarrow> loop_kills env c rc ks"
proof (induction env c p and env c rc ks rule: kill_branch_kill_loop.induct)
  case (1 env c e s ks)
  then have ne: "service_name s \<noteq> arg 0 c" by simp
  have "loop_kills env c (set_type ''kill_failed'' c) ks"
    using 1 ne by (intro 1(1)) (auto simp: below_manager_Proc)
  then show ?case using 1(2,4) ne by (intro kills_node)
next
  case (3 env c rc k ks)
  have k: "below_manager k" "svc_name (entry k) = name_of k"
    using 3(5) by (auto simp: below_manager_def)
  consider (target) "name_of k = arg 0 c" | (inside) "name_of k \<noteq> arg 0 c" "arg 0 c \<in> set (names k)"
    | (later) "arg 0 c \<notin> set (names k)" by blast
  then show ?case
  proof cases
    case target
    then show ?thesis by (rule kills_target [OF 3(3-7)])
  next
    case inside
    with 3 k have "branch_kills env c k" by simp
    then show ?thesis by (rule kills_inside [OF 3(5,7) inside])
  next
    case later
    obtain r where r: "kill_branch env c k = (Some k, r, reports c (names k))"
      "type_of r = ''kill_failed''" using kill_miss(1) [OF 3(3) k(1) later] by blast
    have "name_of k \<noteq> arg 0 c" using later by (metis name_of_in_names)
    with 3 later k r have "loop_kills env c r ks" by fastforce
    then show ?thesis by (rule kills_later [OF 3(3,5) later r])
  qed
qed auto

lemmas kill_hit = kill_finds [unfolded branch_kills_def loop_kills_def]

end
