(* ===== verification/Service_Exchange.thy ===== *)
theory Service_Exchange
  imports Service_Correct
begin

text \<open>
  The messages of the exchange command: the walk that reports it, the two searches that mark the
  paths to the services, and the delivery of \<open>start_exchange\<close> along the marked paths.
\<close>

section \<open>The depth-first walk\<close>

definition hits :: "'a \<Rightarrow> 'a \<Rightarrow> 'a list \<Rightarrow> int" where
  "hits a b xs = int (length (filter (\<lambda>x. x = a \<or> x = b) xs))"

lemma hits_simps [simp]:
  "hits a b [] = 0"
  "hits a b (x # xs) = (if x = a \<or> x = b then 1 else 0) + hits a b xs"
  "hits a b (xs @ ys) = hits a b xs + hits a b ys"
  by (simp_all add: hits_def)

lemma hits_ge_0 [simp]: "0 \<le> hits a b xs"
  by (simp add: hits_def)

lemma hits_not_neg [simp]: "\<not> hits a b xs < 0"
  by (simp add: not_less)

lemma upto_both_all: "n < 2 \<Longrightarrow> n + hits a b xs < 2 \<Longrightarrow> upto_both a b n xs = xs"
proof (induction xs arbitrary: n)
  case (Cons x xs)
  then show ?case by (auto simp: Let_def add.assoc)
qed simp

lemma upto_both_append:
  "n < 2 \<Longrightarrow> upto_both a b n (xs @ ys) =
     (if 2 \<le> n + hits a b xs then upto_both a b n xs
      else xs @ upto_both a b (n + hits a b xs) ys)"
proof (induction xs arbitrary: n)
  case (Cons x xs)
  then show ?case by (auto simp: Let_def add.assoc)
qed simp

lemma announce_walk:
  "type_of c = ''exchange'' \<Longrightarrow> get_bool 5 c \<Longrightarrow>
   announce c s = [print_receive_command (service_name s) (line_of c)]"
  by (simp add: announce_def)

lemma reports_set_int [simp]: "reports (set_int i v c) ns = reports c ns"
  by (simp add: reports_def)

text \<open>The reply of a walk that has counted \<open>m\<close> services in the end.\<close>

definition walk_reply :: "command \<Rightarrow> int \<Rightarrow> command \<Rightarrow> bool" where
  "walk_reply c m r \<longleftrightarrow>
     (2 \<le> m \<longrightarrow> type_of r = ''exchange_success'') \<and> (m < 2 \<longrightarrow> r = set_int 6 m c)"

lemma traverse_walk:
  "\<lbrakk>c = set_int 6 n c0; wf_command c0; type_of c0 = ''exchange''; get_bool 5 c0; 0 \<le> n; n < 2\<rbrakk> \<Longrightarrow>
     walk_reply c0 (n + hits (arg 0 c0) (arg 1 c0) (names p)) (fst (traverse c p)) \<and>
     print_receive_command (name_of p) (line_of c0) # snd (traverse c p) =
       reports c0 (upto_both (arg 0 c0) (arg 1 c0) n (names p))"
  "\<lbrakk>sc = set_int 6 n c0; rc = sc; wf_command c0; type_of c0 = ''exchange''; get_bool 5 c0; 0 \<le> n; n < 2\<rbrakk> \<Longrightarrow>
     walk_reply c0 (n + hits (arg 0 c0) (arg 1 c0) (forest_names ks)) (fst (traverse_loop sc rc ks)) \<and>
     snd (traverse_loop sc rc ks) =
       reports c0 (upto_both (arg 0 c0) (arg 1 c0) n (forest_names ks))"
proof (induction c p and sc rc ks arbitrary: n and n rule: traverse_traverse_loop.induct)
  case (1 c e s ks)
  define m where "m = (if arg 0 c0 = service_name s \<or> arg 1 c0 = service_name s then n + 1 else n)"
  have m: "(if arg 0 c = service_name s \<or> arg 1 c = service_name s
      then wrap32 (get_int 6 c + 1) else get_int 6 c) = m"
    using 1(2-) by (simp add: m_def wrap32_ge)
  show ?case
  proof (cases "m = 2")
    case True
    then have "traverse c (Proc e s ks) = (set_type ''exchange_success'' c, [])"
      unfolding traverse.simps Let_def m by simp
    then show ?thesis
      using True by (auto simp: walk_reply_def m_def Let_def split: if_splits)
  next
    case False
    then have eq: "traverse c (Proc e s ks) = traverse_loop (set_int 6 m c0) (set_int 6 m c0) ks"
      unfolding traverse.simps Let_def m using 1(2) by simp
    have "walk_reply c0 (m + hits (arg 0 c0) (arg 1 c0) (forest_names ks))
         (fst (traverse_loop (set_int 6 m c0) (set_int 6 m c0) ks)) \<and>
       snd (traverse_loop (set_int 6 m c0) (set_int 6 m c0) ks) =
         reports c0 (upto_both (arg 0 c0) (arg 1 c0) m (forest_names ks))"
      using 1(1) [OF m [symmetric] False, of m] 1(2-) False by (auto simp: m_def split: if_splits)
    moreover have "n + hits (arg 0 c0) (arg 1 c0) (names (Proc e s ks)) =
        m + hits (arg 0 c0) (arg 1 c0) (forest_names ks)" by (auto simp: m_def)
    moreover have "upto_both (arg 0 c0) (arg 1 c0) n (names (Proc e s ks)) =
        service_name s # upto_both (arg 0 c0) (arg 1 c0) m (forest_names ks)"
      using False by (auto simp: m_def Let_def)
    ultimately show ?thesis unfolding eq by (simp del: names_Proc)
  qed
next
  case (2 sc rc)
  then show ?case by (simp add: walk_reply_def)
next
  case (3 sc rc k ks)
  obtain r ls where r: "traverse sc k = (r, ls)" by fastforce
  let ?h = "hits (arg 0 c0) (arg 1 c0)"
  have k: "walk_reply c0 (n + ?h (names k)) r"
    "print_receive_command (name_of k) (line_of c0) # ls =
       reports c0 (upto_both (arg 0 c0) (arg 1 c0) n (names k))"
    using 3(1) [of n] 3(3-) r by auto
  have ann: "announce sc (globals k) = [print_receive_command (name_of k) (line_of c0)]"
    using 3(3-) by (simp add: announce_walk)
  show ?case
  proof (cases "2 \<le> n + ?h (names k)")
    case True
    then have "\<not> n + (?h (names k) + ?h (forest_names ks)) < 2"
      using hits_ge_0 [of "arg 0 c0" "arg 1 c0" "forest_names ks"] by linarith
    with True k r ann 3(9) show ?thesis
      by (auto simp: walk_reply_def upto_both_append)
  next
    case False
    then have r': "r = set_int 6 (n + ?h (names k)) c0" using k(1) by (simp add: walk_reply_def)
    then have ne: "type_of r \<noteq> ''exchange_success''" using 3(6) by simp
    have "walk_reply c0 (n + ?h (names k) + ?h (forest_names ks)) (fst (traverse_loop r r ks)) \<and>
       snd (traverse_loop r r ks) =
         reports c0 (upto_both (arg 0 c0) (arg 1 c0) (n + ?h (names k)) (forest_names ks))"
      using 3(4-) False r r' ne by (intro 3(2) [OF refl _ _ ne r']) auto
    with False k r ann ne 3(9) show ?thesis
      by (auto simp: walk_reply_def upto_both_append upto_both_all case_prod_beta add.assoc)
  qed
qed

section \<open>The searches\<close>

text \<open>The tree after a search: every process with the target below one of its children has the
  descriptors of that child.\<close>

definition kid :: "string \<Rightarrow> proc list \<Rightarrow> proc option" where
  "kid a ks = find (\<lambda>k. a \<in> set (names k)) ks"

definition mark_globals :: "nat \<Rightarrow> string \<Rightarrow> pstate \<Rightarrow> proc list \<Rightarrow> pstate" where
  "mark_globals i a s ks = (case kid a ks of None \<Rightarrow> s | Some k \<Rightarrow> set_pipe i (entry k) s)"

fun mark :: "nat \<Rightarrow> string \<Rightarrow> proc \<Rightarrow> proc" where
  "mark i a (Proc e s ks) = Proc e (mark_globals i a s ks) (map (mark i a) ks)"

lemma kid_None_iff: "kid a ks = None \<longleftrightarrow> a \<notin> set (forest_names ks)"
  by (auto simp: kid_def find_None_iff)

lemma kid_miss [simp]: "a \<notin> set (forest_names ks) \<Longrightarrow> kid a ks = None"
  by (simp only: kid_None_iff not_False_eq_True)

lemma mark_id: "a \<notin> set (names p) \<Longrightarrow> mark i a p = p"
proof (induction p)
  case (Proc e s ks)
  then have "kid a ks = None" by simp
  with Proc show ?case by (auto simp: mark_globals_def intro!: map_idI)
qed

lemma mark_id_forest: "a \<notin> set (forest_names ks) \<Longrightarrow> map (mark i a) ks = ks"
  by (auto intro!: map_idI mark_id)

lemma abs_mark [simp]: "abs_tree (mark i a p) = abs_tree p"
  by (induction p) (auto simp: mark_globals_def set_pipe_def split: option.splits)

lemma names_mark [simp]: "names (mark i a p) = names p"
  by (simp add: names_def)

lemma entry_mark [simp]: "entry (mark i a p) = entry p"
  by (cases p) simp

lemma kid_mark [simp]: "kid a (map (mark i b) ks) = map_option (mark i b) (kid a ks)"
  unfolding kid_def by (induction ks) auto

definition searching :: "command \<Rightarrow> nat \<Rightarrow> string \<Rightarrow> bool" where
  "searching c i a \<longleftrightarrow> wf_command c \<and> get_int 4 c = int i \<and> arg i c = a \<and> \<not> get_bool 5 c"

lemma searching_set_type [simp]: "length t < 20 \<Longrightarrow> searching c i a \<Longrightarrow> searching (set_type t c) i a"
  by (simp add: searching_def)

lemma searching_set_int:
  "\<lbrakk>wf_command c; arg i c = a; \<not> get_bool 5 c; i < 2\<rbrakk> \<Longrightarrow> searching (set_int 4 (int i) c) i a"
  by (simp add: searching_def wrap32_ge)

lemma announce_search:
  "type_of c = ''exchange'' \<Longrightarrow> searching c i a \<Longrightarrow> service_name s \<noteq> Manager \<Longrightarrow> announce c s = []"
  by (simp add: announce_def searching_def is_manager_def)

lemma finds_mark:
  "\<lbrakk>wf_command c0; arg i c0 = a; \<not> get_bool 5 c0; i < 2; distinct (names p);
    Manager \<notin> set (forest_names (child p))\<rbrakk> \<Longrightarrow>
     \<exists>r. finds c0 i p = (mark i a p, r, []) \<and>
       type_of r = (if a \<in> set (names p) then ''find_success'' else ''find_failed'') \<and>
       (a \<notin> set (names p) \<longrightarrow> searching r i a)"
  "\<lbrakk>searching sc j a; searching sp j a; j < 2; distinct (forest_names ks); Manager \<notin> set (forest_names ks)\<rbrakk> \<Longrightarrow>
     \<exists>sp'. finds_loop sc sp ks = (map (mark j a) ks, map_option entry (kid a ks), sp', []) \<and>
       (a \<notin> set (forest_names ks) \<longrightarrow> searching sp' j a)"
proof (induction c0 i p and sc sp ks arbitrary: a and j a rule: finds_finds_loop.induct)
  case (1 c0 i e s ks)
  let ?c = "set_int 4 (int i) c0"
  have c: "searching ?c i a" using 1(2-5) by (rule searching_set_int)
  then have arg: "arg i ?c = a" by (simp add: searching_def)
  show ?case
  proof (cases "service_name s = a")
    case True
    then have "a \<notin> set (forest_names ks)" using 1(6) by simp
    then show ?thesis using True arg by (simp add: mark_id_forest mark_globals_def)
  next
    case False
    then have "\<exists>sp'. finds_loop ?c ?c ks = (map (mark i a) ks, map_option entry (kid a ks), sp', []) \<and>
       (a \<notin> set (forest_names ks) \<longrightarrow> searching sp' i a)"
      using 1(5-) arg c by (intro 1(1)) auto
    then obtain sp' where sp': "finds_loop ?c ?c ks =
        (map (mark i a) ks, map_option entry (kid a ks), sp', [])"
      "a \<notin> set (forest_names ks) \<longrightarrow> searching sp' i a" by blast
    show ?thesis
    proof (cases "kid a ks")
      case None
      then have "a \<notin> set (forest_names ks)" by (rule kid_None_iff [THEN iffD1])
      with sp' None False arg show ?thesis by (simp add: mark_globals_def)
    next
      case (Some k)
      then have "a \<in> set (forest_names ks)" using kid_miss by fastforce
      with sp' Some False arg show ?thesis by (simp add: mark_globals_def)
    qed
  qed
next
  case (3 sc sp k ks)
  let ?c = "set_type ''exchange'' sc"
  have c: "searching ?c j a" using 3(3) by simp
  then have j: "nat (get_int 4 ?c) = j" by (simp add: searching_def)
  have mk: "name_of k \<noteq> Manager" using 3(7) by (metis Un_iff concat.simps(2) list.map(2) name_of_in_names set_append)
  obtain r where r: "finds ?c j k = (mark j a k, r, [])"
    "type_of r = (if a \<in> set (names k) then ''find_success'' else ''find_failed'')"
    "a \<notin> set (names k) \<longrightarrow> searching r j a"
    using 3(1) [OF refl] 3(5-) c j by (cases k) (fastforce simp: searching_def)
  show ?case
  proof (cases "a \<in> set (names k)")
    case True
    then have "a \<notin> set (forest_names ks)" using 3(6) by auto
    with True r j announce_search [OF _ c mk] show ?thesis
      by (simp add: kid_def mark_id_forest)
  next
    case False
    then have "\<exists>sp'. finds_loop r r ks = (map (mark j a) ks, map_option entry (kid a ks), sp', []) \<and>
       (a \<notin> set (forest_names ks) \<longrightarrow> searching sp' j a)"
      using 3(5-) r j by (intro 3(2) [OF refl]) auto
    with False r j announce_search [OF _ c mk] show ?thesis by (auto simp: kid_def)
  qed
qed (simp add: kid_def)

section \<open>The delivery\<close>

text \<open>The tree in which the services \<open>a\<close> and \<open>b\<close> have the secrets \<open>va\<close> and \<open>vb\<close>.\<close>

fun assign_secrets :: "string \<Rightarrow> 64 word \<Rightarrow> string \<Rightarrow> 64 word \<Rightarrow> proc \<Rightarrow> proc" where
  "assign_secrets a va b vb (Proc e s ks) =
     Proc e (s\<lparr>secret := if service_name s = a then va else if service_name s = b then vb else secret s\<rparr>)
       (map (assign_secrets a va b vb) ks)"

definition psecrets :: "proc \<Rightarrow> (string \<times> 64 word) list" where
  "psecrets p = services (abs_tree p)"

abbreviation forest_secrets :: "proc list \<Rightarrow> (string \<times> 64 word) list" where
  "forest_secrets ks \<equiv> concat (map psecrets ks)"

lemma psecrets_Proc [simp]: "psecrets (Proc e s ks) = (service_name s, secret s) # forest_secrets ks"
proof -
  have "map services (map abs_tree ks) = map psecrets ks" by (simp add: psecrets_def)
  then show ?thesis by (simp only: psecrets_def abs_tree.simps services.simps)
qed

lemma fst_psecrets: "map fst (psecrets p) = names p"
proof (induction p)
  case (Proc e s ks)
  then have "map (map fst) (map psecrets ks) = map names ks" by simp
  then show ?case by (simp only: psecrets_Proc names_Proc list.map fst_conv map_concat)
qed

lemma dom_psecrets: "map_of (psecrets p) a = None \<longleftrightarrow> a \<notin> set (names p)"
  by (metis fst_psecrets map_of_eq_None_iff list.set_map)

lemma assign_secrets_id: "a \<notin> set (names p) \<Longrightarrow> b \<notin> set (names p) \<Longrightarrow> assign_secrets a va b vb p = p"
  by (induction p) (auto intro!: map_idI)

lemma abs_assign: "abs_tree (assign_secrets a va b vb p) = assign2 a va b vb (abs_tree p)"
  by (induction p) auto

lemma entry_assign [simp]: "entry (assign_secrets a va b vb p) = entry p"
  by (cases p) simp

lemma name_assign [simp]: "name_of (assign_secrets a va b vb p) = name_of p"
  by (cases p) simp

lemma wf_assign: "wf_proc p \<Longrightarrow> wf_proc (assign_secrets a va b vb p)"
proof (induction p)
  case (Proc e s ks)
  have "child_fds (map (assign_secrets a va b vb) ks) = child_fds ks"
    by (rule child_fds_cong) simp
  with Proc show ?case by auto
qed

text \<open>The descriptors a search has left.\<close>

definition rfd :: "string \<Rightarrow> proc list \<Rightarrow> int" where
  "rfd a ks = (case kid a ks of None \<Rightarrow> -1 | Some k \<Rightarrow> read_fd (entry k))"

definition wfd :: "string \<Rightarrow> proc list \<Rightarrow> int" where
  "wfd a ks = (case kid a ks of None \<Rightarrow> -1 | Some k \<Rightarrow> write_fd (entry k))"

definition marked :: "string \<Rightarrow> string \<Rightarrow> proc \<Rightarrow> proc" where
  "marked a b p = mark 1 b (mark 0 a p)"

definition with_pipes :: "string \<Rightarrow> string \<Rightarrow> pstate \<Rightarrow> proc list \<Rightarrow> pstate" where
  "with_pipes a b s ks = s\<lparr>pipe_read := (\<lambda>_. -1)(0 := rfd a ks, 1 := rfd b ks),
     pipe_write := (\<lambda>_. -1)(0 := wfd a ks, 1 := wfd b ks)\<rparr>"

lemma with_pipes_simps [simp]:
  "pipe_read (with_pipes a b s ks) 0 = rfd a ks" "pipe_read (with_pipes a b s ks) 1 = rfd b ks"
  "pipe_read (with_pipes a b s ks) (Suc 0) = rfd b ks"
  "pipe_write (with_pipes a b s ks) 0 = wfd a ks" "pipe_write (with_pipes a b s ks) 1 = wfd b ks"
  "pipe_write (with_pipes a b s ks) (Suc 0) = wfd b ks"
  "service_name (with_pipes a b s ks) = service_name s" "secret (with_pipes a b s ks) = secret s"
  by (simp_all add: with_pipes_def)

lemma marked_Proc:
  assumes "pipe_read s = (\<lambda>_. -1)" "pipe_write s = (\<lambda>_. -1)"
  shows "marked a b (Proc e s ks) = Proc e (with_pipes a b s ks) (map (marked a b) ks)"
proof -
  have "mark_globals 1 b (mark_globals 0 a s ks) (map (mark 0 a) ks) = with_pipes a b s ks"
    using assms by (auto simp: mark_globals_def with_pipes_def rfd_def wfd_def set_pipe_def
        fun_eq_iff split: option.splits)
  then show ?thesis by (simp add: marked_def comp_def)
qed

lemma entry_marked [simp]: "entry (marked a b p) = entry p"
  by (simp add: marked_def)

lemma marked_id: "a \<notin> set (names p) \<Longrightarrow> b \<notin> set (names p) \<Longrightarrow> marked a b p = p"
  by (simp add: marked_def mark_id)

text \<open>The two calls the delivery has to lead to, when \<open>ns\<close> lists the services it can reach with
  their secrets.\<close>

definition calls_of :: "string \<Rightarrow> string \<Rightarrow> (string \<times> 64 word) list \<Rightarrow> call list \<Rightarrow> bool" where
  "calls_of a b ns cs \<longleftrightarrow>
     map_of cs First = map_option (Pair a) (map_of ns a) \<and>
     map_of cs Second = (if a = b then None else map_option (Pair b) (map_of ns b))"

lemma calls_of_append:
  "calls_of a b ns cs \<Longrightarrow> calls_of a b ms ds \<Longrightarrow> calls_of a b (ns @ ms) (cs @ ds)"
  by (auto simp: calls_of_def map_add_def split: option.splits)

lemma calls_of_Nil: "a \<notin> fst ` set ns \<Longrightarrow> b \<notin> fst ` set ns \<Longrightarrow> calls_of a b ns []"
  by (auto simp: calls_of_def map_of_eq_None_iff [symmetric])

definition delivered :: "string \<Rightarrow> string \<Rightarrow> 64 word \<times> 64 word \<Rightarrow> command \<Rightarrow> proc \<Rightarrow> bool" where
  "delivered a b v c p \<longleftrightarrow>
     fst (start_exchange v c (marked a b p)) = assign_secrets a (fst v) b (snd v) p \<and>
     calls_of a b (psecrets p) (snd (start_exchange v c (marked a b p)))"

lemma deliver_forest:
  assumes "\<forall>k\<in>set ks. delivered a b v c k"
    and "\<forall>k\<in>set ks. a \<in> set (names k) \<or> b \<in> set (names k) \<longrightarrow> write_fd (entry k) \<in> set fds"
  shows "\<exists>cs. deliver v fds c (map (marked a b) ks) = (map (assign_secrets a (fst v) b (snd v)) ks, cs) \<and>
         calls_of a b (forest_secrets ks) cs"
  using assms
proof (induction ks)
  case Nil
  then show ?case by (simp add: calls_of_def)
next
  case (Cons k ks)
  then obtain cs where cs: "deliver v fds c (map (marked a b) ks) =
      (map (assign_secrets a (fst v) b (snd v)) ks, cs)" "calls_of a b (forest_secrets ks) cs"
    by auto
  show ?case
  proof (cases "write_fd (entry k) \<in> set fds")
    case True
    with Cons cs show ?thesis
      by (auto simp: case_prod_beta delivered_def intro: calls_of_append)
  next
    case False
    with Cons have n: "a \<notin> set (names k)" "b \<notin> set (names k)" by auto
    then have "calls_of a b (psecrets k) []"
      by (intro calls_of_Nil) (simp_all add: fst_psecrets [symmetric])
    with False n cs show ?thesis
      using calls_of_append [of a b "psecrets k" "[]"]
      by (auto simp: marked_id assign_secrets_id)
  qed
qed

text \<open>The child on the way to a service is the only one that holds it.\<close>

lemma kid_eq:
  "distinct (forest_names ks) \<Longrightarrow> k \<in> set ks \<Longrightarrow> a \<in> set (names k) \<Longrightarrow> kid a ks = Some k"
  unfolding kid_def by (induction ks) auto

lemma kid_in: "kid a ks = Some k \<Longrightarrow> k \<in> set ks \<and> a \<in> set (names k)"
  unfolding kid_def by (auto simp: find_Some_iff)

lemma wfd_kid:
  "distinct (forest_names ks) \<Longrightarrow> k \<in> set ks \<Longrightarrow> a \<in> set (names k) \<Longrightarrow> write_fd (entry k) = wfd a ks"
  by (simp add: wfd_def kid_eq)

lemma fds_of_kid: "k \<in> set ks \<Longrightarrow> read_fd (entry k) \<in> set (child_fds ks)"
  by (induction ks) auto

lemma read_fd_inj:
  "\<lbrakk>distinct (child_fds ks); k \<in> set ks; k' \<in> set ks; read_fd (entry k) = read_fd (entry k')\<rbrakk> \<Longrightarrow> k = k'"
proof (induction ks)
  case (Cons x ks)
  have x: "read_fd (entry x) \<noteq> read_fd (entry y)" if "y \<in> set ks" for y
    using Cons.prems(1) fds_of_kid [OF that] by auto
  consider "k = x" "k' = x" | "k = x" "k' \<in> set ks" | "k \<in> set ks" "k' = x" | "k \<in> set ks" "k' \<in> set ks"
    using Cons.prems(2,3) by auto
  then show ?case
  proof cases
    case 4
    with Cons show ?thesis by simp
  qed (use x Cons.prems(4) in metis)+
qed simp

lemma rfd_miss_iff:
  "\<forall>fd\<in>set (child_fds ks). 0 \<le> fd \<Longrightarrow> rfd a ks = -1 \<longleftrightarrow> a \<notin> set (forest_names ks)"
proof -
  assume nn: "\<forall>fd\<in>set (child_fds ks). 0 \<le> fd"
  show ?thesis
  proof (cases "kid a ks")
    case None
    then show ?thesis using kid_None_iff [of a ks] by (simp add: rfd_def)
  next
    case (Some k)
    then have "0 \<le> read_fd (entry k)" using nn kid_in fds_of_kid by blast
    then show ?thesis using Some kid_None_iff [of a ks] by (simp add: rfd_def)
  qed
qed

lemma rfd_eq_wfd:
  assumes "distinct (child_fds ks)" "a \<in> set (forest_names ks)" "b \<in> set (forest_names ks)"
    and "rfd a ks = rfd b ks"
  shows "wfd a ks = wfd b ks"
proof -
  obtain k k' where k: "kid a ks = Some k" "kid b ks = Some k'"
    using assms(2,3) kid_None_iff [of a ks] kid_None_iff [of b ks] by blast
  then have "k = k'"
    using assms(4) kid_in [OF k(1)] kid_in [OF k(2)] read_fd_inj [OF assms(1), of k k']
    by (simp add: rfd_def)
  with k show ?thesis by (simp add: wfd_def)
qed

lemma reset_with_pipes:
  "pipe_read s = (\<lambda>_. -1) \<Longrightarrow> pipe_write s = (\<lambda>_. -1) \<Longrightarrow>
   reset_pipes ((with_pipes a b s ks)\<lparr>secret := v\<rparr>) = s\<lparr>secret := v\<rparr>"
  "pipe_read s = (\<lambda>_. -1) \<Longrightarrow> pipe_write s = (\<lambda>_. -1) \<Longrightarrow> reset_pipes (with_pipes a b s ks) = s"
  by (simp_all add: reset_pipes_def with_pipes_def)

lemma calls_of_First:
  "a \<notin> fst ` set ns \<Longrightarrow> calls_of a b ns cs \<Longrightarrow> calls_of a b ((a, v) # ns) (cs @ [(First, a, v)])"
  by (auto simp: calls_of_def map_add_def map_of_eq_None_iff [symmetric] split: option.splits)

lemma calls_of_Second:
  "a \<noteq> b \<Longrightarrow> b \<notin> fst ` set ns \<Longrightarrow> calls_of a b ns cs \<Longrightarrow>
   calls_of a b ((b, v) # ns) (cs @ [(Second, b, v)])"
  by (auto simp: calls_of_def map_add_def map_of_eq_None_iff [symmetric] split: option.splits)

lemma calls_of_other: "n \<noteq> a \<Longrightarrow> n \<noteq> b \<Longrightarrow> calls_of a b ns cs \<Longrightarrow> calls_of a b ((n, v) # ns) cs"
  by (simp add: calls_of_def)

lemma fst_forest_secrets: "fst ` set (forest_secrets ks) = set (forest_names ks)"
proof -
  have "map (map fst) (map psecrets ks) = map names ks" by (simp add: fst_psecrets)
  then show ?thesis by (metis map_concat set_map)
qed

text \<open>The children of a process deliver the message to the services among them, whatever list of
  descriptors it is written to, as long as it reaches those services.\<close>

definition forest_delivers :: "string \<Rightarrow> string \<Rightarrow> 64 word \<times> 64 word \<Rightarrow> command \<Rightarrow> proc list \<Rightarrow> bool" where
  "forest_delivers a b v c ks \<longleftrightarrow>
     (\<forall>ws. (a \<in> set (forest_names ks) \<longrightarrow> wfd a ks \<in> set ws) \<and> (b \<in> set (forest_names ks) \<longrightarrow> wfd b ks \<in> set ws) \<longrightarrow>
       (\<exists>cs. deliver v ws c (map (marked a b) ks) = (map (assign_secrets a (fst v) b (snd v)) ks, cs) \<and>
          calls_of a b (forest_secrets ks) cs))"

lemma forest_without:
  assumes "a \<notin> set (forest_names ks)" "b \<notin> set (forest_names ks)"
  shows "map (marked a b) ks = map (assign_secrets a (fst v) b (snd v)) ks \<and> calls_of a b (forest_secrets ks) []"
proof
  show "map (marked a b) ks = map (assign_secrets a (fst v) b (snd v)) ks"
    using assms by (auto simp: marked_id assign_secrets_id)
  show "calls_of a b (forest_secrets ks) []"
    using assms by (intro calls_of_Nil) (simp_all only: fst_forest_secrets not_False_eq_True)
qed

lemmas deliver_simps = delivered_def marked_Proc exchanges_def Let_def reset_with_pipes fst_forest_secrets

lemma delivered_first:
  assumes pipes: "pipe_read s = (\<lambda>_. -1)" "pipe_write s = (\<lambda>_. -1)"
    and fds: "\<forall>fd\<in>set (child_fds ks). 0 \<le> fd" and ab: "arg 0 c = a" "arg 1 c = b"
    and del: "forest_delivers a b v c ks"
    and first: "service_name s = a" and na: "a \<notin> set (forest_names ks)"
  shows "delivered a b v c (Proc e s ks)"
proof (cases "b \<in> set (forest_names ks)")
  case True
  obtain cs where "deliver v [wfd b ks] c (map (marked a b) ks) = (map (assign_secrets a (fst v) b (snd v)) ks, cs)"
    "calls_of a b (forest_secrets ks) cs"
    using del [unfolded forest_delivers_def, rule_format, of "[wfd b ks]"] na by auto
  with True first na show ?thesis
    using calls_of_First [of a "forest_secrets ks" b cs "secret s"]
    by (simp add: deliver_simps pipes ab [simplified] rfd_miss_iff [OF fds] del: set_concat)
next
  case False
  with first na forest_without [OF na False, of v] show ?thesis
    using calls_of_First [of a "forest_secrets ks" b "[]" "secret s"]
    by (simp add: deliver_simps pipes ab [simplified] rfd_miss_iff [OF fds] del: set_concat)
qed

lemma delivered_second:
  assumes pipes: "pipe_read s = (\<lambda>_. -1)" "pipe_write s = (\<lambda>_. -1)"
    and fds: "\<forall>fd\<in>set (child_fds ks). 0 \<le> fd" and ab: "arg 0 c = a" "arg 1 c = b"
    and del: "forest_delivers a b v c ks"
    and second: "service_name s = b" "service_name s \<noteq> a" and nb: "b \<notin> set (forest_names ks)"
  shows "delivered a b v c (Proc e s ks)"
proof (cases "a \<in> set (forest_names ks)")
  case True
  obtain cs where "deliver v [wfd a ks] c (map (marked a b) ks) = (map (assign_secrets a (fst v) b (snd v)) ks, cs)"
    "calls_of a b (forest_secrets ks) cs"
    using del [unfolded forest_delivers_def, rule_format, of "[wfd a ks]"] nb by auto
  with True second nb show ?thesis
    using calls_of_Second [of a b "forest_secrets ks" cs "secret s"]
    by (simp add: deliver_simps pipes ab [simplified] rfd_miss_iff [OF fds] del: set_concat)
next
  case False
  with second nb forest_without [OF False nb, of v] show ?thesis
    using calls_of_Second [of a b "forest_secrets ks" "[]" "secret s"]
    by (simp add: deliver_simps pipes ab [simplified] rfd_miss_iff [OF fds] del: set_concat)
qed

lemma delivered_none:
  assumes pipes: "pipe_read s = (\<lambda>_. -1)" "pipe_write s = (\<lambda>_. -1)"
    and fds: "distinct (child_fds ks)" "\<forall>fd\<in>set (child_fds ks). 0 \<le> fd" and ab: "arg 0 c = a" "arg 1 c = b"
    and del: "forest_delivers a b v c ks" and none: "service_name s \<noteq> a" "service_name s \<noteq> b"
  shows "delivered a b v c (Proc e s ks)"
proof (cases "a \<in> set (forest_names ks) \<or> b \<in> set (forest_names ks)")
  case True
  let ?ks = "map (marked a b) ks" and ?as = "map (assign_secrets a (fst v) b (snd v)) ks"
  note miss = rfd_miss_iff [OF fds(2)]
  define ws where "ws = (if a \<in> set (forest_names ks) \<and> b \<in> set (forest_names ks) \<and> rfd a ks \<noteq> rfd b ks
    then [wfd a ks, wfd b ks] else if a \<in> set (forest_names ks) then [wfd a ks] else [wfd b ks])"
  have "(a \<in> set (forest_names ks) \<longrightarrow> wfd a ks \<in> set ws) \<and> (b \<in> set (forest_names ks) \<longrightarrow> wfd b ks \<in> set ws)"
    using rfd_eq_wfd [OF fds(1), of a b] by (auto simp: ws_def simp del: set_concat)
  then obtain cs where cs: "deliver v ws c ?ks = (?as, cs)" "calls_of a b (forest_secrets ks) cs"
    using del unfolding forest_delivers_def by blast
  have "rfd a ks = rfd b ks \<longrightarrow> (a \<in> set (forest_names ks) \<longleftrightarrow> b \<in> set (forest_names ks))"
    using miss [of a] miss [of b] by metis
  then have "start_exchange v c (Proc e (with_pipes a b s ks) ?ks) =
      (Proc e (reset_pipes (with_pipes a b s ks)) (fst (deliver v ws c ?ks)), snd (deliver v ws c ?ks))"
    using True none
    by (cases "a \<in> set (forest_names ks)"; cases "b \<in> set (forest_names ks)"; cases "rfd a ks = rfd b ks")
      (simp_all add: ws_def ab [simplified] miss case_prod_beta del: set_concat)
  then show ?thesis
    using none calls_of_other [OF none cs(2)] cs(1)
    by (simp add: delivered_def marked_Proc [OF pipes] reset_with_pipes [OF pipes])
next
  case False
  with none forest_without [of a ks b v] show ?thesis
    by (simp add: deliver_simps pipes ab [simplified] rfd_miss_iff [OF fds(2)] calls_of_other del: set_concat)
qed

lemma delivered_start:
  assumes "wf_proc p" "distinct (names p)" and ab: "arg 0 c = a" "arg 1 c = b"
  shows "delivered a b v c p"
  using assms(1,2)
proof (induction p)
  case (Proc e s ks)
  have pipes: "pipe_read s = (\<lambda>_. -1)" "pipe_write s = (\<lambda>_. -1)"
    and fds: "distinct (child_fds ks)" "\<forall>fd\<in>set (child_fds ks). 0 \<le> fd"
    and dist: "distinct (forest_names ks)" "service_name s \<notin> set (forest_names ks)"
    using Proc by auto
  have IH: "\<forall>k\<in>set ks. delivered a b v c k"
    using Proc dist by (auto simp: distinct_concat_iff)
  have del: "forest_delivers a b v c ks"
    unfolding forest_delivers_def
  proof (intro allI impI)
    fix ws
    assume "(a \<in> set (forest_names ks) \<longrightarrow> wfd a ks \<in> set ws) \<and> (b \<in> set (forest_names ks) \<longrightarrow> wfd b ks \<in> set ws)"
    then show "\<exists>cs. deliver v ws c (map (marked a b) ks) = (map (assign_secrets a (fst v) b (snd v)) ks, cs) \<and>
        calls_of a b (forest_secrets ks) cs"
      using dist wfd_kid by (intro deliver_forest [OF IH]) fastforce
  qed
  from dist(2) show ?case
    using delivered_first [OF pipes fds(2) ab del] delivered_second [OF pipes fds(2) ab del]
      delivered_none [OF pipes fds ab del] by (cases "service_name s = a"; cases "service_name s = b") blast+
qed

section \<open>The Manager's part\<close>

lemma kid_root: "wf_proc (Proc e s ks) \<Longrightarrow> Manager \<notin> set (forest_names ks)"
proof -
  have below: "below_manager p \<Longrightarrow> Manager \<notin> set (names p)" for p
    by (induction p) (auto simp: below_manager_Proc)
  assume "wf_proc (Proc e s ks)"
  then show ?thesis using below by (auto simp: wf_proc_iff simp del: wf_proc.simps)
qed

lemma finds_manager:
  assumes "wf_command c" "\<not> get_bool 5 c" "i < 2" "distinct (names p)" "Manager \<notin> set (forest_names (child p))"
  shows "fst (finds c i p) = mark i (arg i c) p" "snd (snd (finds c i p)) = []"
  using finds_mark(1) [of c i "arg i c" p] assms by auto

lemma child_mark [simp]: "child (mark i a p) = map (mark i a) (child p)"
  by (cases p) simp

lemma forest_names_mark [simp]: "forest_names (map (mark i a) ks) = forest_names ks"
  by (simp add: comp_def)

lemma mark_root: "name_of p = a \<Longrightarrow> distinct (names p) \<Longrightarrow> mark i a p = p"
  by (cases p) (simp add: mark_globals_def mark_id_forest)

text \<open>The search results of the Manager's exchange branch, whichever of its three cases applies.\<close>

definition manager_search :: "command \<Rightarrow> proc \<Rightarrow> proc" where
  "manager_search c p =
     (if name_of p = arg 0 c then fst (finds c 1 p)
      else if name_of p = arg 1 c then fst (finds c 0 p)
      else fst (finds c 1 (fst (finds c 0 p))))"

lemma manager_search_marked:
  assumes "wf_command c" "\<not> get_bool 5 c" "distinct (names p)" "Manager \<notin> set (forest_names (child p))"
  shows "manager_search c p = marked (arg 0 c) (arg 1 c) p" "search_lines c p = []"
proof -
  have "name_of (mark i a p) = name_of p" for i a
    by (metis abs_mark sname_abs_tree)
  then show "manager_search c p = marked (arg 0 c) (arg 1 c) p"
    using assms by (auto simp: manager_search_def marked_def finds_manager mark_root)
  show "search_lines c p = []"
    using assms by (simp add: search_lines_def finds_manager)
qed

lemma manager_exchange_ok:
  assumes wf: "wf_proc p" "distinct (names p)" and c: "wf_command c" "\<not> get_bool 5 c"
    and ab: "arg 0 c = a" "arg 1 c = b"
  shows "\<exists>q cs. manager_exchange v c p = (q, cs) \<and> reset_root q = assign_secrets a (fst v) b (snd v) p \<and>
    calls_of a b (psecrets p) cs"
proof -
  obtain e s ks where p: "p = Proc e s ks" by (cases p)
  let ?c = "set_type ''start_exchange'' c"
  let ?ks = "map (marked a b) ks" and ?as = "map (assign_secrets a (fst v) b (snd v)) ks"
  have pipes: "pipe_read s = (\<lambda>_. -1)" "pipe_write s = (\<lambda>_. -1)"
    and dist: "distinct (forest_names ks)" "service_name s \<notin> set (forest_names ks)"
    using wf p by auto
  have "\<forall>k\<in>set ks. delivered a b v ?c k"
    using wf p dist ab by (auto simp: distinct_concat_iff intro!: delivered_start)
  then have go: "\<exists>cs. deliver v ws ?c ?ks = (?as, cs) \<and> calls_of a b (forest_secrets ks) cs"
    if "a \<in> set (forest_names ks) \<longrightarrow> wfd a ks \<in> set ws" "b \<in> set (forest_names ks) \<longrightarrow> wfd b ks \<in> set ws" for ws
    using that dist wfd_kid by (intro deliver_forest) fastforce+
  have found: "manager_search c p = Proc e (with_pipes a b s ks) ?ks"
    using manager_search_marked [OF c wf(2)] kid_root wf(1) p ab by (simp add: marked_Proc [OF pipes] del: wf_proc.simps)
  note simps = manager_exchange_def exchanges_def ab [simplified] p Let_def
    reset_with_pipes [OF pipes] fst_forest_secrets reset_root_def
  consider (first) "service_name s = a" | (second) "service_name s = b" "service_name s \<noteq> a"
    | (none) "service_name s \<noteq> a" "service_name s \<noteq> b" by blast
  then show ?thesis
  proof cases
    case first
    then have na: "a \<notin> set (forest_names ks)" using dist by simp
    with go [of "[wfd b ks]"] obtain cs where
      cs: "deliver v [wfd b ks] ?c ?ks = (?as, cs)" "calls_of a b (forest_secrets ks) cs" by auto
    have "\<exists>r. finds c 1 p = (Proc e (with_pipes a b s ks) ?ks, r)"
      using found first ab p by (cases "finds c 1 p") (simp add: manager_search_def)
    with first na cs show ?thesis
      using calls_of_First [of a "forest_secrets ks" b cs "secret s"]
      by (auto simp: simps simp del: set_concat finds.simps)
  next
    case second
    then have nb: "b \<notin> set (forest_names ks)" and ne: "a \<noteq> b" using dist by auto
    with go [of "[wfd a ks]"] obtain cs where
      cs: "deliver v [wfd a ks] ?c ?ks = (?as, cs)" "calls_of a b (forest_secrets ks) cs" by auto
    have "\<exists>r. finds c 0 p = (Proc e (with_pipes a b s ks) ?ks, r)"
      using found second ab p by (cases "finds c 0 p") (simp add: manager_search_def)
    with second nb ne cs show ?thesis
      using calls_of_Second [of a b "forest_secrets ks" cs "secret s"]
      by (auto simp: simps simp del: set_concat finds.simps)
  next
    case none
    define ws where "ws = (if wfd a ks = wfd b ks then [wfd a ks] else [wfd a ks, wfd b ks])"
    have "\<exists>cs. deliver v ws ?c ?ks = (?as, cs) \<and> calls_of a b (forest_secrets ks) cs"
      by (intro go) (auto simp: ws_def simp del: set_concat)
    then obtain cs where cs: "deliver v ws ?c ?ks = (?as, cs)" "calls_of a b (forest_secrets ks) cs" by blast
    have "\<exists>r. finds c 1 (fst (finds c 0 p)) = (Proc e (with_pipes a b s ks) ?ks, r)"
      using found none ab p by (cases "finds c 1 (fst (finds c 0 p))") (simp add: manager_search_def)
    moreover have "calls_of a b ((service_name s, secret s) # forest_secrets ks) cs"
      using none cs(2) by (rule calls_of_other)
    ultimately show ?thesis using none cs
      by (auto simp: simps ws_def split: if_splits simp del: set_concat finds.simps)
  qed
qed

end
