(* ===== verification/Service_Rendezvous.thy ===== *)
theory Service_Rendezvous
  imports Service_Ops
begin

text \<open>
  The two FIFOs of an exchange (\<open>exchanges\<close> of \<open>HW2/service.c\<close>), as a step relation of the two
  processes that call it at the same time. \<open>open\<close> of a FIFO returns when the other end is open or
  being opened; \<open>read\<close> waits for data as long as somebody has the other end open. The first role
  writes to the first FIFO and reads from the second one, the second role the other way round.
  The theory shows that the two calls never deadlock, need at most fourteen steps, and leave each
  process with the secret of the other one, and that a call without a partner never returns.
\<close>

datatype fifo_pc = Absent | Start | Open1 | Open2 | Reading | Printing | Writing | Closing | Done

record meeting =
  pc1 :: fifo_pc
  pc2 :: fifo_pc
  sec1 :: "64 word"
  sec2 :: "64 word"
  tmp1 :: "64 word"
  fifo1 :: "64 word list"
  fifo2 :: "64 word list"
  printed :: "string list"

text \<open>The process has called \<open>open\<close> on the first, on the second FIFO and has not closed it.\<close>

definition in1 :: "fifo_pc \<Rightarrow> bool" where
  "in1 pc \<longleftrightarrow> pc \<noteq> Absent \<and> pc \<noteq> Start \<and> pc \<noteq> Done"

definition in2 :: "fifo_pc \<Rightarrow> bool" where
  "in2 pc \<longleftrightarrow> in1 pc \<and> pc \<noteq> Open1"

text \<open>\<open>a\<close> and \<open>b\<close> are the names in \<open>content[0]\<close> and \<open>content[1]\<close>. The first eight rules are the
  first role, the others the second role; a \<open>read\<close> of an empty FIFO that nobody has open for
  writing returns nothing.\<close>

inductive meet_step :: "string \<Rightarrow> string \<Rightarrow> meeting \<Rightarrow> meeting \<Rightarrow> bool" for a b where
  first_call: "pc1 m = Start \<Longrightarrow> meet_step a b m (m\<lparr>pc1 := Open1\<rparr>)"
| first_open1: "pc1 m = Open1 \<Longrightarrow> in1 (pc2 m) \<Longrightarrow> meet_step a b m (m\<lparr>pc1 := Open2\<rparr>)"
| first_open2: "pc1 m = Open2 \<Longrightarrow> in2 (pc2 m) \<Longrightarrow> meet_step a b m (m\<lparr>pc1 := Reading\<rparr>)"
| first_read: "pc1 m = Reading \<Longrightarrow> fifo2 m = v # vs \<Longrightarrow>
    meet_step a b m (m\<lparr>pc1 := Printing, tmp1 := v, fifo2 := vs\<rparr>)"
| first_eof: "pc1 m = Reading \<Longrightarrow> fifo2 m = [] \<Longrightarrow> \<not> in2 (pc2 m) \<Longrightarrow> meet_step a b m (m\<lparr>pc1 := Printing\<rparr>)"
| first_print: "pc1 m = Printing \<Longrightarrow>
    meet_step a b m (m\<lparr>pc1 := Writing, printed := printed m @ [print_acquire_secret a b (tmp1 m)]\<rparr>)"
| first_write: "pc1 m = Writing \<Longrightarrow> in1 (pc2 m) \<Longrightarrow>
    meet_step a b m (m\<lparr>pc1 := Closing, fifo1 := fifo1 m @ [sec1 m], sec1 := tmp1 m\<rparr>)"
| first_close: "pc1 m = Closing \<Longrightarrow> meet_step a b m (m\<lparr>pc1 := Done\<rparr>)"
| second_call: "pc2 m = Start \<Longrightarrow> meet_step a b m (m\<lparr>pc2 := Open1\<rparr>)"
| second_open1: "pc2 m = Open1 \<Longrightarrow> in1 (pc1 m) \<Longrightarrow> meet_step a b m (m\<lparr>pc2 := Open2\<rparr>)"
| second_open2: "pc2 m = Open2 \<Longrightarrow> in2 (pc1 m) \<Longrightarrow> meet_step a b m (m\<lparr>pc2 := Writing\<rparr>)"
| second_write: "pc2 m = Writing \<Longrightarrow> in2 (pc1 m) \<Longrightarrow>
    meet_step a b m (m\<lparr>pc2 := Reading, fifo2 := fifo2 m @ [sec2 m]\<rparr>)"
| second_read: "pc2 m = Reading \<Longrightarrow> fifo1 m = v # vs \<Longrightarrow>
    meet_step a b m (m\<lparr>pc2 := Printing, sec2 := v, fifo1 := vs\<rparr>)"
| second_eof: "pc2 m = Reading \<Longrightarrow> fifo1 m = [] \<Longrightarrow> \<not> in1 (pc1 m) \<Longrightarrow> meet_step a b m (m\<lparr>pc2 := Printing\<rparr>)"
| second_print: "pc2 m = Printing \<Longrightarrow>
    meet_step a b m (m\<lparr>pc2 := Closing, printed := printed m @ [print_acquire_secret b a (sec2 m)]\<rparr>)"
| second_close: "pc2 m = Closing \<Longrightarrow> meet_step a b m (m\<lparr>pc2 := Done\<rparr>)"

text \<open>The start: the processes that have been told to exchange call \<open>exchanges\<close>.\<close>

definition meet_start :: "call list \<Rightarrow> meeting \<Rightarrow> bool" where
  "meet_start cs m \<longleftrightarrow>
     (case map_of cs First of None \<Rightarrow> pc1 m = Absent | Some (n, v) \<Rightarrow> pc1 m = Start \<and> sec1 m = v) \<and>
     (case map_of cs Second of None \<Rightarrow> pc2 m = Absent | Some (n, v) \<Rightarrow> pc2 m = Start \<and> sec2 m = v) \<and>
     fifo1 m = [] \<and> fifo2 m = [] \<and> printed m = []"

text \<open>Every call that was made has returned.\<close>

definition meet_done :: "meeting \<Rightarrow> bool" where
  "meet_done m \<longleftrightarrow> pc1 m \<in> {Absent, Done} \<and> pc2 m \<in> {Absent, Done}"

section \<open>Both roles present\<close>

text \<open>How far a role has come.\<close>

fun rank1 :: "fifo_pc \<Rightarrow> nat" where
  "rank1 Absent = 0" | "rank1 Start = 0" | "rank1 Open1 = 1" | "rank1 Open2 = 2" | "rank1 Reading = 3"
| "rank1 Printing = 4" | "rank1 Writing = 5" | "rank1 Closing = 6" | "rank1 Done = 7"

fun rank2 :: "fifo_pc \<Rightarrow> nat" where
  "rank2 Absent = 0" | "rank2 Start = 0" | "rank2 Open1 = 1" | "rank2 Open2 = 2" | "rank2 Writing = 3"
| "rank2 Reading = 4" | "rank2 Printing = 5" | "rank2 Closing = 6" | "rank2 Done = 7"

definition meet_inv :: "string \<Rightarrow> string \<Rightarrow> 64 word \<Rightarrow> 64 word \<Rightarrow> meeting \<Rightarrow> bool" where
  "meet_inv a b x y m \<longleftrightarrow>
     pc1 m \<noteq> Absent \<and> pc2 m \<noteq> Absent \<and>
     (2 \<le> rank1 (pc1 m) \<longrightarrow> 1 \<le> rank2 (pc2 m)) \<and> (2 \<le> rank2 (pc2 m) \<longrightarrow> 1 \<le> rank1 (pc1 m)) \<and>
     (3 \<le> rank1 (pc1 m) \<longrightarrow> 2 \<le> rank2 (pc2 m)) \<and> (3 \<le> rank2 (pc2 m) \<longrightarrow> 2 \<le> rank1 (pc1 m)) \<and>
     (4 \<le> rank1 (pc1 m) \<longrightarrow> 4 \<le> rank2 (pc2 m)) \<and> (5 \<le> rank2 (pc2 m) \<longrightarrow> 6 \<le> rank1 (pc1 m)) \<and>
     fifo2 m = (if 4 \<le> rank2 (pc2 m) \<and> rank1 (pc1 m) \<le> 3 then [y] else []) \<and>
     fifo1 m = (if 6 \<le> rank1 (pc1 m) \<and> rank2 (pc2 m) \<le> 4 then [x] else []) \<and>
     (4 \<le> rank1 (pc1 m) \<longrightarrow> tmp1 m = y) \<and>
     sec1 m = (if 6 \<le> rank1 (pc1 m) then y else x) \<and>
     sec2 m = (if 5 \<le> rank2 (pc2 m) then x else y) \<and>
     printed m = (if 5 \<le> rank1 (pc1 m) then [print_acquire_secret a b y] else []) @
       (if 6 \<le> rank2 (pc2 m) then [print_acquire_secret b a x] else [])"

definition meet_work :: "meeting \<Rightarrow> nat" where
  "meet_work m = 14 - (rank1 (pc1 m) + rank2 (pc2 m))"

definition both_called :: "string \<Rightarrow> string \<Rightarrow> 64 word \<Rightarrow> 64 word \<Rightarrow> meeting \<Rightarrow> bool" where
  "both_called a b x y m \<longleftrightarrow> meet_start [(First, a, x), (Second, b, y)] m"

lemma rank_le: "rank1 p \<le> 7" "rank2 p \<le> 7"
  by (cases p; simp)+

lemma meet_inv_start: "both_called a b x y m \<Longrightarrow> meet_inv a b x y m"
  by (simp add: both_called_def meet_start_def meet_inv_def)

text \<open>On the other process, a rule only says how far it has come.\<close>

lemma in1_rank1: "in1 p \<longleftrightarrow> 1 \<le> rank1 p \<and> rank1 p \<le> 6"
  and in2_rank1: "in2 p \<longleftrightarrow> 2 \<le> rank1 p \<and> rank1 p \<le> 6"
  and in1_rank2: "in1 p \<longleftrightarrow> 1 \<le> rank2 p \<and> rank2 p \<le> 6"
  and in2_rank2: "in2 p \<longleftrightarrow> 2 \<le> rank2 p \<and> rank2 p \<le> 6"
  by (cases p; simp add: in1_def in2_def)+

lemmas first_rules = in1_rank2 in2_rank2
lemmas second_rules = in1_rank1 in2_rank1

lemma meet_inv_step:
  assumes "meet_step a b m m'" "meet_inv a b x y m"
  shows "meet_inv a b x y m'"
  using assms
proof (cases rule: meet_step.cases)
  case second_open1
  with assms(2) show ?thesis by (simp add: meet_inv_def second_rules)
next
  case second_open2
  with assms(2) show ?thesis by (simp add: meet_inv_def second_rules)
next
  case second_write
  with assms(2) show ?thesis by (simp add: meet_inv_def second_rules)
next
  case second_read
  with assms(2) show ?thesis by (simp add: meet_inv_def second_rules split: if_splits)
next
  case second_eof
  with assms(2) show ?thesis using rank_le(1) [of "pc1 m"]
    by (auto simp: meet_inv_def second_rules split: if_splits)
qed (auto simp: meet_inv_def first_rules split: if_splits)

lemma meet_work_step:
  assumes "meet_step a b m m'"
  shows "meet_work m' < meet_work m"
  using assms rank_le(1) [of "pc1 m"] rank_le(2) [of "pc2 m"]
  by (cases rule: meet_step.cases) (simp_all add: meet_work_def)

interpretation meet: terminating_system "both_called a b x y" "meet_step a b" "meet_inv a b x y" meet_work
  for a b x y
  by unfold_locales (auto intro: meet_inv_start meet_inv_step meet_work_step)

text \<open>No deadlock: as long as one of the two calls has not returned, one of them can go on.\<close>

lemma meet_progress:
  assumes "meet_inv a b x y m" "\<not> meet_done m"
  shows "\<exists>m'. meet_step a b m m'"
proof (cases "pc1 m")
  case Open1
  with assms(1) have "pc2 m = Start \<or> in1 (pc2 m)"
    by (cases "pc2 m") (auto simp: meet_inv_def in1_def)
  with Open1 show ?thesis by (blast intro: first_open1 second_call)
next
  case Open2
  with assms(1) have "pc2 m = Open1 \<and> in1 (pc1 m) \<or> in2 (pc2 m)"
    by (cases "pc2 m") (auto simp: meet_inv_def in1_def in2_def)
  with Open2 show ?thesis by (blast intro: first_open2 second_open1)
next
  case Reading
  with assms(1) have "fifo2 m = [y] \<or> (pc2 m = Open2 \<or> pc2 m = Writing) \<and> in2 (pc1 m)"
    by (cases "pc2 m") (auto simp: meet_inv_def in1_def in2_def)
  with Reading show ?thesis by (blast intro: first_read second_open2 second_write)
next
  case Writing
  with assms(1) have "in1 (pc2 m)" by (cases "pc2 m") (auto simp: meet_inv_def in1_def)
  with Writing show ?thesis by (blast intro: first_write)
next
  case Done
  with assms have "pc2 m = Reading \<and> fifo1 m = [x] \<or> pc2 m = Printing \<or> pc2 m = Closing"
    by (cases "pc2 m") (auto simp: meet_inv_def meet_done_def)
  then show ?thesis by (blast intro: second_read second_print second_close)
next
  case Absent
  with assms show ?thesis by (simp add: meet_inv_def)
qed (blast intro: first_call first_print first_close)+

lemma meet_final: "meet_inv a b x y m \<Longrightarrow> meet_done m \<Longrightarrow>
    sec1 m = y \<and> sec2 m = x \<and> printed m = [print_acquire_secret a b y, print_acquire_secret b a x]"
  by (auto simp: meet_inv_def meet_done_def)

lemma meet_done_final: "meet_done m \<Longrightarrow> \<not> meet_step a b m m'"
  by (auto simp: meet_done_def elim!: meet_step.cases)

section \<open>One role missing\<close>

definition alone_inv :: "meeting \<Rightarrow> bool" where
  "alone_inv m \<longleftrightarrow> printed m = [] \<and>
     (pc1 m \<in> {Start, Open1} \<and> pc2 m = Absent \<or> pc2 m \<in> {Start, Open1} \<and> pc1 m = Absent)"

definition alone_start :: "meeting \<Rightarrow> bool" where
  "alone_start m \<longleftrightarrow> (\<exists>r n v. meet_start [(r, n, v)] m)"

lemma alone_inv_start: "alone_start m \<Longrightarrow> alone_inv m"
proof -
  assume "alone_start m"
  then obtain r n v where "meet_start [(r, n, v)] m" by (auto simp: alone_start_def)
  then show "alone_inv m" by (cases r) (auto simp: meet_start_def alone_inv_def)
qed

lemma alone_inv_step: "meet_step a b m m' \<Longrightarrow> alone_inv m \<Longrightarrow> alone_inv m'"
  by (erule meet_step.cases) (auto simp: alone_inv_def in1_def in2_def)

interpretation alone: invariant_system alone_start "meet_step a b" alone_inv for a b
  by unfold_locales (auto intro: alone_inv_start alone_inv_step)

lemma alone_not_done: "alone_inv m \<Longrightarrow> \<not> meet_done m"
  by (auto simp: alone_inv_def meet_done_def)

end
