(* ===== verification/Service_Manager.thy ===== *)
theory Service_Manager
  imports Service_Exchange Service_Rendezvous "HOL-Library.Multiset"
begin

text \<open>
  The Manager's handlers on the whole tree: what each command does to the tree and prints, with the
  names of the services kept different. The last part is the parser: what \<open>read_and_split\<close> makes
  of the words of a command.
\<close>

section \<open>The names in the tree\<close>

lemma replicate_mset_add: "replicate_mset (a + b) x = replicate_mset a x + replicate_mset b x"
  by (induction a) auto

lemma mset_add_leaf:
  "mset (preorder (add_leaf n (Service m v []) t)) =
     mset (preorder t) + replicate_mset (count (mset (preorder t)) n) m"
proof (induction t)
  case (Service k w ts)
  have "mset (concat (map preorder (map (add_leaf n (Service m v [])) ts))) =
      mset (concat (map preorder ts)) + replicate_mset (count (mset (concat (map preorder ts))) n) m"
    using Service by (induction ts) (auto simp: replicate_mset_add)
  then show ?case by (simp del: map_map)
qed

lemma distinct_mset_subset: "mset xs \<subseteq># mset ys \<Longrightarrow> distinct ys \<Longrightarrow> distinct xs"
proof -
  assume sub: "mset xs \<subseteq># mset ys" and ys: "distinct ys"
  have "count (mset xs) a = (if a \<in> set xs then 1 else 0)" for a
  proof -
    have "count (mset xs) a \<le> count (mset ys) a" using sub by (rule mset_subset_eq_count)
    also have "\<dots> \<le> 1" using ys by (simp add: distinct_count_atmost_1)
    finally have "count (mset xs) a \<le> 1" .
    moreover have "0 < count (mset xs) a \<longleftrightarrow> a \<in> set xs" by simp
    ultimately show ?thesis by (cases "count (mset xs) a") auto
  qed
  then show ?thesis by (simp add: distinct_count_atmost_1)
qed

lemma distinct_add_leaf:
  assumes "distinct (preorder t)" "n \<in> set (preorder t)" "m \<notin> set (preorder t)"
  shows "distinct (preorder (add_leaf n (Service m v []) t))"
proof -
  have "count (mset (preorder t)) n = 1"
    using assms(1,2) by (simp add: distinct_count_atmost_1)
  then have "mset (preorder (add_leaf n (Service m v []) t)) = mset (m # preorder t)"
    by (simp add: mset_add_leaf)
  moreover have "distinct (m # preorder t)" using assms by simp
  ultimately show ?thesis by (metis distinct_mset_subset subset_mset.order_refl)
qed

lemma mset_prune: "mset (preorder (prune n t)) \<subseteq># mset (preorder t)"
proof (induction t)
  case (Service k w ts)
  have "mset (concat (map preorder (map (prune n) (filter (\<lambda>t. sname t \<noteq> n) ts)))) \<subseteq>#
      mset (concat (map preorder ts))"
    using Service by (induction ts) (auto intro: subset_mset.add_mono subset_mset.add_increasing)
  then show ?case by (simp del: map_map)
qed

lemma preorder_assign2 [simp]: "preorder (assign2 a va b vb t) = preorder t"
proof (induction t)
  case (Service m v ts)
  then have "map preorder (map (assign2 a va b vb) ts) = map preorder ts" by simp
  then show ?case by (simp del: map_map)
qed

lemma manager_tree_Proc:
  "manager_tree (Proc e s ks) \<longleftrightarrow> wf_proc (Proc e s ks) \<and> service_name s = Manager"
  by (simp add: manager_tree_def)

lemma kids_below: "wf_proc (Proc e s ks) \<Longrightarrow> k \<in> set ks \<Longrightarrow> below_manager k"
  by (simp add: wf_proc_iff del: wf_proc.simps)

lemma manager_name_lengths:
  assumes "manager_tree p" "n \<in> set (names p)"
  shows "length n < 16"
proof -
  have below: "below_manager q \<Longrightarrow> n \<in> set (names q) \<Longrightarrow> length n < 16" for q
    by (induction q) (auto simp: below_manager_Proc)
  obtain e s ks where "p = Proc e s ks" by (cases p)
  then show ?thesis using assms below kids_below [of e s ks]
    by (auto simp: manager_tree_def Manager_def simp del: wf_proc.simps)
qed

section \<open>Spawn\<close>

lemma manager_spawn_known:
  assumes "manager_tree p" "distinct (names p)" "type_of c = ''spawn''" "arg 0 c \<in> set (names p)"
  shows "(\<exists>f. spawn_branch env i c p = Inl f \<and> \<not> (has_room p \<and> fits (arg 1 c))) \<or>
    (\<exists>p'. spawn_branch env i c p = Inr (p', ''spawn_success'',
        reports c (upto_first (arg 0 c) (names p)) @ [spawn_line env i c, print_spawn (arg 0 c) (arg 1 c)]) \<and>
      manager_tree p' \<and> abs_tree p' = add_leaf (arg 0 c) (new_leaf env i (arg 1 c)) (abs_tree p))"
proof -
  obtain e s ks where p: "p = Proc e s ks" by (cases p)
  have wf: "wf_proc (Proc e s ks)" and s: "service_name s = Manager"
    using assms(1) p by (auto simp: manager_tree_Proc)
  consider (fail) "arg 0 c = service_name s" "\<not> (length ks < 40 \<and> fits (arg 1 c))"
    | (here) "arg 0 c = service_name s" "length ks < 40" "fits (arg 1 c)"
    | (down) "arg 0 c \<noteq> service_name s" by blast
  then show ?thesis
  proof cases
    case fail
    then show ?thesis using spawns_fails [OF fail(2), of env i s] p by auto
  next
    case here
    then have "arg 0 c \<notin> set (forest_names ks)" using assms(2) p by simp
    with spawn_here [OF wf here(2,3,1)] obtain ks' where
      "spawns env i (arg 1 c) s ks = Inr (ks', spawn_line env i c)" "ks' \<noteq> []"
      "abs_tree (Proc e s ks') = add_leaf (arg 0 c) (new_leaf env i (arg 1 c)) (abs_tree (Proc e s ks))"
      "wf_proc (Proc e s ks')" by metis
    with assms(3) here(1) s show ?thesis unfolding p
      by (simp add: spawn_report_def is_manager_def manager_tree_Proc del: abs_tree.simps wf_proc.simps)
  next
    case down
    then have "spawn_loop_outcome env i c [] ks"
      using assms(2-) p kids_below [OF wf] by (intro spawn_hit(2)) auto
    then consider (fault) f where "spawn_loop env i c [] ks = Inl f"
        "\<not> ((\<forall>k\<in>set ks. has_room k) \<and> fits (arg 1 c))"
      | (leaf) ks' where "spawn_loop env i c [] ks = Inr (ks', True, ''spawn_success'',
          reports c (upto_first (arg 0 c) (forest_names ks)) @ [spawn_line env i c])" "spawned env i c ks ks'"
      by (auto simp: spawn_loop_outcome_def)
    then show ?thesis
    proof cases
      case fault
      with down p show ?thesis by auto
    next
      case leaf
      then have "ks' \<noteq> []" using assms(4) down p by (auto simp: spawned_def)
      with leaf(1) spawned_node [OF leaf(2) wf] down s assms(3) show ?thesis unfolding p
        by (simp add: spawn_report_def is_manager_def manager_tree_Proc del: abs_tree.simps wf_proc.simps)
    qed
  qed
qed

lemma manager_spawn_unknown:
  assumes "manager_tree p" "type_of c = ''spawn''" "arg 0 c \<notin> set (names p)"
  shows "spawn_branch env i c p =
    Inr (p, ''spawn_failed'', reports c (names p) @ [print_not_exist (arg 0 c)])"
proof -
  obtain e s ks where p: "p = Proc e s ks" by (cases p)
  have wf: "wf_proc (Proc e s ks)" and s: "service_name s = Manager"
    using assms(1) p by (auto simp: manager_tree_Proc)
  have "spawn_loop env i c [] ks =
       Inr (ks, False, if ks = [] then [] else ''spawn_failed'', reports c (forest_names ks))"
    using assms(2,3) p kids_below [OF wf] by (intro spawn_miss(2)) auto
  with assms p s show ?thesis by (simp add: spawn_report_def is_manager_def)
qed

section \<open>Kill\<close>

lemma manager_kill_known:
  assumes "manager_tree p" "distinct (names p)" "type_of c = ''kill''" "wf_env env"
    "arg 0 c \<in> set (names p)" "arg 0 c \<noteq> Manager" "int (length (names p)) < 2147483648"
  shows "\<exists>p' r mid. kill_branch env c p =
      (Some p', r, reports c (upto_first (arg 0 c) (names p)) @ mid @
         [print_kill (arg 0 c) (int (subtree_size (arg 0 c) (abs_tree p)) - 1)]) \<and>
    manager_tree p' \<and> abs_tree p' = prune (arg 0 c) (abs_tree p) \<and> (quiet env (names p) \<longrightarrow> mid = [])"
proof -
  obtain e s ks where p: "p = Proc e s ks" by (cases p)
  have wf: "wf_proc (Proc e s ks)" and s: "service_name s = Manager"
    using assms(1) p by (auto simp: manager_tree_Proc)
  have ne: "service_name s \<noteq> arg 0 c" using assms(6) s by simp
  have "\<exists>ks' r mid. kill_loop env c (set_type ''kill_failed'' c) ks =
         (ks', True, r, reports c (upto_first (arg 0 c) (forest_names ks)) @ mid) \<and>
       type_of r \<noteq> ''kill_failed'' \<and> killed env c ks ks' r \<and>
       (quiet env (forest_names ks) \<longrightarrow> mid = [])"
    using assms p ne kids_below [OF wf] by (intro kill_hit(2)) auto
  then obtain ks' r mid where ks': "kill_loop env c (set_type ''kill_failed'' c) ks =
         (ks', True, r, reports c (upto_first (arg 0 c) (forest_names ks)) @ mid)"
    "type_of r \<noteq> ''kill_failed''" "killed env c ks ks' r" "quiet env (forest_names ks) \<longrightarrow> mid = []"
    by blast
  have "quiet env (names p) \<longrightarrow> mid = []" using ks'(4) p by (simp add: quiet_def)
  with ks' killed_node [OF ks'(3) wf ne] ne s assms(3) show ?thesis unfolding p
    by (simp add: is_manager_def manager_tree_Proc del: abs_tree.simps wf_proc.simps)
qed

lemma manager_kill_unknown:
  assumes "manager_tree p" "type_of c = ''kill''" "arg 0 c \<notin> set (names p)"
  shows "\<exists>r. kill_branch env c p = (Some p, r, reports c (names p) @ [print_not_exist (arg 0 c)])"
proof -
  obtain e s ks where p: "p = Proc e s ks" by (cases p)
  have wf: "wf_proc (Proc e s ks)" and s: "service_name s = Manager"
    using assms(1) p by (auto simp: manager_tree_Proc)
  obtain r where "kill_loop env c (set_type ''kill_failed'' c) ks = (ks, False, r, reports c (forest_names ks))"
    "type_of r = ''kill_failed''"
    using kill_miss(2) [of c "set_type ''kill_failed'' c" ks env] assms(2,3) p kids_below [OF wf] by auto
  with assms p s show ?thesis by (auto simp: is_manager_def)
qed

lemma manager_kill_manager:
  assumes "manager_tree p" "type_of c = ''kill''" "arg 0 c = Manager" "wf_env env"
    "int (length (names p)) < 2147483648"
  shows "\<exists>r mid. kill_branch env c p =
      (None, r, reports c [Manager] @ mid @ [print_kill Manager (int (length (names p)) - 1)]) \<and>
    (quiet env (names p) \<longrightarrow> mid = [])"
proof -
  obtain e s ks where p: "p = Proc e s ks" by (cases p)
  have wf: "wf_proc (Proc e s ks)" and s: "service_name s = Manager"
    using assms(1) p by (auto simp: manager_tree_Proc)
  have "fst (suicide_loop env s 1 ks) = 1 + int (length (forest_names ks))"
    using assms(4,5) p by (intro suicide_count(2)) auto
  moreover have "quiet env (names p) \<longrightarrow> snd (suicide_loop env s 1 ks) = []"
    using suicide_quiet(2) [of ks env s 1] kids_below [OF wf] p by (auto simp: quiet_def)
  ultimately show ?thesis using assms(2,3) p s
    by (simp add: is_manager_def case_prod_beta Let_def)
qed

section \<open>Exchange\<close>

text \<open>A command as \<open>read_and_split\<close> leaves it: the counter in \<open>content[6]\<close> is zero.\<close>

definition fresh_command :: "command \<Rightarrow> bool" where
  "fresh_command c \<longleftrightarrow> wf_command c \<and> content c ! 6 = replicate 64 NUL"

lemma replicate_64: "replicate 64 NUL = encode_int 0 @ replicate 60 NUL"
  by code_simp

lemma set_int_zero: "6 < length (content c) \<Longrightarrow> content c ! 6 = replicate 64 NUL \<Longrightarrow> set_int 6 0 c = c"
proof -
  assume "6 < length (content c)" and z: "content c ! 6 = replicate 64 NUL"
  have "poke 0 (encode_int 0) (content c ! 6) = content c ! 6"
    unfolding z replicate_64 by (simp add: poke_0)
  then show ?thesis by (simp add: set_int_def set_bytes_def)
qed

lemma exchange_request_ok:
  assumes "fresh_command c" "type_of c = ''exchange''" "length (arg 0 c) < 16" "length (arg 1 c) < 16"
  shows "\<exists>c1. exchange_request c = Inr c1 \<and> wf_command c1 \<and> type_of c1 = ''exchange'' \<and> get_bool 5 c1 \<and>
    arg 0 c1 = arg 0 c \<and> arg 1 c1 = arg 1 c \<and> line_of c1 = line_of c \<and> set_int 6 0 c1 = c1"
proof -
  let ?f1 = "fifo_name (arg 0 c) (arg 1 c)" and ?f2 = "fifo_name (arg 1 c) (arg 0 c)"
  let ?c0 = "set_bool 5 True (set_bytes 3 (?f2 @ [NUL]) (set_bytes 2 (?f1 @ [NUL]) c))"
  let ?c1 = "set_bytes 6 [NUL] ?c0"
  have len: "length ?f1 < 64" "length ?f2 < 64" using assms(3,4) by (auto simp: fifo_name_def)
  then have wf: "wf_command ?c0" "wf_command ?c1"
    using assms(1) by (auto simp: fresh_command_def)
  have "content ?c0 ! 6 = replicate 64 NUL"
    using assms(1) by (simp add: fresh_command_def set_bool_def)
  then have "content ?c1 ! 6 = poke 0 [NUL] (replicate 64 NUL)"
    using wf_length_content [OF wf(1)] by (simp add: set_bytes_def [of 6])
  also have "\<dots> = replicate 64 NUL" by code_simp
  finally have "set_int 6 0 ?c1 = ?c1"
    using wf(2) assms(1) by (intro set_int_zero) (auto simp: fresh_command_def)
  moreover have "exchange_request c = Inr ?c1" using len by (simp add: exchange_request_def)
  ultimately show ?thesis using wf(2) assms(1,2) by (auto simp: fresh_command_def)
qed

lemma manager_walk:
  assumes "wf_command c" "type_of c = ''exchange''" "get_bool 5 c" "set_int 6 0 c = c"
  shows "print_receive_command (name_of p) (line_of c) # snd (traverse c p) =
    reports c (upto_both (arg 0 c) (arg 1 c) 0 (names p))"
  using traverse_walk(1) [of c 0 c p] assms by simp

lemma calls_of_values:
  assumes "calls_of a b ns cs" "a \<noteq> b"
  shows "fifo_values cs = (case (map_of ns a, map_of ns b) of
      (Some x, Some y) \<Rightarrow> Some (y, x) | (None, None) \<Rightarrow> Some (0, 0) | _ \<Rightarrow> None)"
    and "acquire_lines c cs = (case (map_of ns a, map_of ns b) of
      (Some x, Some y) \<Rightarrow> [print_acquire_secret a (arg 1 c) y, print_acquire_secret b (arg 0 c) x] | _ \<Rightarrow> [])"
  using assms by (auto simp: calls_of_def fifo_values_def acquire_lines_def split: option.splits)

text \<open>The Manager's exchange, in terms of the secrets that the two services have.\<close>

lemma manager_exchange_command:
  assumes p: "manager_tree p" "distinct (names p)" and c: "fresh_command c" "type_of c = ''exchange''"
    and len: "length (arg 0 c) < 16" "length (arg 1 c) < 16" and ne: "arg 0 c \<noteq> arg 1 c"
  shows "exchange_branch c p =
    (case (secret_in (arg 0 c) (abs_tree p), secret_in (arg 1 c) (abs_tree p)) of
       (Some x, Some y) \<Rightarrow> Inr (assign_secrets (arg 0 c) y (arg 1 c) x p,
          reports c (upto_both (arg 0 c) (arg 1 c) 0 (names p)) @
          [print_acquire_secret (arg 0 c) (arg 1 c) y, print_acquire_secret (arg 1 c) (arg 0 c) x,
           print_exchange (arg 0 c) (arg 1 c)])
     | (None, None) \<Rightarrow> Inr (p, reports c (names p) @ [print_exchange (arg 0 c) (arg 1 c)])
     | _ \<Rightarrow> Inl Blocked)"
proof -
  obtain c1 where c1: "exchange_request c = Inr c1" "wf_command c1" "type_of c1 = ''exchange''"
    "get_bool 5 c1" "arg 0 c1 = arg 0 c" "arg 1 c1 = arg 1 c" "line_of c1 = line_of c" "set_int 6 0 c1 = c1"
    using exchange_request_ok [OF c len] by blast
  define c2 where "c2 = set_bool 5 False c1"
  have c2: "wf_command c2" "\<not> get_bool 5 c2" "arg 0 c2 = arg 0 c" "arg 1 c2 = arg 1 c"
    using c1 by (auto simp: c2_def)
  obtain e s ks where pp: "p = Proc e s ks" by (cases p)
  have wf: "wf_proc p" and name: "name_of p = Manager" using p(1) by (auto simp: manager_tree_def)
  have quiet: "search_lines c2 p = []"
    using manager_search_marked(2) [OF c2(1,2) p(2)] kid_root wf pp by (simp del: wf_proc.simps)
  have walk: "announce c (globals p) @ snd (traverse c1 p) =
      reports c (upto_both (arg 0 c) (arg 1 c) 0 (names p))"
    using manager_walk [OF c1(2,3,4,8), of p] c1(5-7) c(2) name
    by (simp add: announce_def is_manager_def reports_def)
  note run = manager_exchange_ok [OF wf p(2) c2]
  obtain q0 cs where cs: "manager_exchange (0, 0) c2 p = (q0, cs)"
    "calls_of (arg 0 c) (arg 1 c) (psecrets p) cs" using run [of "(0, 0)"] by blast
  note vals = calls_of_values [OF cs(2) ne]
  have sec: "map_of (psecrets p) n = secret_in n (abs_tree p)" for n
    by (simp add: psecrets_def secret_in_def)
  have final: "reset_root (fst (manager_exchange v c2 p)) = assign_secrets (arg 0 c) (fst v) (arg 1 c) (snd v) p" for v
    using run [of v] by auto
  have "exchange_branch c p = (case fifo_values cs of None \<Rightarrow> Inl Blocked
      | Some v \<Rightarrow> Inr (assign_secrets (arg 0 c) (fst v) (arg 1 c) (snd v) p,
          reports c (upto_both (arg 0 c) (arg 1 c) 0 (names p)) @ acquire_lines c2 cs @
          [print_exchange (arg 0 c) (arg 1 c)]))"
    using c1(1) cs(1) quiet walk final
    by (simp add: exchange_branch_def Let_def c2_def [symmetric] split: option.splits)
  then have eq: "exchange_branch c p =
    (case (secret_in (arg 0 c) (abs_tree p), secret_in (arg 1 c) (abs_tree p)) of
       (Some x, Some y) \<Rightarrow> Inr (assign_secrets (arg 0 c) y (arg 1 c) x p,
          reports c (upto_both (arg 0 c) (arg 1 c) 0 (names p)) @
          [print_acquire_secret (arg 0 c) (arg 1 c) y, print_acquire_secret (arg 1 c) (arg 0 c) x,
           print_exchange (arg 0 c) (arg 1 c)])
     | (None, None) \<Rightarrow> Inr (assign_secrets (arg 0 c) 0 (arg 1 c) 0 p,
         reports c (upto_both (arg 0 c) (arg 1 c) 0 (names p)) @ [print_exchange (arg 0 c) (arg 1 c)])
     | _ \<Rightarrow> Inl Blocked)"
    unfolding vals sec c2(3,4) by (auto split: option.splits)
  have "assign_secrets (arg 0 c) 0 (arg 1 c) 0 p = p \<and> upto_both (arg 0 c) (arg 1 c) 0 (names p) = names p"
    if "secret_in (arg 0 c) (abs_tree p) = None" "secret_in (arg 1 c) (abs_tree p) = None"
  proof -
    have "arg 0 c \<notin> set (names p)" "arg 1 c \<notin> set (names p)"
      using that unfolding sec [symmetric] dom_psecrets by auto
    moreover from this have "hits (arg 0 c) (arg 1 c) (names p) = 0"
      by (auto simp: hits_def filter_empty_conv)
    ultimately show ?thesis by (simp add: assign_secrets_id upto_both_all)
  qed
  then show ?thesis unfolding eq by (auto split: option.splits)
qed

text \<open>A service that is to exchange its secret with itself waits for ever.\<close>

lemma manager_exchange_self:
  assumes p: "manager_tree p" "distinct (names p)" and c: "fresh_command c" "type_of c = ''exchange''"
    and self: "arg 0 c = arg 1 c" "arg 0 c \<in> set (names p)"
  shows "exchange_branch c p = Inl Blocked"
proof -
  have len: "length (arg 0 c) < 16" "length (arg 1 c) < 16"
    using manager_name_lengths [OF p(1) self(2)] self(1) by auto
  obtain c1 where c1: "exchange_request c = Inr c1" "wf_command c1"
    "arg 0 c1 = arg 0 c" "arg 1 c1 = arg 1 c"
    using exchange_request_ok [OF c len] by blast
  have wf: "wf_proc p" using p(1) by (simp add: manager_tree_def)
  obtain q0 cs where cs: "manager_exchange (0, 0) (set_bool 5 False c1) p = (q0, cs)"
    "calls_of (arg 0 c) (arg 1 c) (psecrets p) cs"
    using manager_exchange_ok [OF wf p(2), of "set_bool 5 False c1" "arg 0 c" "arg 1 c" "(0, 0)"] c1 by auto
  have "map_of (psecrets p) (arg 0 c) \<noteq> None" using self(2) by (simp add: dom_psecrets)
  then have "fifo_values cs = None"
    using cs(2) self(1) by (auto simp: calls_of_def fifo_values_def)
  then show ?thesis using c1(1) cs(1) by (simp add: exchange_branch_def Let_def)
qed

section \<open>Reading a command\<close>

lemma type_of_zero [simp]: "type_of zero_command = []"
  by code_simp

lemma arg_set_bytes [simp]:
  "i < length (content c) \<Longrightarrow> is_word w \<Longrightarrow> arg i (set_bytes i (w @ [NUL]) c) = w"
  by (simp add: arg_def set_bytes_def poke_0)

lemma cmd_line_update [simp]:
  "type_of (c\<lparr>cmd_line := l\<rparr>) = type_of c" "arg i (c\<lparr>cmd_line := l\<rparr>) = arg i c"
  "content (c\<lparr>cmd_line := l\<rparr>) = content c" "line_of (c\<lparr>cmd_line := l\<rparr>) = cstr l"
  by (simp_all add: type_of_def arg_def line_of_def)

lemma is_word_append [simp]: "is_word (s @ t) \<longleftrightarrow> is_word s \<and> is_word t"
  by (auto simp: is_word_def)

lemma is_word_Cons [simp]: "is_word (x # t) \<longleftrightarrow> x \<noteq> NUL \<and> is_word t"
  by (auto simp: is_word_def)

lemma wf_cmd_line: "wf_command c \<Longrightarrow> length s < 128 \<Longrightarrow> wf_command (c\<lparr>cmd_line := strcpy s (cmd_line c)\<rparr>)"
  by (simp add: wf_command_def length_strcpy)

lemma zero_content_6: "content zero_command ! 6 = replicate 64 NUL"
  by (simp add: zero_command_def)

lemma read_two:
  assumes "t = ''spawn'' \<or> t = ''exchange''" "is_word a" "is_word b" "length a < 50" "length b < 50"
  shows "\<exists>c. read_and_split (t # a # b # ws) = Inr (c, ws) \<and> fresh_command c \<and> type_of c = t \<and>
    arg 0 c = a \<and> arg 1 c = b \<and> line_of c = t @ '' '' @ a @ '' '' @ b"
proof -
  have t: "is_word t" "length t < 20" "length t < 9" using assms(1) by (auto simp: is_word_def)
  let ?c1 = "set_type t zero_command" let ?c2 = "set_bytes 0 (a @ [NUL]) ?c1"
  let ?c3 = "set_bytes 1 (b @ [NUL]) ?c2" let ?l = "t @ '' '' @ a @ '' '' @ b"
  have wf: "wf_command ?c1" "wf_command ?c2" "wf_command ?c3" using t assms by simp_all
  have "length ?l < 128" using t assms by simp
  moreover have "arg 0 ?c3 = a" "arg 1 ?c3 = b" "type_of ?c3 = t"
    using t assms wf by simp_all
  ultimately have "read_and_split (t # a # b # ws) = Inr (?c3\<lparr>cmd_line := strcpy ?l (cmd_line ?c3)\<rparr>, ws)"
    using assms t by (simp add: read_and_split_def sprintf_cmd_def del: cmd_line_update)
  moreover have "fresh_command (?c3\<lparr>cmd_line := strcpy ?l (cmd_line ?c3)\<rparr>)"
    using wf_cmd_line [OF wf(3) \<open>length ?l < 128\<close>] zero_content_6 by (simp add: fresh_command_def)
  moreover have "is_word ?l" using t assms by simp
  ultimately show ?thesis using \<open>arg 0 ?c3 = a\<close> \<open>arg 1 ?c3 = b\<close> \<open>type_of ?c3 = t\<close>
    by (simp del: append_assoc)
qed

lemma read_one:
  assumes "is_word a" "length a < 64"
  shows "\<exists>c. read_and_split (''kill'' # a # ws) = Inr (c, ws) \<and> fresh_command c \<and> type_of c = ''kill'' \<and>
    arg 0 c = a \<and> line_of c = ''kill '' @ a"
proof -
  let ?c1 = "set_type ''kill'' zero_command" let ?c2 = "set_bytes 0 (a @ [NUL]) ?c1"
  let ?l = "''kill '' @ a"
  have w: "is_word ''kill''" by (simp add: is_word_def)
  have wf: "wf_command ?c1" "wf_command ?c2" using assms by simp_all
  have len: "length ?l < 128" using assms by simp
  have "arg 0 ?c2 = a" "type_of ?c2 = ''kill''" using w assms wf by simp_all
  then have "read_and_split (''kill'' # a # ws) = Inr (?c2\<lparr>cmd_line := strcpy ?l (cmd_line ?c2)\<rparr>, ws)"
    using assms len w by (simp add: read_and_split_def sprintf_cmd_def)
  moreover have "fresh_command (?c2\<lparr>cmd_line := strcpy ?l (cmd_line ?c2)\<rparr>)"
    using wf_cmd_line [OF wf(2) len] zero_content_6 by (simp add: fresh_command_def)
  moreover have "is_word ?l" using w assms by simp
  ultimately show ?thesis using \<open>arg 0 ?c2 = a\<close> \<open>type_of ?c2 = ''kill''\<close> by simp
qed

end
