(* ===== verification/Service_Theorems.thy ===== *)
theory Service_Theorems
  imports Service_Manager
begin

text \<open>
  The properties of the service manager (\<open>HW2/service.c\<close>), stated on one iteration of the Manager's
  loop (\<open>serve\<close>), with their instances on a tree of four services.
\<close>

section \<open>Sessions\<close>

text \<open>One command of a session. The names given to \<open>spawn\<close> are new; the number of processes fits an
  \<open>int\<close>.\<close>

inductive svc_step :: "svc_env \<Rightarrow> proc \<Rightarrow> proc \<Rightarrow> bool" for env where
  "\<lbrakk>serve env n c p = Inr (Some p', ls); fresh_command c;
    type_of c = ''spawn'' \<longrightarrow> arg 1 c \<notin> set (names p); int (length (names p)) < 2147483648\<rbrakk> \<Longrightarrow>
   svc_step env p p'"

definition svc_start :: "svc_env \<Rightarrow> proc \<Rightarrow> bool" where
  "svc_start env p \<longleftrightarrow> wf_env env \<and> (\<exists>i. p = start_manager env i)"

definition svc_inv :: "svc_env \<Rightarrow> proc \<Rightarrow> bool" where
  "svc_inv env p \<longleftrightarrow> wf_env env \<and> manager_tree p \<and> distinct (names p)"

lemma svc_inv_start: "svc_start env p \<Longrightarrow> svc_inv env p"
  by (auto simp: svc_start_def svc_inv_def start_manager_def start_process_def manager_tree_def)

lemma spawn_keeps:
  assumes "svc_inv env p" "type_of c = ''spawn''" "arg 1 c \<notin> set (names p)"
    "spawn_branch env i c p = Inr (p', r, ls)"
  shows "svc_inv env p'"
proof (cases "arg 0 c \<in> set (names p)")
  case True
  then have "manager_tree p'" "abs_tree p' = add_leaf (arg 0 c) (new_leaf env i (arg 1 c)) (abs_tree p)"
    using manager_spawn_known [of p c env i] assms by (auto simp: svc_inv_def)
  with assms True show ?thesis
    by (auto simp: svc_inv_def names_def new_leaf_def intro!: distinct_add_leaf)
next
  case False
  with assms show ?thesis by (auto simp: svc_inv_def manager_spawn_unknown)
qed

lemma kill_keeps:
  assumes "svc_inv env p" "type_of c = ''kill''" "int (length (names p)) < 2147483648"
    "kill_branch env c p = (Some p', r, ls)"
  shows "svc_inv env p'"
proof -
  consider (known) "arg 0 c \<in> set (names p)" "arg 0 c \<noteq> Manager" | (mgr) "arg 0 c = Manager"
    | (unknown) "arg 0 c \<notin> set (names p)" by blast
  then show ?thesis
  proof cases
    case known
    then have "manager_tree p'" "abs_tree p' = prune (arg 0 c) (abs_tree p)"
      using manager_kill_known [of p c env] assms by (auto simp: svc_inv_def)
    with assms(1) show ?thesis
      using distinct_mset_subset [OF mset_prune] by (auto simp: svc_inv_def names_def)
  next
    case mgr
    then show ?thesis using manager_kill_manager [of p c env] assms by (auto simp: svc_inv_def)
  next
    case unknown
    then show ?thesis using manager_kill_unknown [of p c env] assms by (auto simp: svc_inv_def)
  qed
qed

lemma exchange_keeps:
  assumes "svc_inv env p" "fresh_command c" "exchange_branch c p = Inr (p', ls)"
  shows "svc_inv env p'"
proof -
  obtain c1 v where c1: "exchange_request c = Inr c1"
    "p' = reset_root (fst (manager_exchange v (set_bool 5 False c1) p))"
    using assms(3) by (auto simp: exchange_branch_def Let_def split: sum.splits option.splits)
  then have wf: "wf_command c1"
    using assms(2) by (auto simp: exchange_request_def fresh_command_def Let_def split: if_splits)
  let ?c = "set_bool 5 False c1"
  have "p' = assign_secrets (arg 0 ?c) (fst v) (arg 1 ?c) (snd v) p"
    using manager_exchange_ok [of p ?c "arg 0 ?c" "arg 1 ?c" v] assms(1) wf c1(2)
    by (auto simp: svc_inv_def manager_tree_def)
  then show ?thesis using assms(1)
    by (simp add: svc_inv_def manager_tree_def wf_assign names_def abs_assign)
qed

lemma reset_pipes_id: "pipe_read s = (\<lambda>_. -1) \<Longrightarrow> pipe_write s = (\<lambda>_. -1) \<Longrightarrow> reset_pipes s = s"
  by (simp add: reset_pipes_def)

lemma stray_start_exchange:
  assumes "svc_inv env p" "start_exchange v c p = (p', calls)" "fifo_values calls \<noteq> None"
  shows "p' = p"
proof -
  obtain e s ks where p: "p = Proc e s ks" by (cases p)
  then have pipes: "pipe_read s = (\<lambda>_. -1)" "pipe_write s = (\<lambda>_. -1)"
    using assms(1) by (auto simp: svc_inv_def manager_tree_def)
  then show ?thesis using assms(2,3) p
    by (auto simp: exchanges_def fifo_values_def reset_pipes_id split: if_splits)
qed

lemma serve_spawn: "type_of c = ''spawn'' \<Longrightarrow> serve env n c p =
    (case spawn_branch env (fork_pid env n) c p of Inl f \<Rightarrow> Inl f | Inr (p', _, ls) \<Rightarrow> Inr (Some p', ls))"
  by (simp add: serve_def)

lemma serve_kill: "type_of c = ''kill'' \<Longrightarrow> serve env n c p =
    (let (p', _, ls) = kill_branch env c p in Inr (p', ls))"
  by (simp add: serve_def)

lemma serve_exchange: "type_of c = ''exchange'' \<Longrightarrow> serve env n c p =
    (case exchange_branch c p of Inl f \<Rightarrow> Inl f | Inr (p', ls) \<Rightarrow> Inr (Some p', ls))"
  by (simp add: serve_def)

lemma serve_start_exchange: "type_of c = ''start_exchange'' \<Longrightarrow> serve env n c p =
    (let (p', calls) = start_exchange (0, 0) c p in
     if fifo_values calls = None then Inl Blocked else Inr (Some p', announce c (globals p)))"
  by (simp add: serve_def)

lemma serve_other:
  "type_of c \<notin> {''spawn'', ''kill'', ''exchange'', ''start_exchange''} \<Longrightarrow>
   serve env n c p = Inr (Some p', ls) \<Longrightarrow> p' = p"
  by (simp add: serve_def split: if_splits)

lemma svc_inv_step: "svc_step env p p' \<Longrightarrow> svc_inv env p \<Longrightarrow> svc_inv env p'"
proof (induction rule: svc_step.induct)
  case (1 n c p p' ls)
  note served = 1(1) and fresh = 1(2) and new = 1(3) and small = 1(4) and inv = 1(5)
  consider "type_of c = ''spawn''" | "type_of c = ''kill''" | "type_of c = ''exchange''"
    | "type_of c = ''start_exchange''"
    | (other) "type_of c \<notin> {''spawn'', ''kill'', ''exchange'', ''start_exchange''}" by blast
  then show ?case
  proof cases
    case 1
    with served obtain r where "spawn_branch env (fork_pid env n) c p = Inr (p', r, ls)"
      by (cases "spawn_branch env (fork_pid env n) c p") (auto simp: serve_spawn [OF 1])
    then show ?thesis using spawn_keeps [OF inv 1 mp [OF new 1]] by blast
  next
    case 2
    with served obtain r where "kill_branch env c p = (Some p', r, ls)"
      by (cases "kill_branch env c p") (auto simp: serve_kill)
    then show ?thesis by (rule kill_keeps [OF inv 2 small])
  next
    case 3
    with served have "exchange_branch c p = Inr (p', ls)"
      by (auto simp: serve_exchange split: sum.splits)
    then show ?thesis by (rule exchange_keeps [OF inv fresh])
  next
    case 4
    with served obtain cs where "start_exchange (0, 0) c p = (p', cs)" "fifo_values cs \<noteq> None"
      by (cases "start_exchange (0, 0) c p") (auto simp: serve_start_exchange split: if_splits)
    with inv show ?thesis using stray_start_exchange by metis
  next
    case other
    with served inv show ?thesis using serve_other by metis
  qed
qed

interpretation svc: invariant_system "svc_start env" "svc_step env" "svc_inv env" for env
  by unfold_locales (auto intro: svc_inv_start svc_inv_step)

section \<open>A tree of four services\<close>

text \<open>The Manager has the children A and C, and A has the child B.\<close>

definition demo_env :: svc_env where
  "demo_env = \<lparr>fork_pid = (\<lambda>n. 100 + int n), rand_of = (\<lambda>i. 7),
     junk_child = (\<lambda>_. zero_command), junk_parent = (\<lambda>_. zero_command)\<rparr>"

definition demo_globals :: "string \<Rightarrow> 64 word \<Rightarrow> pstate" where
  "demo_globals n v = \<lparr>service_name = n, secret = v, pid = 0, pipe_read = (\<lambda>_. -1), pipe_write = (\<lambda>_. -1)\<rparr>"

definition demo_entry :: "string \<Rightarrow> int \<Rightarrow> int \<Rightarrow> service" where
  "demo_entry n r w = \<lparr>svc_pid = 0, read_fd = r, write_fd = w, svc_name = n\<rparr>"

definition demo_tree :: proc where
  "demo_tree = Proc (demo_entry Manager (-1) (-1)) (demo_globals Manager 1)
     [Proc (demo_entry ''A'' 3 6) (demo_globals ''A'' 2)
        [Proc (demo_entry ''B'' 5 8) (demo_globals ''B'' 3) []],
      Proc (demo_entry ''C'' 4 8) (demo_globals ''C'' 4) []]"

definition demo_command :: "string list \<Rightarrow> command" where
  "demo_command ws = (case read_and_split ws of Inl _ \<Rightarrow> zero_command | Inr (c, _) \<Rightarrow> c)"

lemma demo_tree_ok: "manager_tree demo_tree"
  by (simp add: manager_tree_def demo_tree_def demo_globals_def demo_entry_def Manager_def)

lemma demo_names: "names demo_tree = [''Manager'', ''A'', ''B'', ''C'']"
  by (simp add: demo_tree_def demo_globals_def Manager_def)

lemma demo_distinct: "distinct (names demo_tree)"
  by (simp add: demo_names)

lemma demo_room: "has_room demo_tree"
  by (simp add: demo_tree_def)

lemma demo_env_ok: "wf_env demo_env"
  by (simp add: wf_env_def demo_env_def)

lemma demo_command_two:
  assumes "t = ''spawn'' \<or> t = ''exchange''" "is_word a" "is_word b" "length a < 50" "length b < 50"
  shows "fresh_command (demo_command [t, a, b])" "type_of (demo_command [t, a, b]) = t"
    "arg 0 (demo_command [t, a, b]) = a" "arg 1 (demo_command [t, a, b]) = b"
  using read_two [OF assms, of "[]"] by (auto simp: demo_command_def)

lemma demo_command_kill:
  assumes "is_word a" "length a < 64"
  shows "fresh_command (demo_command [''kill'', a])" "type_of (demo_command [''kill'', a]) = ''kill''"
    "arg 0 (demo_command [''kill'', a]) = a"
  using read_one [OF assms, of "[]"] by (auto simp: demo_command_def)

section \<open>Properties\<close>

text \<open>C13: a spawn whose parent exists adds exactly one leaf, with the new name and the secret that
  \<open>rand\<close> gives for its pid, below the parent; the tree stays well formed. The command is reported
  by the services in depth-first order up to the parent, then come the line of the new process
  and the Manager's confirmation.\<close>

theorem spawn_adds_service:
  assumes "manager_tree p" "distinct (names p)" "has_room p" "type_of c = ''spawn''"
    "arg 0 c \<in> set (names p)" "length (arg 1 c) < 16" "arg 1 c \<noteq> Manager"
  shows "\<exists>p'. serve env n c p = Inr (Some p',
      reports c (upto_first (arg 0 c) (names p)) @
      [print_spawned (arg 1 c) (fork_pid env n) (rand_of env (fork_pid env n)),
       print_spawn (arg 0 c) (arg 1 c)]) \<and>
    manager_tree p' \<and>
    abs_tree p' = add_leaf (arg 0 c) (Service (arg 1 c) (rand_of env (fork_pid env n)) []) (abs_tree p)"
  using manager_spawn_known [OF assms(1,2,4,5), of env "fork_pid env n"] assms(3,6,7)
  by (auto simp: serve_spawn [OF assms(4)] fits_def new_leaf_def spawn_line_def start_line_def start_process_def)

theorem spawn_adds_service_witness:
  "\<exists>p'. serve demo_env 0 (demo_command [''spawn'', ''A'', ''D'']) demo_tree = Inr (Some p',
      reports (demo_command [''spawn'', ''A'', ''D'']) [''Manager'', ''A''] @
      [print_spawned ''D'' 100 7, print_spawn ''A'' ''D'']) \<and> manager_tree p'"
  using spawn_adds_service [OF demo_tree_ok demo_distinct demo_room,
      of "demo_command [''spawn'', ''A'', ''D'']" demo_env 0]
    demo_command_two [of "''spawn''" "''A''" "''D''"]
  by (auto simp: demo_names is_word_def Manager_def demo_env_def)

text \<open>C19: a spawn whose parent does not exist leaves the tree alone; every service reports the
  command, in depth-first order, and the Manager says that the parent does not exist.\<close>

theorem spawn_unknown_parent:
  assumes "manager_tree p" "type_of c = ''spawn''" "arg 0 c \<notin> set (names p)"
  shows "serve env n c p = Inr (Some p, reports c (names p) @ [print_not_exist (arg 0 c)])"
  using manager_spawn_unknown [OF assms] by (simp add: serve_spawn [OF assms(2)])

theorem spawn_unknown_parent_witness:
  "serve demo_env 0 (demo_command [''spawn'', ''X'', ''D'']) demo_tree =
     Inr (Some demo_tree, reports (demo_command [''spawn'', ''X'', ''D'']) [''Manager'', ''A'', ''B'', ''C''] @
       [print_not_exist ''X''])"
  using spawn_unknown_parent [OF demo_tree_ok, of "demo_command [''spawn'', ''X'', ''D'']" demo_env 0]
    demo_command_two [of "''spawn''" "''X''" "''D''"]
  by (simp add: demo_names is_word_def)

text \<open>C14: a kill of a service other than the Manager removes exactly the subtree of that service and
  keeps the rest in order; the number in the Manager's message is the number of the descendants.
  Between the reports and that message nothing is printed, provided that the memory \<open>suicide\<close>
  sends uninitialised does not hold the name of a service.\<close>

theorem kill_removes_subtree:
  assumes "manager_tree p" "distinct (names p)" "wf_env env" "type_of c = ''kill''"
    "arg 0 c \<in> set (names p)" "arg 0 c \<noteq> Manager" "int (length (names p)) < 2147483648"
  shows "\<exists>p' mid. serve env n c p = Inr (Some p',
      reports c (upto_first (arg 0 c) (names p)) @ mid @
      [print_kill (arg 0 c) (int (subtree_size (arg 0 c) (abs_tree p)) - 1)]) \<and>
    manager_tree p' \<and> abs_tree p' = prune (arg 0 c) (abs_tree p) \<and> (quiet env (names p) \<longrightarrow> mid = [])"
  using manager_kill_known [OF assms(1,2,4,3,5-7)] by (auto simp: serve_kill [OF assms(4)])

lemma demo_quiet: "quiet demo_env (names demo_tree)"
proof -
  have "arg 0 zero_command = []" by code_simp
  then show ?thesis by (simp add: quiet_def demo_env_def demo_names)
qed

lemma demo_subtree: "subtree_size ''A'' (abs_tree demo_tree) = 2"
  by (simp add: subtree_size_def demo_tree_def demo_globals_def Manager_def)

lemma demo_prune: "prune ''A'' (abs_tree demo_tree) = Service ''Manager'' 1 [Service ''C'' 4 []]"
  by (simp add: demo_tree_def demo_globals_def Manager_def)

theorem kill_removes_subtree_witness:
  "\<exists>p'. serve demo_env 0 (demo_command [''kill'', ''A'']) demo_tree = Inr (Some p',
      reports (demo_command [''kill'', ''A'']) [''Manager'', ''A''] @ [print_kill ''A'' 1]) \<and>
    abs_tree p' = Service ''Manager'' 1 [Service ''C'' 4 []]"
  using kill_removes_subtree [OF demo_tree_ok demo_distinct demo_env_ok,
      of "demo_command [''kill'', ''A'']" 0] demo_command_kill [of "''A''"] demo_quiet demo_subtree demo_prune
  by (auto simp: demo_names is_word_def Manager_def)

text \<open>C18: killing the Manager ends every process; the message counts all the others.\<close>

theorem kill_manager_ends_all:
  assumes "manager_tree p" "wf_env env" "type_of c = ''kill''" "arg 0 c = Manager"
    "int (length (names p)) < 2147483648"
  shows "\<exists>mid. serve env n c p = Inr (None,
      reports c [Manager] @ mid @ [print_kill Manager (int (length (names p)) - 1)]) \<and>
    (quiet env (names p) \<longrightarrow> mid = [])"
  using manager_kill_manager [OF assms(1,3,4,2,5)] by (auto simp: serve_kill [OF assms(3)])

theorem kill_manager_ends_all_witness:
  "serve demo_env 0 (demo_command [''kill'', ''Manager'']) demo_tree = Inr (None,
      reports (demo_command [''kill'', ''Manager'']) [''Manager''] @ [print_kill ''Manager'' 3])"
  using kill_manager_ends_all [OF demo_tree_ok demo_env_ok, of "demo_command [''kill'', ''Manager'']" 0]
    demo_command_kill [of "''Manager''"] demo_quiet
  by (auto simp: demo_names is_word_def Manager_def)

text \<open>C15: an exchange between two different services that exist gives each of them the secret of the
  other one and changes nothing else. The services report the command in depth-first order until
  both have been seen; the first service prints its new secret before the second one does.\<close>

theorem exchange_swaps_secrets:
  assumes "manager_tree p" "distinct (names p)" "fresh_command c" "type_of c = ''exchange''"
    "arg 0 c \<noteq> arg 1 c" "arg 0 c \<in> set (names p)" "arg 1 c \<in> set (names p)"
  shows "\<exists>p' x y. secret_in (arg 0 c) (abs_tree p) = Some x \<and> secret_in (arg 1 c) (abs_tree p) = Some y \<and>
    serve env n c p = Inr (Some p',
      reports c (upto_both (arg 0 c) (arg 1 c) 0 (names p)) @
      [print_acquire_secret (arg 0 c) (arg 1 c) y, print_acquire_secret (arg 1 c) (arg 0 c) x,
       print_exchange (arg 0 c) (arg 1 c)]) \<and>
    manager_tree p' \<and> abs_tree p' = assign2 (arg 0 c) y (arg 1 c) x (abs_tree p)"
proof -
  have sec: "secret_in a (abs_tree p) \<noteq> None" if "a \<in> set (names p)" for a
    using that dom_psecrets [of p a] by (simp add: psecrets_def secret_in_def)
  obtain x y where "secret_in (arg 0 c) (abs_tree p) = Some x" "secret_in (arg 1 c) (abs_tree p) = Some y"
    using sec [OF assms(6)] sec [OF assms(7)] by blast
  moreover have "length (arg 0 c) < 16" "length (arg 1 c) < 16"
    using manager_name_lengths [OF assms(1)] assms(6,7) by auto
  ultimately show ?thesis
    using manager_exchange_command [OF assms(1-4) _ _ assms(5)] assms(1)
    by (simp add: serve_exchange [OF assms(4)] abs_assign manager_tree_def wf_assign)
qed

lemma demo_swap: "secret_in ''B'' (abs_tree demo_tree) = Some 3" "secret_in ''C'' (abs_tree demo_tree) = Some 4"
  "assign2 ''B'' 4 ''C'' 3 (abs_tree demo_tree) =
     Service ''Manager'' 1 [Service ''A'' 2 [Service ''B'' 4 []], Service ''C'' 3 []]"
  by (simp_all add: demo_tree_def demo_globals_def Manager_def secret_in_def)

theorem exchange_swaps_secrets_witness:
  "\<exists>p' ls. serve demo_env 0 (demo_command [''exchange'', ''B'', ''C'']) demo_tree = Inr (Some p', ls) \<and>
    abs_tree p' = Service ''Manager'' 1 [Service ''A'' 2 [Service ''B'' 4 []], Service ''C'' 3 []]"
  using exchange_swaps_secrets [OF demo_tree_ok demo_distinct,
      of "demo_command [''exchange'', ''B'', ''C'']" demo_env 0]
    demo_command_two [of "''exchange''" "''B''" "''C''"] demo_swap
  by (auto simp: demo_names is_word_def)

text \<open>C16: the FIFO protocol of two processes that call \<open>exchanges\<close> with the two roles. Whatever the
  interleaving, an execution has at most fourteen steps, never stops before both calls have
  returned, and ends with the values \<open>fifo_values\<close> gives and the lines \<open>acquire_lines\<close> gives, in
  that order.\<close>

theorem exchange_is_rendezvous:
  assumes "meet_start cs m" "map_of cs First = Some (a, x)" "map_of cs Second = Some (b, y)"
    and "arg 0 c = a" "arg 1 c = b" "(meet_step a b ^^ k) m m'"
  shows "k \<le> 14 \<and> (meet_done m' \<or> (\<exists>m''. meet_step a b m' m'')) \<and>
    (meet_done m' \<longrightarrow> fifo_values cs = Some (sec1 m', sec2 m') \<and> acquire_lines c cs = printed m')"
proof (intro conjI)
  have start: "both_called a b x y m" using assms(1-3) by (simp add: both_called_def meet_start_def)
  have inv: "meet_inv a b x y m'"
    using meet.relpowp_work [OF assms(6) meet.init_inv [OF start]] by simp
  have "k \<le> meet_work m" using meet.bounded_executions [OF start assms(6)] .
  then show "k \<le> 14" by (simp add: meet_work_def)
  show "meet_done m' \<or> (\<exists>m''. meet_step a b m' m'')" using meet_progress [OF inv] by blast
  show "meet_done m' \<longrightarrow> fifo_values cs = Some (sec1 m', sec2 m') \<and> acquire_lines c cs = printed m'"
    using meet_final [OF inv] assms(2-5) by (auto simp: fifo_values_def acquire_lines_def)
qed

definition demo_meeting :: meeting where
  "demo_meeting = \<lparr>pc1 = Start, pc2 = Start, sec1 = 3, sec2 = 4, tmp1 = 0, fifo1 = [], fifo2 = [], printed = []\<rparr>"

theorem exchange_is_rendezvous_witness:
  "meet_start [(First, ''B'', 3), (Second, ''C'', 4)] demo_meeting \<and>
   (\<exists>m''. meet_step ''B'' ''C'' demo_meeting m'')"
  using exchange_is_rendezvous [of "[(First, ''B'', 3), (Second, ''C'', 4)]" demo_meeting "''B''" 3 "''C''" 4
      "demo_command [''exchange'', ''B'', ''C'']" 0 demo_meeting]
    demo_command_two [of "''exchange''" "''B''" "''C''"]
  by (simp add: meet_start_def demo_meeting_def meet_done_def is_word_def)

text \<open>C20: an exchange that has no partner never returns: when exactly one of the two services
  exists, or when a service is to exchange with itself, the Manager waits for ever for a reply. In the
  first case no interleaving of the one call lets it return.\<close>

theorem exchange_without_partner_blocks:
  assumes "manager_tree p" "distinct (names p)" "fresh_command c" "type_of c = ''exchange''"
    "length (arg 0 c) < 16" "length (arg 1 c) < 16"
    "(arg 0 c \<in> set (names p)) \<noteq> (arg 1 c \<in> set (names p)) \<or>
     arg 0 c = arg 1 c \<and> arg 0 c \<in> set (names p)"
  shows "serve env n c p = Inl Blocked \<and>
    (\<forall>r a v m m'. meet_start [(r, a, v)] m \<longrightarrow> (meet_step (arg 0 c) (arg 1 c))\<^sup>*\<^sup>* m m' \<longrightarrow> \<not> meet_done m')"
proof
  have sec: "secret_in a (abs_tree p) = None \<longleftrightarrow> a \<notin> set (names p)" for a
    using dom_psecrets [of p a] by (simp add: psecrets_def secret_in_def)
  have "exchange_branch c p = Inl Blocked"
  proof (cases "arg 0 c = arg 1 c")
    case True
    then show ?thesis using assms manager_exchange_self by metis
  next
    case False
    then show ?thesis
      using manager_exchange_command [OF assms(1-6)] assms(7) sec [of "arg 0 c"] sec [of "arg 1 c"]
      by (auto split: option.splits)
  qed
  then show "serve env n c p = Inl Blocked" by (simp add: serve_exchange [OF assms(4)])
  show "\<forall>r a v m m'. meet_start [(r, a, v)] m \<longrightarrow> (meet_step (arg 0 c) (arg 1 c))\<^sup>*\<^sup>* m m' \<longrightarrow> \<not> meet_done m'"
    using alone.reachable_inv alone_not_done by (force simp: alone_start_def)
qed

theorem exchange_without_partner_blocks_witness:
  "serve demo_env 0 (demo_command [''exchange'', ''A'', ''X'']) demo_tree = Inl Blocked"
  using exchange_without_partner_blocks [OF demo_tree_ok demo_distinct,
      of "demo_command [''exchange'', ''A'', ''X'']" demo_env 0]
    demo_command_two [of "''exchange''" "''A''" "''X''"]
  by (simp add: demo_names is_word_def)

text \<open>C21: an exchange between two names that do not exist changes nothing and still announces
  that the secrets have been exchanged.\<close>

theorem exchange_of_unknown_services_claims_success:
  assumes "manager_tree p" "distinct (names p)" "fresh_command c" "type_of c = ''exchange''"
    "length (arg 0 c) < 16" "length (arg 1 c) < 16" "arg 0 c \<noteq> arg 1 c"
    "arg 0 c \<notin> set (names p)" "arg 1 c \<notin> set (names p)"
  shows "serve env n c p = Inr (Some p, reports c (names p) @ [print_exchange (arg 0 c) (arg 1 c)])"
proof -
  have sec: "secret_in a (abs_tree p) = None" if "a \<notin> set (names p)" for a
    using that dom_psecrets [of p a] by (simp add: psecrets_def secret_in_def)
  show ?thesis
    using manager_exchange_command [OF assms(1-7)] sec [OF assms(8)] sec [OF assms(9)]
    by (simp add: serve_exchange [OF assms(4)])
qed

theorem exchange_of_unknown_services_claims_success_witness:
  "serve demo_env 0 (demo_command [''exchange'', ''X'', ''Y'']) demo_tree =
     Inr (Some demo_tree, reports (demo_command [''exchange'', ''X'', ''Y'']) [''Manager'', ''A'', ''B'', ''C''] @
       [print_exchange ''X'' ''Y''])"
  using exchange_of_unknown_services_claims_success [OF demo_tree_ok demo_distinct,
      of "demo_command [''exchange'', ''X'', ''Y'']" demo_env 0]
    demo_command_two [of "''exchange''" "''X''" "''Y''"]
  by (simp add: demo_names is_word_def)

text \<open>C17: in every session whose spawns use new names, the tree stays well formed after every
  command: no process has a path left over from an exchange, descriptors and names are different,
  and nobody but the root is called Manager.\<close>

theorem sessions_keep_the_tree:
  assumes "svc_start env p" "(svc_step env)\<^sup>*\<^sup>* p q"
  shows "manager_tree q \<and> distinct (names q)"
  using svc.reachable_inv [OF assms] by (simp add: svc_inv_def)

text \<open>A session that spawns one service below the Manager.\<close>

lemma demo_session:
  "case serve demo_env 0 (demo_command [''spawn'', ''Manager'', ''A'']) (start_manager demo_env 1) of
     Inl f \<Rightarrow> False | Inr (r, ls) \<Rightarrow> (case r of None \<Rightarrow> False | Some p \<Rightarrow> names p = [''Manager'', ''A''])"
  by code_simp

theorem sessions_keep_the_tree_witness:
  "\<exists>q. (svc_step demo_env)\<^sup>*\<^sup>* (start_manager demo_env 1) q \<and> names q = [''Manager'', ''A''] \<and>
     manager_tree q \<and> distinct (names q)"
proof -
  let ?c = "demo_command [''spawn'', ''Manager'', ''A'']" and ?p = "start_manager demo_env 1"
  obtain q ls where q: "serve demo_env 0 ?c ?p = Inr (Some q, ls)" "names q = [''Manager'', ''A'']"
    using demo_session by (auto split: sum.splits option.splits)
  have "names ?p = [''Manager'']" by code_simp
  then have "svc_step demo_env ?p q"
    using demo_command_two [of "''spawn''" "''Manager''" "''A''"]
    by (intro svc_step.intros [OF q(1)]) (auto simp: is_word_def)
  then have reach: "(svc_step demo_env)\<^sup>*\<^sup>* ?p q" by simp
  have "svc_start demo_env ?p" by (auto simp: svc_start_def demo_env_ok)
  from sessions_keep_the_tree [OF this reach] reach q(2) show ?thesis by blast
qed

text \<open>C22: the words of a command as \<open>read_and_split\<close> takes them from the input: the type, the
  arguments and the line that the services report are those of the input, and the rest of the input is
  left for the next command.\<close>

theorem read_and_split_words:
  assumes "t = ''spawn'' \<or> t = ''exchange''" "is_word a" "is_word b" "length a < 50" "length b < 50"
  shows "\<exists>c d. read_and_split (t # a # b # ws) = Inr (c, ws) \<and> type_of c = t \<and> arg 0 c = a \<and> arg 1 c = b \<and>
      line_of c = t @ '' '' @ a @ '' '' @ b \<and> fresh_command c \<and>
    read_and_split (''kill'' # a # ws) = Inr (d, ws) \<and> type_of d = ''kill'' \<and> arg 0 d = a \<and>
      line_of d = ''kill '' @ a"
  using read_two [OF assms, of ws] read_one [of a ws] assms(2,4) by fastforce

theorem read_and_split_words_witness:
  "\<exists>c. read_and_split [''spawn'', ''A'', ''B'', ''kill'', ''C''] = Inr (c, [''kill'', ''C'']) \<and>
     line_of c = ''spawn A B''"
  using read_and_split_words [of "''spawn''" "''A''" "''B''" "[''kill'', ''C'']"]
  by (auto simp: is_word_def)

end
