(* ===== verification/Threads_Model.thy ===== *)
theory Threads_Model
  imports SP_Prelude
begin

text \<open>
  The user-level threads of \<open>HW3\<close> (\<open>main.c\<close>, \<open>scheduler.c\<close>, \<open>threads.c\<close>, \<open>threadtools.h\<close>,
  \<open>bank.h\<close>). A \<open>jmp_buf\<close> is the place in the thread functions where \<open>setjmp\<close> was called: after
  \<open>thread_setup\<close>, or after one of the calls of \<open>thread_yield\<close>. Control is either in a thread at such
  a place, in the middle of \<open>thread_yield\<close>, at the return of \<open>setjmp(sched_buf)\<close> in the scheduler
  with the value given to \<open>longjmp\<close>, or over. Both signals are blocked everywhere but in
  \<open>thread_yield\<close>, so a signal that arrives is pending until the next \<open>thread_yield\<close>; the handler
  leaves by \<open>longjmp\<close>, which does not restore the mask, with both signals blocked again. \<open>sleep\<close>
  only lets time pass. Jumping back into a thread function that has returned is taken to work, as it
  does for code that only uses globals.
\<close>

section \<open>Data\<close>

datatype func = Fibonacci | Factorial | Bank_operation

text \<open>The places \<open>setjmp\<close> can return to.\<close>

datatype place = Setup func | Fib_next | Fact_next | Bank_step2 | Bank_step3

record tcb =
  tid :: int
  environment :: place
  targ :: int
  ti :: int
  tx :: int
  ty :: int

datatype signo = SIGTSTP | SIGALRM

text \<open>The lines that are printed.\<close>

datatype line =
    Created int func
  | Value int int
  | Acquired int
  | Operation int int int
  | Released int
  | Caught signo

datatype control = Running place | Yielding place | Scheduling nat | Finished | Crashed

text \<open>\<open>ready_queue\<close> and \<open>waiting_queue\<close> are the used parts of the arrays, so that their lengths are
  \<open>rq_size\<close> and \<open>wq_size\<close>; \<open>struct Bank\<close> is in the two fields \<open>balance\<close> and \<open>lock_owner\<close>.\<close>

record tsys =
  ready :: "tcb list"
  rq_current :: nat
  waiting :: "tcb list"
  balance :: int
  lock_owner :: int
  pend_tstp :: bool
  pend_alrm :: bool
  lines :: "line list"
  ctl :: control

definition THREAD_MAX :: nat where
  "THREAD_MAX = 16"

text \<open>The macro \<open>RUNNING\<close>.\<close>

abbreviation running :: "tsys \<Rightarrow> tcb" where
  "running s \<equiv> ready s ! rq_current s"

definition put_running :: "tcb \<Rightarrow> tsys \<Rightarrow> tsys" where
  "put_running t s = s\<lparr>ready := (ready s)[rq_current s := t]\<rparr>"

definition print_line :: "line \<Rightarrow> tsys \<Rightarrow> tsys" where
  "print_line l s = s\<lparr>lines := lines s @ [l]\<rparr>"

section \<open>The macros of threadtools.h\<close>

text \<open>\<open>thread_setup\<close> up to its \<open>return\<close>; \<open>junk\<close> has what \<open>malloc\<close> left in \<open>i\<close>, \<open>x\<close> and \<open>y\<close> of each thread.\<close>

definition thread_setup :: "(int \<Rightarrow> int \<times> int \<times> int) \<Rightarrow> func \<Rightarrow> int \<Rightarrow> int \<Rightarrow> tsys \<Rightarrow> tsys" where
  "thread_setup junk f i a s =
     (print_line (Created i f) s)
       \<lparr>ready := ready s @ [\<lparr>tid = i, environment = Setup f, targ = a, ti = fst (junk i), tx = fst (snd (junk i)),
                            ty = snd (snd (junk i))\<rparr>]\<rparr>"

definition thread_exit :: "tsys \<Rightarrow> tsys" where
  "thread_exit s = s\<lparr>ctl := Scheduling 3\<rparr>"

text \<open>The signal masks that \<open>init_signal\<close> sets up; \<open>base_mask\<close> is in force but in \<open>thread_yield\<close>.\<close>

definition base_mask :: "signo set" where
  "base_mask = {SIGTSTP, SIGALRM}"

definition tstp_mask :: "signo set" where
  "tstp_mask = {SIGTSTP}"

definition alrm_mask :: "signo set" where
  "alrm_mask = {SIGALRM}"

definition thread_yield :: "place \<Rightarrow> tsys \<Rightarrow> tsys" where
  "thread_yield l s = (put_running ((running s)\<lparr>environment := l\<rparr>) s)\<lparr>ctl := Yielding l\<rparr>"

definition sighandler :: "signo \<Rightarrow> tsys \<Rightarrow> tsys" where
  "sighandler g s = (print_line (Caught g) s)\<lparr>ctl := Scheduling 1\<rparr>"

text \<open>\<open>sigprocmask(SIG_SETMASK, &mask, NULL)\<close>: a pending signal that the new mask does not block is delivered. The
  handler does not come back.\<close>

definition set_mask :: "signo set \<Rightarrow> tsys \<Rightarrow> tsys option" where
  "set_mask m s =
     (if pend_tstp s \<and> SIGTSTP \<notin> m then Some (sighandler SIGTSTP (s\<lparr>pend_tstp := False\<rparr>))
      else if pend_alrm s \<and> SIGALRM \<notin> m then Some (sighandler SIGALRM (s\<lparr>pend_alrm := False\<rparr>))
      else None)"

text \<open>\<open>thread_yield\<close> after its \<open>setjmp\<close>: the three masks one after the other.\<close>

definition yield_windows :: "place \<Rightarrow> tsys \<Rightarrow> tsys" where
  "yield_windows l s =
     (case set_mask alrm_mask s of
        Some s' \<Rightarrow> s'
      | None \<Rightarrow>
          (case set_mask tstp_mask s of
             Some s' \<Rightarrow> s'
           | None \<Rightarrow> (case set_mask base_mask s of Some s' \<Rightarrow> s' | None \<Rightarrow> s\<lparr>ctl := Running l\<rparr>)))"

text \<open>\<open>lock\<close> returns whether the thread goes on; \<open>unlock\<close>.\<close>

definition lock_ok :: "tsys \<Rightarrow> bool" where
  "lock_ok s \<longleftrightarrow> lock_owner s = -1 \<or> lock_owner s = tid (running s)"

definition bank_unlock :: "tsys \<Rightarrow> tsys" where
  "bank_unlock s = (if lock_owner s = tid (running s) then s\<lparr>lock_owner := -1\<rparr> else s)"

section \<open>The thread functions\<close>

text \<open>The body of the loop of \<open>fibonacci\<close> for the current \<open>i\<close>.\<close>

definition fib_values :: "tcb \<Rightarrow> tcb" where
  "fib_values t =
     (if ti t \<le> 2 then t\<lparr>tx := 1, ty := 1\<rparr> else t\<lparr>ty := wrap32 (tx t + ty t), tx := ty t\<rparr>)"

definition fib_body :: "tsys \<Rightarrow> tsys" where
  "fib_body s =
     (let t = fib_values (running s);
          s1 = print_line (Value (tid t) (ty t)) (put_running t s)
      in if ti t = targ t then thread_exit s1 else thread_yield Fib_next s1)"

definition fact_values :: "tcb \<Rightarrow> tcb" where
  "fact_values t = (if ti t \<le> 1 then t\<lparr>ty := 1\<rparr> else t\<lparr>ty := wrap32 (ty t * ti t)\<rparr>)"

definition fact_body :: "tsys \<Rightarrow> tsys" where
  "fact_body s =
     (let t = fact_values (running s);
          s1 = print_line (Value (tid t) (ty t)) (put_running t s)
      in if ti t = targ t then thread_exit s1 else thread_yield Fact_next s1)"

definition set_i :: "int \<Rightarrow> tsys \<Rightarrow> tsys" where
  "set_i v s = put_running ((running s)\<lparr>ti := v\<rparr>) s"

text \<open>The three steps of \<open>bank_operation\<close>.\<close>

definition bank_step1 :: "tsys \<Rightarrow> tsys" where
  "bank_step1 s =
     (if lock_ok s then
        thread_yield Bank_step2
          (print_line (Acquired (tid (running s))) (s\<lparr>lock_owner := tid (running s)\<rparr>))
      else s\<lparr>ctl := Scheduling 2\<rparr>)"

definition bank_step2 :: "tsys \<Rightarrow> tsys" where
  "bank_step2 s =
     (let t = running s; a = targ t in
      thread_yield Bank_step3
        (if a > 0 \<or> a \<le> 0 \<and> balance s \<ge> wrap32 (- a) then
           (let b = wrap32 (balance s + a) in
            print_line (Operation (tid t) (wrap32 (b - a)) b) (s\<lparr>balance := b\<rparr>))
         else print_line (Operation (tid t) (balance s) (balance s)) s))"

definition bank_step3 :: "tsys \<Rightarrow> tsys" where
  "bank_step3 s = thread_exit (print_line (Released (tid (running s))) (bank_unlock s))"

text \<open>A thread from a place to its next \<open>thread_yield\<close>, \<open>thread_exit\<close> or failed \<open>lock\<close>.\<close>

fun thread_run :: "place \<Rightarrow> tsys \<Rightarrow> tsys" where
  "thread_run (Setup Fibonacci) s = fib_body (set_i 1 s)"
| "thread_run (Setup Factorial) s = fact_body (set_i 1 s)"
| "thread_run (Setup Bank_operation) s = bank_step1 s"
| "thread_run Fib_next s = fib_body (set_i (wrap32 (ti (running s) + 1)) s)"
| "thread_run Fact_next s = fact_body (set_i (wrap32 (ti (running s) + 1)) s)"
| "thread_run Bank_step2 s = bank_step2 s"
| "thread_run Bank_step3 s = bank_step3 s"

section \<open>The scheduler\<close>

text \<open>\<open>longjmp(RUNNING->environment, 1)\<close>; without a running thread it is a wild jump.\<close>

definition resume :: "tsys \<Rightarrow> tsys" where
  "resume s =
     (if rq_current s < length (ready s) then s\<lparr>ctl := Running (environment (running s))\<rparr>
      else s\<lparr>ctl := Crashed\<rparr>)"

text \<open>Steps 1 and 2: a waiting thread gets the free lock. Steps 3 and 4: the running thread leaves
  the ready queue and the last one takes its place.\<close>

definition give_lock :: "tsys \<Rightarrow> tsys" where
  "give_lock s =
     (if lock_owner s = -1 \<and> waiting s \<noteq> [] then
        s\<lparr>ready := ready s @ [hd (waiting s)], lock_owner := tid (hd (waiting s)),
          waiting := tl (waiting s)\<rparr>
      else s)"

definition drop_running :: "tsys \<Rightarrow> tsys" where
  "drop_running s = s\<lparr>ready := butlast ((ready s)[rq_current s := last (ready s)])\<rparr>"

definition scheduler :: "nat \<Rightarrow> tsys \<Rightarrow> tsys" where
  "scheduler val s =
     (if ready s = [] \<and> waiting s = [] then s\<lparr>ctl := Finished\<rparr>
      else if val = 0 then resume (s\<lparr>rq_current := 0\<rparr>)
      else
        (let s1 = give_lock s;
             s2 = (if val = 2 then drop_running (s1\<lparr>waiting := waiting s1 @ [running s1]\<rparr>)
                   else if val = 3 then drop_running s1 else s1)
         in if ready s2 = [] \<and> waiting s2 = [] then s2\<lparr>ctl := Finished\<rparr>
            else if val = 1 then
              resume (s2\<lparr>rq_current := (if rq_current s2 = length (ready s2) - 1 then 0 else rq_current s2 + 1)\<rparr>)
            else if val = 2 \<or> val = 3 then
              resume (s2\<lparr>rq_current := (if rq_current s2 = length (ready s2) then 0 else rq_current s2)\<rparr>)
            else s2\<lparr>ctl := Finished\<rparr>))"

section \<open>Start and execution\<close>

definition init_bank :: "tsys \<Rightarrow> tsys" where
  "init_bank s = s\<lparr>balance := 500, lock_owner := -1\<rparr>"

definition init_threads :: "(int \<Rightarrow> int \<times> int \<times> int) \<Rightarrow> int \<Rightarrow> int \<Rightarrow> int \<Rightarrow> int \<Rightarrow> tsys \<Rightarrow> tsys" where
  "init_threads junk fib_arg fact_arg bank1_arg bank2_arg s =
     (let s1 = (if fib_arg > 0 then thread_setup junk Fibonacci 0 fib_arg s else s);
          s2 = (if fact_arg > 0 then thread_setup junk Factorial 1 fact_arg s1 else s1);
          s3 = (if bank1_arg \<noteq> 0 then thread_setup junk Bank_operation 2 bank1_arg s2 else s2)
      in if bank2_arg \<noteq> 0 then thread_setup junk Bank_operation 3 bank2_arg s3 else s3)"

text \<open>\<open>main\<close> up to the first call of the scheduler: the globals are zero, \<open>init_signal\<close> blocks both
  signals, \<open>start_threading\<close> calls \<open>scheduler\<close>, in which \<open>setjmp\<close> returns 0.\<close>

definition zero_tsys :: tsys where
  "zero_tsys = \<lparr>ready = [], rq_current = 0, waiting = [], balance = 0, lock_owner = 0,
     pend_tstp = False, pend_alrm = False, lines = [], ctl = Scheduling 0\<rparr>"

definition threads_main :: "(int \<Rightarrow> int \<times> int \<times> int) \<Rightarrow> string \<Rightarrow> string \<Rightarrow> string \<Rightarrow> string \<Rightarrow> tsys" where
  "threads_main junk a2 a3 a4 a5 =
     init_threads junk (atoi a2) (atoi a3) (atoi a4) (atoi a5) (init_bank zero_tsys)"

text \<open>One step of the program, and the arrival of a signal.\<close>

fun program_step :: "tsys \<Rightarrow> tsys option" where
  "program_step s =
     (case ctl s of
        Running l \<Rightarrow> Some (thread_run l s)
      | Yielding l \<Rightarrow> Some (yield_windows l s)
      | Scheduling v \<Rightarrow> Some (scheduler v s)
      | Finished \<Rightarrow> None
      | Crashed \<Rightarrow> None)"

declare program_step.simps [simp del]

inductive thread_step :: "tsys \<Rightarrow> tsys \<Rightarrow> bool" where
  program: "program_step s = Some s' \<Longrightarrow> thread_step s s'"
| signal_tstp: "ctl s \<noteq> Finished \<Longrightarrow> \<not> pend_tstp s \<Longrightarrow> thread_step s (s\<lparr>pend_tstp := True\<rparr>)"
| signal_alrm: "ctl s \<noteq> Finished \<Longrightarrow> \<not> pend_alrm s \<Longrightarrow> thread_step s (s\<lparr>pend_alrm := True\<rparr>)"

inductive_cases thread_stepE: "thread_step s s'"

section \<open>The windows of \<open>thread_yield\<close>\<close>

text \<open>First SIGTSTP, then SIGALRM is let in, and the last mask lets in nothing. While a handler runs its own
  signal is blocked besides the mask, so that \<open>longjmp\<close> leaves each handler with both signals blocked.\<close>

lemma yield_windows_eq:
  "yield_windows l s =
     (if pend_tstp s then sighandler SIGTSTP (s\<lparr>pend_tstp := False\<rparr>)
      else if pend_alrm s then sighandler SIGALRM (s\<lparr>pend_alrm := False\<rparr>)
      else s\<lparr>ctl := Running l\<rparr>)"
  by (simp add: yield_windows_def set_mask_def alrm_mask_def tstp_mask_def base_mask_def)

lemma handler_masks: "insert SIGTSTP alrm_mask = base_mask" "insert SIGALRM tstp_mask = base_mask"
  by (auto simp: alrm_mask_def tstp_mask_def base_mask_def)

end
