(* ===== verification/Threads_Correct.thy ===== *)
theory Threads_Correct
  imports Threads_Model "HOL-Library.Multiset"
begin

text \<open>
  The invariant of the threads of \<open>HW3\<close> and its preservation by every step. It is stated against
  the configuration: which thread ids exist, with which function and argument. The threads that are
  not finished form the pool; what a thread has printed is what its function demands so far; the bank
  lines are those of bank operations executed one after the other, up to the operation in progress.
\<close>

section \<open>What the threads have to print\<close>

fun fibo :: "nat \<Rightarrow> int" where
  "fibo 0 = 0"
| "fibo (Suc 0) = 1"
| "fibo (Suc (Suc n)) = fibo n + fibo (Suc n)"

type_synonym config = "int \<Rightarrow> (func \<times> int) option"

fun func_of :: "place \<Rightarrow> func" where
  "func_of (Setup f) = f"
| "func_of Fib_next = Fibonacci"
| "func_of Fact_next = Factorial"
| "func_of Bank_step2 = Bank_operation"
| "func_of Bank_step3 = Bank_operation"

fun value_of :: "int \<Rightarrow> line \<Rightarrow> int list" where
  "value_of i (Value j v) = (if i = j then [v] else [])"
| "value_of i _ = []"

definition shown :: "int \<Rightarrow> line list \<Rightarrow> int list" where
  "shown i ls = concat (map (value_of i) ls)"

definition fib_list :: "nat \<Rightarrow> int list" where
  "fib_list n = map (\<lambda>k. wrap32 (fibo k)) [1..<Suc n]"

definition fact_list :: "nat \<Rightarrow> int list" where
  "fact_list n = map (\<lambda>k. wrap32 (fact k)) [1..<Suc n]"

text \<open>The bank as it would be without interruptions: each operation is one step.\<close>

definition bank_op :: "int \<Rightarrow> int \<Rightarrow> int" where
  "bank_op b a = (if a > 0 \<or> a \<le> 0 \<and> b \<ge> wrap32 (- a) then wrap32 (b + a) else b)"

fun ledger :: "int \<Rightarrow> (int \<times> int) list \<Rightarrow> int" where
  "ledger b [] = b"
| "ledger b ((i, a) # ops) = ledger (bank_op b a) ops"

fun journal :: "int \<Rightarrow> (int \<times> int) list \<Rightarrow> line list" where
  "journal b [] = []"
| "journal b ((i, a) # ops) =
     [Acquired i, Operation i b (bank_op b a), Released i] @ journal (bank_op b a) ops"

fun is_bank_line :: "line \<Rightarrow> bool" where
  "is_bank_line (Acquired i) = True"
| "is_bank_line (Operation i b c) = True"
| "is_bank_line (Released i) = True"
| "is_bank_line _ = False"

definition bank_lines :: "line list \<Rightarrow> line list" where
  "bank_lines ls = filter is_bank_line ls"

lemma shown_append [simp]: "shown i (ls @ [l]) = shown i ls @ value_of i l"
  by (simp add: shown_def)

lemma bank_lines_append [simp]:
  "bank_lines (ls @ [l]) = bank_lines ls @ (if is_bank_line l then [l] else [])"
  by (simp add: bank_lines_def)

lemma ledger_append [simp]: "ledger b (ops @ [(i, a)]) = bank_op (ledger b ops) a"
  by (induction b ops rule: ledger.induct) auto

lemma journal_append [simp]:
  "journal b (ops @ [(i, a)]) = journal b ops @
     [Acquired i, Operation i (ledger b ops) (bank_op (ledger b ops) a), Released i]"
  by (induction b ops rule: journal.induct) auto

lemma fib_list_Suc: "fib_list (Suc n) = fib_list n @ [wrap32 (fibo (Suc n))]"
  by (simp add: fib_list_def)

lemma fact_list_Suc: "fact_list (Suc n) = fact_list n @ [wrap32 (fact (Suc n))]"
  by (simp add: fact_list_def)

lemma fib_list_0 [simp]: "fib_list 0 = []" and fact_list_0 [simp]: "fact_list 0 = []"
  by (simp_all add: fib_list_def fact_list_def)

section \<open>The invariant\<close>

text \<open>One unfinished thread: its arguments are those of the configuration, its counters are in range
  and its printed values are those of the iterations it has done.\<close>

definition tcb_ok :: "config \<Rightarrow> line list \<Rightarrow> tcb \<Rightarrow> bool" where
  "tcb_ok cfg ls t \<longleftrightarrow> cfg (tid t) = Some (func_of (environment t), targ t) \<and> 0 \<le> tid t \<and>
     (case environment t of
        Setup Fibonacci \<Rightarrow> 1 \<le> targ t \<and> int32 (targ t) \<and> shown (tid t) ls = []
      | Setup Factorial \<Rightarrow> 1 \<le> targ t \<and> int32 (targ t) \<and> shown (tid t) ls = []
      | Fib_next \<Rightarrow> 1 \<le> ti t \<and> ti t < targ t \<and> int32 (targ t) \<and>
          shown (tid t) ls = fib_list (nat (ti t)) \<and> ty t = wrap32 (fibo (nat (ti t))) \<and>
          (2 \<le> ti t \<longrightarrow> tx t = wrap32 (fibo (nat (ti t) - 1)))
      | Fact_next \<Rightarrow> 1 \<le> ti t \<and> ti t < targ t \<and> int32 (targ t) \<and>
          shown (tid t) ls = fact_list (nat (ti t)) \<and> ty t = wrap32 (fact (nat (ti t)))
      | _ \<Rightarrow> True)"

definition complete :: "config \<Rightarrow> line list \<Rightarrow> int \<Rightarrow> bool" where
  "complete cfg ls i \<longleftrightarrow>
     (case cfg i of
        Some (Fibonacci, a) \<Rightarrow> shown i ls = fib_list (nat a)
      | Some (Factorial, a) \<Rightarrow> shown i ls = fact_list (nat a)
      | _ \<Rightarrow> True)"

definition pool_ok :: "config \<Rightarrow> tcb list \<Rightarrow> line list \<Rightarrow> bool" where
  "pool_ok cfg pool ls \<longleftrightarrow> distinct (map tid pool) \<and> (\<forall>t\<in>set pool. tcb_ok cfg ls t) \<and>
     (\<forall>i. i \<notin> tid ` set pool \<longrightarrow> complete cfg ls i)"

definition in_bank :: "place \<Rightarrow> bool" where
  "in_bank l \<longleftrightarrow> l = Bank_step2 \<or> l = Bank_step3"

text \<open>The operation of the lock owner that is in progress: the lines it has printed and its effect
  on the balance.\<close>

definition progress :: "int \<Rightarrow> tcb \<Rightarrow> line list \<times> int" where
  "progress b t =
     (case environment t of
        Bank_step2 \<Rightarrow> ([Acquired (tid t)], b)
      | Bank_step3 \<Rightarrow> ([Acquired (tid t), Operation (tid t) b (bank_op b (targ t))], bank_op b (targ t))
      | _ \<Rightarrow> ([], b))"

text \<open>\<open>ops\<close> are the operations that are over. The lock has no owner, or its owner is one of the
  threads \<open>rs\<close> that can run; only the owner is inside the bank.\<close>

definition bank_ok :: "config \<Rightarrow> tcb list \<Rightarrow> tcb list \<Rightarrow> (int \<times> int) list \<Rightarrow> tsys \<Rightarrow> bool" where
  "bank_ok cfg rs ws ops s \<longleftrightarrow>
     distinct (map fst ops) \<and>
     (\<forall>(i, a)\<in>set ops. cfg i = Some (Bank_operation, a) \<and> i \<notin> tid ` set (rs @ ws)) \<and>
     (\<forall>i a. cfg i = Some (Bank_operation, a) \<longrightarrow> i \<in> fst ` set ops \<or> i \<in> tid ` set (rs @ ws)) \<and>
     (\<forall>t\<in>set ws. environment t = Setup Bank_operation) \<and>
     (\<forall>t\<in>set rs. in_bank (environment t) \<longrightarrow> tid t = lock_owner s) \<and>
     (if lock_owner s = -1 then bank_lines (lines s) = journal 500 ops \<and> balance s = ledger 500 ops
      else \<exists>t\<in>set rs. tid t = lock_owner s \<and> func_of (environment t) = Bank_operation \<and>
        bank_lines (lines s) = journal 500 ops @ fst (progress (ledger 500 ops) t) \<and>
        balance s = snd (progress (ledger 500 ops) t))"

definition others :: "tsys \<Rightarrow> tcb list" where
  "others s = take (rq_current s) (ready s) @ drop (Suc (rq_current s)) (ready s)"

text \<open>The threads of the ready queue that are not finished: the running one is, when it has called
  \<open>thread_exit\<close>.\<close>

definition live :: "tsys \<Rightarrow> tcb list" where
  "live s = (if ctl s = Scheduling 3 then others s else running s # others s)"

definition ctl_ok :: "tsys \<Rightarrow> bool" where
  "ctl_ok s \<longleftrightarrow>
     (case ctl s of
        Running l \<Rightarrow> environment (running s) = l
      | Yielding l \<Rightarrow> environment (running s) = l
      | Scheduling v \<Rightarrow> v = 1 \<or> v = 3 \<or>
          v = 2 \<and> environment (running s) = Setup Bank_operation \<and>
            lock_owner s \<noteq> -1 \<and> lock_owner s \<noteq> tid (running s)
      | _ \<Rightarrow> False)"

definition active :: "config \<Rightarrow> tsys \<Rightarrow> bool" where
  "active cfg s \<longleftrightarrow>
     rq_current s < length (ready s) \<and> ctl_ok s \<and>
     pool_ok cfg (live s @ waiting s) (lines s) \<and>
     (\<exists>ops. bank_ok cfg (live s) (waiting s) ops s) \<and>
     (waiting s \<noteq> [] \<and> lock_owner s = -1 \<longrightarrow> ctl s = Scheduling 3)"

definition initial :: "config \<Rightarrow> tsys \<Rightarrow> bool" where
  "initial cfg s \<longleftrightarrow>
     ctl s = Scheduling 0 \<and> waiting s = [] \<and> lock_owner s = -1 \<and>
     (\<forall>t\<in>set (ready s). \<exists>f. environment t = Setup f) \<and>
     pool_ok cfg (ready s) (lines s) \<and> bank_ok cfg (ready s) [] [] s"

definition final :: "config \<Rightarrow> tsys \<Rightarrow> bool" where
  "final cfg s \<longleftrightarrow> ctl s = Finished \<and> ready s = [] \<and> waiting s = [] \<and>
     pool_ok cfg [] (lines s) \<and> (\<exists>ops. bank_ok cfg [] [] ops s)"

definition threads_inv :: "config \<Rightarrow> tsys \<Rightarrow> bool" where
  "threads_inv cfg s \<longleftrightarrow> initial cfg s \<or> active cfg s \<or> final cfg s"

section \<open>Lemmas on the queues\<close>

lemma others_put [simp]: "rq_current s < length (ready s) \<Longrightarrow> others (put_running t s) = others s"
  by (simp add: others_def put_running_def)

lemma running_put [simp]: "rq_current s < length (ready s) \<Longrightarrow> running (put_running t s) = t"
  by (simp add: put_running_def)

lemma put_running_fields [simp]:
  "rq_current (put_running t s) = rq_current s" "length (ready (put_running t s)) = length (ready s)"
  "waiting (put_running t s) = waiting s" "lines (put_running t s) = lines s"
  "balance (put_running t s) = balance s" "lock_owner (put_running t s) = lock_owner s"
  "ctl (put_running t s) = ctl s" "pend_tstp (put_running t s) = pend_tstp s"
  "pend_alrm (put_running t s) = pend_alrm s"
  by (simp_all add: put_running_def)

lemma mset_ready: "rq_current s < length (ready s) \<Longrightarrow> mset (ready s) = mset (running s # others s)"
proof -
  assume c: "rq_current s < length (ready s)"
  have "ready s = take (rq_current s) (ready s) @ running s # drop (Suc (rq_current s)) (ready s)"
    using id_take_nth_drop [OF c] .
  then have "mset (ready s) =
      mset (take (rq_current s) (ready s) @ running s # drop (Suc (rq_current s)) (ready s))" by metis
  then show ?thesis by (simp add: others_def)
qed

lemma mset_drop_running:
  "rq_current s < length (ready s) \<Longrightarrow> mset (ready (drop_running s)) = mset (others s)"
proof -
  assume c: "rq_current s < length (ready s)"
  let ?q = "(ready s)[rq_current s := last (ready s)]"
  have ne: "?q \<noteq> []" using c by auto
  have last: "last ?q = last (ready s)"
    using c by (subst last_list_update) auto
  have "mset ?q = mset (last (ready s) # others s)"
    using c mset_ready [of "put_running (last (ready s)) s"] by (simp add: put_running_def others_def)
  moreover have "mset (butlast ?q @ [last ?q]) = mset ?q"
    using append_butlast_last_id [OF ne] by simp
  ultimately show ?thesis by (simp add: drop_running_def last del: append_butlast_last_id)
qed

lemma pool_ok_perm: "mset p = mset q \<Longrightarrow> pool_ok cfg p ls = pool_ok cfg q ls"
proof -
  assume m: "mset p = mset q"
  then have "set p = set q" by (rule mset_eq_setD)
  moreover have "distinct (map tid p) = distinct (map tid q)"
    using m by (intro mset_eq_imp_distinct_iff) (simp add: mset_map)
  ultimately show ?thesis by (simp add: pool_ok_def)
qed

lemma bank_ok_perm:
  assumes "mset rs = mset rs'"
    and "lock_owner s' = lock_owner s" "balance s' = balance s" "bank_lines (lines s') = bank_lines (lines s)"
  shows "bank_ok cfg rs ws ops s = bank_ok cfg rs' ws ops s'"
proof -
  have "set rs = set rs'" using assms(1) by (rule mset_eq_setD)
  with assms(2-) show ?thesis by (simp add: bank_ok_def)
qed

section \<open>Updating the pool\<close>

lemma tcb_ok_lines: "tcb_ok cfg ls t \<Longrightarrow> shown (tid t) ls' = shown (tid t) ls \<Longrightarrow> tcb_ok cfg ls' t"
  by (simp add: tcb_ok_def split: place.splits func.splits)

lemma complete_lines: "complete cfg ls i \<Longrightarrow> shown i ls' = shown i ls \<Longrightarrow> complete cfg ls' i"
  by (simp add: complete_def split: option.splits prod.splits func.splits)

lemma pool_lines:
  assumes "pool_ok cfg p ls" "\<forall>j. shown j ls' = shown j ls"
  shows "pool_ok cfg p ls'"
  unfolding pool_ok_def
proof (intro conjI ballI allI impI)
  show "distinct (map tid p)" using assms(1) by (simp add: pool_ok_def)
  show "tcb_ok cfg ls' t" if "t \<in> set p" for t
    using tcb_ok_lines [of cfg ls t ls'] assms that unfolding pool_ok_def by blast
  show "complete cfg ls' i" if "i \<notin> tid ` set p" for i
    using complete_lines [of cfg ls i ls'] assms that unfolding pool_ok_def by blast
qed

lemma pool_others:
  assumes "pool_ok cfg (t # r) ls" "\<forall>j. j \<noteq> tid t \<longrightarrow> shown j ls' = shown j ls"
  shows "\<forall>u\<in>set r. tid u \<noteq> tid t \<and> tcb_ok cfg ls' u" "i \<notin> tid ` set (t # r) \<Longrightarrow> complete cfg ls' i"
proof -
  show "\<forall>u\<in>set r. tid u \<noteq> tid t \<and> tcb_ok cfg ls' u"
  proof
    fix u assume u: "u \<in> set r"
    then have "tid u \<in> tid ` set r" "tcb_ok cfg ls u" using assms(1) by (auto simp: pool_ok_def)
    then have "tid u \<noteq> tid t" "tcb_ok cfg ls u" using assms(1) by (auto simp: pool_ok_def)
    then show "tid u \<noteq> tid t \<and> tcb_ok cfg ls' u"
      using assms(2) tcb_ok_lines [of cfg ls u ls'] by blast
  qed
  assume i: "i \<notin> tid ` set (t # r)"
  then have "complete cfg ls i" using assms(1) unfolding pool_ok_def by blast
  moreover have "i \<noteq> tid t" using i by simp
  ultimately show "complete cfg ls' i" using assms(2) complete_lines [of cfg ls i ls'] by blast
qed

lemma pool_step:
  assumes "pool_ok cfg (t # r) ls" "tid t' = tid t" "tcb_ok cfg ls' t'"
    "\<forall>j. j \<noteq> tid t \<longrightarrow> shown j ls' = shown j ls"
  shows "pool_ok cfg (t' # r) ls'"
  using assms(1-3) pool_others [OF assms(1,4)] by (auto simp: pool_ok_def)

lemma pool_exit:
  assumes "pool_ok cfg (t # r) ls" "complete cfg ls' (tid t)"
    "\<forall>j. j \<noteq> tid t \<longrightarrow> shown j ls' = shown j ls"
  shows "pool_ok cfg r ls'"
  unfolding pool_ok_def
proof (intro conjI ballI allI impI)
  show "distinct (map tid r)" using assms(1) by (simp add: pool_ok_def)
  show "tcb_ok cfg ls' t" if "t \<in> set r" for t using pool_others(1) [OF assms(1,3)] that by blast
  show "complete cfg ls' i" if "i \<notin> tid ` set r" for i
    using pool_others(2) [OF assms(1,3), of i] assms(2) that by (cases "i = tid t") auto
qed

text \<open>The bank does not see what the other threads do.\<close>

lemma bank_frame:
  assumes "bank_ok cfg (t # r) ws ops s" "func_of (environment t) \<noteq> Bank_operation"
    "func_of (environment t') \<noteq> Bank_operation" "tid t' = tid t"
    "lock_owner s' = lock_owner s" "balance s' = balance s" "bank_lines (lines s') = bank_lines (lines s)"
  shows "bank_ok cfg (t' # r) ws ops s'"
proof -
  have "\<not> in_bank (environment t')" using assms(3) by (auto simp: in_bank_def)
  with assms show ?thesis unfolding bank_ok_def by auto
qed

lemma bank_frame_exit:
  assumes "bank_ok cfg (t # r) ws ops s" "func_of (environment t) \<noteq> Bank_operation"
    "cfg (tid t) = Some (f, a)" "f \<noteq> Bank_operation"
    "lock_owner s' = lock_owner s" "balance s' = balance s" "bank_lines (lines s') = bank_lines (lines s)"
  shows "bank_ok cfg r ws ops s'"
  using assms unfolding bank_ok_def by auto

section \<open>The thread functions\<close>

lemma wrap32_add: "wrap32 (wrap32 x + wrap32 y) = wrap32 (x + y)"
proof -
  have "wrap32 z mod 4294967296 = z mod 4294967296" for z
    by (simp add: wrap32_def Let_def mod_diff_eq minus_mod_self2)
  then have "(wrap32 x + wrap32 y) mod 4294967296 = (x + y) mod 4294967296"
    by (metis mod_add_eq)
  then show ?thesis by (simp add: wrap32_def)
qed

lemma wrap32_mult: "wrap32 (wrap32 x * y) = wrap32 (x * y)"
proof -
  have "wrap32 x mod 4294967296 = x mod 4294967296"
    by (simp add: wrap32_def Let_def mod_diff_eq minus_mod_self2)
  then have "(wrap32 x * y) mod 4294967296 = (x * y) mod 4294967296"
    by (metis mod_mult_left_eq)
  then show ?thesis by (simp add: wrap32_def)
qed

lemma fibo_step: "3 \<le> n \<Longrightarrow> fibo n = fibo (n - 2) + fibo (n - 1)"
proof -
  assume "3 \<le> n"
  then obtain m where "n = Suc (Suc m)" by (cases n rule: fibo.cases) auto
  then show ?thesis by simp
qed

text \<open>The values of the iteration with number \<open>i\<close>, from those of the one before.\<close>

lemma fib_values_ok:
  assumes "1 \<le> i" "2 \<le> i \<longrightarrow> ty t = wrap32 (fibo (nat i - 1))" "3 \<le> i \<longrightarrow> tx t = wrap32 (fibo (nat i - 2))"
  shows "ty (fib_values (t\<lparr>ti := i\<rparr>)) = wrap32 (fibo (nat i)) \<and>
    (2 \<le> i \<longrightarrow> tx (fib_values (t\<lparr>ti := i\<rparr>)) = wrap32 (fibo (nat i - 1)))"
proof (cases "i \<le> 2")
  case True
  then have "i = 1 \<or> i = 2" using assms(1) by auto
  moreover have "fibo (Suc 0) = 1" "fibo 2 = 1" "wrap32 1 = 1" by (simp_all add: numeral_2_eq_2 wrap32_def)
  ultimately show ?thesis using True by (auto simp: fib_values_def)
next
  case False
  then have "fibo (nat i) = fibo (nat i - 2) + fibo (nat i - 1)" by (intro fibo_step) auto
  with False assms show ?thesis by (simp add: fib_values_def wrap32_add)
qed

lemma fib_values_frame [simp]:
  "tid (fib_values t) = tid t" "targ (fib_values t) = targ t" "ti (fib_values t) = ti t"
  "environment (fib_values t) = environment t"
  by (simp_all add: fib_values_def)

lemma fact_values_frame [simp]:
  "tid (fact_values t) = tid t" "targ (fact_values t) = targ t" "ti (fact_values t) = ti t"
  "environment (fact_values t) = environment t"
  by (simp_all add: fact_values_def)

lemma fact_values_ok:
  assumes "1 \<le> i" "2 \<le> i \<longrightarrow> ty t = wrap32 (fact (nat i - 1))"
  shows "ty (fact_values (t\<lparr>ti := i\<rparr>)) = wrap32 (fact (nat i))"
proof (cases "i \<le> 1")
  case True
  with assms(1) have "i = 1" by simp
  then show ?thesis by (simp add: fact_values_def wrap32_def)
next
  case False
  then have "fact (nat i) = fact (nat i - 1) * (i :: int)"
    by (subst fact_reduce) (auto simp: mult.commute)
  with False assms show ?thesis by (simp add: fact_values_def wrap32_mult)
qed

text \<open>What a state is made of, as far as the invariant sees it.\<close>

definition core :: "config \<Rightarrow> tcb list \<Rightarrow> tsys \<Rightarrow> bool" where
  "core cfg rs s \<longleftrightarrow> rq_current s < length (ready s) \<and> pool_ok cfg (rs @ waiting s) (lines s) \<and>
     (\<exists>ops. bank_ok cfg rs (waiting s) ops s)"

lemma active_core: "active cfg s \<longleftrightarrow> core cfg (live s) s \<and> ctl_ok s \<and>
    (waiting s \<noteq> [] \<and> lock_owner s = -1 \<longrightarrow> ctl s = Scheduling 3)"
  by (auto simp: active_def core_def)

lemma print_line_fields [simp]:
  "lines (print_line l s) = lines s @ [l]" "ready (print_line l s) = ready s"
  "rq_current (print_line l s) = rq_current s" "waiting (print_line l s) = waiting s"
  "balance (print_line l s) = balance s" "lock_owner (print_line l s) = lock_owner s"
  "ctl (print_line l s) = ctl s" "pend_tstp (print_line l s) = pend_tstp s"
  "pend_alrm (print_line l s) = pend_alrm s" "others (print_line l s) = others s"
  by (simp_all add: print_line_def others_def)

lemma others_update [simp]:
  "others (s\<lparr>ctl := k\<rparr>) = others s" "others (s\<lparr>lock_owner := o'\<rparr>) = others s"
  "others (s\<lparr>balance := b\<rparr>) = others s" "others (s\<lparr>pend_tstp := pt\<rparr>) = others s"
  "others (s\<lparr>pend_alrm := pa\<rparr>) = others s"
  by (simp_all add: others_def)

lemma thread_exit_fields [simp]:
  "lines (thread_exit s) = lines s" "ready (thread_exit s) = ready s"
  "rq_current (thread_exit s) = rq_current s" "waiting (thread_exit s) = waiting s"
  "balance (thread_exit s) = balance s" "lock_owner (thread_exit s) = lock_owner s"
  "ctl (thread_exit s) = Scheduling 3" "others (thread_exit s) = others s"
  by (simp_all add: thread_exit_def)

lemma thread_yield_fields [simp]:
  "lines (thread_yield l s) = lines s" "length (ready (thread_yield l s)) = length (ready s)"
  "rq_current (thread_yield l s) = rq_current s" "waiting (thread_yield l s) = waiting s"
  "balance (thread_yield l s) = balance s" "lock_owner (thread_yield l s) = lock_owner s"
  "ctl (thread_yield l s) = Yielding l"
  by (simp_all add: thread_yield_def)

lemma thread_yield_queue [simp]:
  "rq_current s < length (ready s) \<Longrightarrow> others (thread_yield l s) = others s"
  "n = rq_current s \<Longrightarrow> n < length (ready s) \<Longrightarrow>
     ready (thread_yield l s) ! n = (ready s ! n)\<lparr>environment := l\<rparr>"
  by (simp_all add: thread_yield_def put_running_def others_def)

lemma set_i_fields [simp]:
  "lines (set_i i s) = lines s" "length (ready (set_i i s)) = length (ready s)"
  "rq_current (set_i i s) = rq_current s" "waiting (set_i i s) = waiting s"
  "balance (set_i i s) = balance s" "lock_owner (set_i i s) = lock_owner s"
  by (simp_all add: set_i_def)

lemma set_i_queue [simp]:
  "rq_current s < length (ready s) \<Longrightarrow> others (set_i i s) = others s"
  "n = rq_current s \<Longrightarrow> n < length (ready s) \<Longrightarrow> ready (set_i i s) ! n = (ready s ! n)\<lparr>ti := i\<rparr>"
  by (simp_all add: set_i_def put_running_def others_def)

lemma put_running_nth [simp]:
  "n = rq_current s \<Longrightarrow> n < length (ready s) \<Longrightarrow> ready (put_running t s) ! n = t"
  by (simp add: put_running_def)

text \<open>Both loops end an iteration in the same way: the value is printed, and the thread exits or
  yields. \<open>t1\<close> is the running thread after the iteration.\<close>

definition end_iteration :: "place \<Rightarrow> tcb \<Rightarrow> tsys \<Rightarrow> tsys" where
  "end_iteration l t1 s =
     (let s1 = print_line (Value (tid t1) (ty t1)) (put_running t1 s)
      in if ti t1 = targ t1 then thread_exit s1 else thread_yield l s1)"

lemma fib_body_iteration:
  "rq_current s < length (ready s) \<Longrightarrow>
   fib_body (set_i i s) = end_iteration Fib_next (fib_values ((running s)\<lparr>ti := i\<rparr>)) s"
  by (simp add: fib_body_def end_iteration_def set_i_def put_running_def Let_def)

lemma fact_body_iteration:
  "rq_current s < length (ready s) \<Longrightarrow>
   fact_body (set_i i s) = end_iteration Fact_next (fact_values ((running s)\<lparr>ti := i\<rparr>)) s"
  by (simp add: fact_body_def end_iteration_def set_i_def put_running_def Let_def)

lemma end_iteration_active:
  assumes core: "core cfg (running s # others s) s"
    and wait: "waiting s \<noteq> [] \<longrightarrow> lock_owner s \<noteq> -1"
    and t: "func_of (environment (running s)) \<noteq> Bank_operation" "tid t1 = tid (running s)"
      "func_of l \<noteq> Bank_operation" "func_of l = func_of (environment (running s))"
      "targ t1 = targ (running s)"
    and last: "ti t1 = targ t1 \<Longrightarrow> complete cfg (lines s @ [Value (tid t1) (ty t1)]) (tid t1)"
    and more: "ti t1 \<noteq> targ t1 \<Longrightarrow> tcb_ok cfg (lines s @ [Value (tid t1) (ty t1)]) (t1\<lparr>environment := l\<rparr>)"
  shows "active cfg (end_iteration l t1 s)"
proof -
  let ?ls = "lines s @ [Value (tid t1) (ty t1)]"
  have c: "rq_current s < length (ready s)"
    and pool: "pool_ok cfg (running s # (others s @ waiting s)) (lines s)"
    using core by (auto simp: core_def)
  obtain ops where bank: "bank_ok cfg (running s # others s) (waiting s) ops s"
    using core by (auto simp: core_def)
  have cfg: "cfg (tid (running s)) = Some (func_of (environment (running s)), targ (running s))"
    using pool by (simp add: pool_ok_def tcb_ok_def)
  have other: "\<forall>j. j \<noteq> tid (running s) \<longrightarrow> shown j ?ls = shown j (lines s)" using t(2) by simp
  show ?thesis
  proof (cases "ti t1 = targ t1")
    case True
    have "pool_ok cfg (others s @ waiting s) ?ls"
      using pool_exit [OF pool _ other] last [OF True] t(2) by simp
    moreover have "bank_ok cfg (others s) (waiting s) ops (end_iteration l t1 s)"
      using True by (intro bank_frame_exit [OF bank t(1) cfg t(1)]) (simp_all add: end_iteration_def)
    ultimately show ?thesis
      using True c by (auto simp: active_core core_def ctl_ok_def live_def end_iteration_def)
  next
    case False
    have "pool_ok cfg (t1\<lparr>environment := l\<rparr> # others s @ waiting s) ?ls"
      using pool_step [OF pool _ more [OF False] other] t(2) by simp
    moreover have "bank_ok cfg (t1\<lparr>environment := l\<rparr> # others s) (waiting s) ops (end_iteration l t1 s)"
      using False t by (intro bank_frame [OF bank t(1)]) (simp_all add: end_iteration_def)
    ultimately show ?thesis
      using False c wait by (auto simp: active_core core_def ctl_ok_def live_def end_iteration_def)
  qed
qed

lemma fib_active:
  assumes core: "core cfg (running s # others s) s" and wait: "waiting s \<noteq> [] \<longrightarrow> lock_owner s \<noteq> -1"
    and f: "func_of (environment (running s)) = Fibonacci"
    and i: "1 \<le> i" "i \<le> targ (running s)" "int32 (targ (running s))"
    and shown: "shown (tid (running s)) (lines s) = fib_list (nat i - 1)"
    and vals: "2 \<le> i \<longrightarrow> ty (running s) = wrap32 (fibo (nat i - 1))"
      "3 \<le> i \<longrightarrow> tx (running s) = wrap32 (fibo (nat i - 2))"
  shows "active cfg (fib_body (set_i i s))"
proof -
  let ?t = "fib_values ((running s)\<lparr>ti := i\<rparr>)"
  have t: "ty ?t = wrap32 (fibo (nat i))" "2 \<le> i \<longrightarrow> tx ?t = wrap32 (fibo (nat i - 1))"
    using fib_values_ok [OF i(1) vals] by auto
  have cfg: "cfg (tid (running s)) = Some (Fibonacci, targ (running s))" "0 \<le> tid (running s)"
    using core f by (auto simp: core_def pool_ok_def tcb_ok_def)
  have "fib_list (nat i) = fib_list (nat i - 1) @ [wrap32 (fibo (nat i))]"
    using fib_list_Suc [of "nat i - 1"] i(1) by (simp add: Suc_nat_eq_nat_zadd1)
  then have sh: "shown (tid ?t) (lines s @ [Value (tid ?t) (ty ?t)]) = fib_list (nat i)"
    using shown t(1) by simp
  have c: "rq_current s < length (ready s)" using core by (simp add: core_def)
  show ?thesis
    unfolding fib_body_iteration [OF c]
  proof (rule end_iteration_active [OF core wait])
    show "complete cfg (lines s @ [Value (tid ?t) (ty ?t)]) (tid ?t)" if "ti ?t = targ ?t"
      using sh that cfg by (simp add: complete_def)
    show "tcb_ok cfg (lines s @ [Value (tid ?t) (ty ?t)]) (?t\<lparr>environment := Fib_next\<rparr>)" if "ti ?t \<noteq> targ ?t"
      using sh that cfg i t by (simp add: tcb_ok_def)
  qed (simp_all add: f)
qed

lemma fact_active:
  assumes core: "core cfg (running s # others s) s" and wait: "waiting s \<noteq> [] \<longrightarrow> lock_owner s \<noteq> -1"
    and f: "func_of (environment (running s)) = Factorial"
    and i: "1 \<le> i" "i \<le> targ (running s)" "int32 (targ (running s))"
    and shown: "shown (tid (running s)) (lines s) = fact_list (nat i - 1)"
    and vals: "2 \<le> i \<longrightarrow> ty (running s) = wrap32 (fact (nat i - 1))"
  shows "active cfg (fact_body (set_i i s))"
proof -
  let ?t = "fact_values ((running s)\<lparr>ti := i\<rparr>)"
  have t: "ty ?t = wrap32 (fact (nat i))" using fact_values_ok [OF i(1) vals] .
  have cfg: "cfg (tid (running s)) = Some (Factorial, targ (running s))" "0 \<le> tid (running s)"
    using core f by (auto simp: core_def pool_ok_def tcb_ok_def)
  have "fact_list (nat i) = fact_list (nat i - 1) @ [wrap32 (fact (nat i))]"
    using fact_list_Suc [of "nat i - 1"] i(1) by (simp add: Suc_nat_eq_nat_zadd1)
  then have sh: "shown (tid ?t) (lines s @ [Value (tid ?t) (ty ?t)]) = fact_list (nat i)"
    using shown t by simp
  have c: "rq_current s < length (ready s)" using core by (simp add: core_def)
  show ?thesis
    unfolding fact_body_iteration [OF c]
  proof (rule end_iteration_active [OF core wait])
    show "complete cfg (lines s @ [Value (tid ?t) (ty ?t)]) (tid ?t)" if "ti ?t = targ ?t"
      using sh that cfg by (simp add: complete_def)
    show "tcb_ok cfg (lines s @ [Value (tid ?t) (ty ?t)]) (?t\<lparr>environment := Fact_next\<rparr>)" if "ti ?t \<noteq> targ ?t"
      using sh that cfg i t by (simp add: tcb_ok_def)
  qed (simp_all add: f)
qed

section \<open>The bank\<close>

lemma wrap32_sub: "wrap32 (wrap32 x - a) = wrap32 (x - a)"
proof -
  have "wrap32 x mod 4294967296 = x mod 4294967296"
    by (simp add: wrap32_def Let_def mod_diff_eq minus_mod_self2)
  then have "(wrap32 x - a) mod 4294967296 = (x - a) mod 4294967296"
    by (metis mod_diff_left_eq)
  then show ?thesis by (simp add: wrap32_def)
qed

lemma int32_bank_op: "int32 b \<Longrightarrow> int32 (bank_op b a)"
  by (simp add: bank_op_def)

lemma int32_ledger: "int32 b \<Longrightarrow> int32 (ledger b ops)"
  by (induction b ops rule: ledger.induct) (simp_all add: int32_bank_op)

lemma int32_500 [simp]: "int32 500"
  by (simp add: int32_def)

lemma bank_tids:
  assumes "core cfg (running s # others s) s"
  shows "\<forall>u\<in>set (running s # others s). 0 \<le> tid u" "\<forall>u\<in>set (others s). tid u \<noteq> tid (running s)"
proof -
  show "\<forall>u\<in>set (running s # others s). 0 \<le> tid u"
    using assms by (auto simp: core_def pool_ok_def tcb_ok_def)
  have "tid (running s) \<notin> tid ` set (others s)" using assms by (simp add: core_def pool_ok_def)
  then show "\<forall>u\<in>set (others s). tid u \<noteq> tid (running s)" by (metis image_eqI)
qed

text \<open>The owner of the lock, when the running thread has it or is inside the bank.\<close>

lemma bank_owner:
  assumes core: "core cfg (running s # others s) s" and own: "lock_owner s = tid (running s)"
    and bank: "bank_ok cfg (running s # others s) (waiting s) ops s"
  shows "bank_lines (lines s) = journal 500 ops @ fst (progress (ledger 500 ops) (running s)) \<and>
    balance s = snd (progress (ledger 500 ops) (running s))"
proof -
  have "lock_owner s \<noteq> -1" using bank_tids(1) [OF core] own by auto
  then obtain t where t: "t \<in> set (running s # others s)" "tid t = lock_owner s"
      "bank_lines (lines s) = journal 500 ops @ fst (progress (ledger 500 ops) t)"
      "balance s = snd (progress (ledger 500 ops) t)"
    using bank unfolding bank_ok_def by auto
  then have "t = running s" using bank_tids(2) [OF core] own by auto
  with t show ?thesis by simp
qed

lemma lock_taken:
  assumes core: "core cfg (running s # others s) s" and env: "environment (running s) = Setup Bank_operation"
    and ok: "lock_ok s" and bank: "bank_ok cfg (running s # others s) (waiting s) ops s"
  shows "bank_ok cfg ((running s)\<lparr>environment := Bank_step2\<rparr> # others s) (waiting s) ops (bank_step1 s)"
proof -
  let ?t = "running s"
  have free: "\<not> in_bank (environment u)" if "u \<in> set (others s)" "lock_owner s = -1 \<or> lock_owner s = tid ?t" for u
    using bank bank_tids [OF core] that unfolding bank_ok_def by fastforce
  have clean: "bank_lines (lines s) = journal 500 ops \<and> balance s = ledger 500 ops"
  proof (cases "lock_owner s = -1")
    case True
    with bank show ?thesis by (simp add: bank_ok_def)
  next
    case False
    with ok have "lock_owner s = tid ?t" by (simp add: lock_ok_def)
    from bank_owner [OF core this bank] show ?thesis using env by (simp add: progress_def)
  qed
  have "0 \<le> tid ?t" using bank_tids(1) [OF core] by simp
  then have ne: "tid ?t \<noteq> -1" by simp
  have s': "lock_owner (bank_step1 s) = tid ?t" "lines (bank_step1 s) = lines s @ [Acquired (tid ?t)]"
    "balance (bank_step1 s) = balance s" using ok by (simp_all add: bank_step1_def)
  have "\<forall>u\<in>set (others s). \<not> in_bank (environment u)" using free ok by (auto simp: lock_ok_def)
  then show ?thesis
    using bank clean ne unfolding bank_ok_def s' by (auto simp: progress_def)
qed

lemma pool_env:
  assumes "pool_ok cfg (t # r) ls" "func_of (environment t) = Bank_operation" "func_of l = Bank_operation"
    "\<forall>j. shown j ls' = shown j ls" "tcb_ok cfg ls (t\<lparr>environment := l\<rparr>)"
  shows "pool_ok cfg (t\<lparr>environment := l\<rparr> # r) ls'"
proof (rule pool_step [OF assms(1)])
  show "tcb_ok cfg ls' (t\<lparr>environment := l\<rparr>)" using assms(4,5) tcb_ok_lines by simp
qed (use assms(4) in simp_all)

lemma tcb_ok_bank:
  "tcb_ok cfg ls t \<Longrightarrow> func_of (environment t) = Bank_operation \<Longrightarrow> in_bank l \<Longrightarrow>
   tcb_ok cfg ls (t\<lparr>environment := l\<rparr>)"
  by (auto simp: tcb_ok_def in_bank_def)

lemma bank_step1_active:
  assumes core: "core cfg (running s # others s) s" and wait: "waiting s \<noteq> [] \<longrightarrow> lock_owner s \<noteq> -1"
    and env: "environment (running s) = Setup Bank_operation"
  shows "active cfg (bank_step1 s)"
proof -
  have c: "rq_current s < length (ready s)"
    and pool: "pool_ok cfg (running s # (others s @ waiting s)) (lines s)"
    using core by (auto simp: core_def)
  obtain ops where bank: "bank_ok cfg (running s # others s) (waiting s) ops s"
    using core by (auto simp: core_def)
  show ?thesis
  proof (cases "lock_ok s")
    case True
    have "tcb_ok cfg (lines s) ((running s)\<lparr>environment := Bank_step2\<rparr>)"
      using pool env by (intro tcb_ok_bank) (auto simp: pool_ok_def in_bank_def)
    then have "pool_ok cfg ((running s)\<lparr>environment := Bank_step2\<rparr> # others s @ waiting s)
        (lines s @ [Acquired (tid (running s))])"
      using env by (intro pool_env [OF pool]) simp_all
    moreover have "0 \<le> tid (running s)" using bank_tids(1) [OF core] by simp
    ultimately show ?thesis
      using lock_taken [OF core env True bank] True c
      by (auto simp: active_core core_def ctl_ok_def live_def bank_step1_def)
  next
    case False
    have "bank_ok cfg (running s # others s) (waiting s) ops (s\<lparr>ctl := Scheduling 2\<rparr>)"
      using bank bank_ok_perm [of "running s # others s" "running s # others s" "s\<lparr>ctl := Scheduling 2\<rparr>" s] by simp
    then show ?thesis
      using False c pool env wait
      by (auto simp: active_core core_def ctl_ok_def live_def bank_step1_def lock_ok_def)
  qed
qed

lemma bank_step2_fields:
  assumes "rq_current s < length (ready s)" "int32 (balance s)"
  shows "lines (bank_step2 s) = lines s @
      [Operation (tid (running s)) (balance s) (bank_op (balance s) (targ (running s)))]"
    "balance (bank_step2 s) = bank_op (balance s) (targ (running s))"
    "lock_owner (bank_step2 s) = lock_owner s" "waiting (bank_step2 s) = waiting s"
    "ctl (bank_step2 s) = Yielding Bank_step3" "others (bank_step2 s) = others s"
    "rq_current (bank_step2 s) = rq_current s" "length (ready (bank_step2 s)) = length (ready s)"
    "ready (bank_step2 s) ! rq_current s = (running s)\<lparr>environment := Bank_step3\<rparr>"
  using assms by (simp_all add: bank_step2_def Let_def bank_op_def wrap32_sub wrap32_id)

lemma bank_step2_active:
  assumes core: "core cfg (running s # others s) s" and wait: "waiting s \<noteq> [] \<longrightarrow> lock_owner s \<noteq> -1"
    and env: "environment (running s) = Bank_step2"
  shows "active cfg (bank_step2 s)"
proof -
  have c: "rq_current s < length (ready s)"
    and pool: "pool_ok cfg (running s # (others s @ waiting s)) (lines s)"
    using core by (auto simp: core_def)
  obtain ops where bank: "bank_ok cfg (running s # others s) (waiting s) ops s"
    using core by (auto simp: core_def)
  have own: "lock_owner s = tid (running s)"
    using bank env by (auto simp: bank_ok_def in_bank_def)
  note st = bank_owner [OF core own bank]
  have int: "int32 (balance s)" using st env int32_ledger [of 500 ops] by (simp add: progress_def)
  note f = bank_step2_fields [OF c int]
  have "tcb_ok cfg (lines s) ((running s)\<lparr>environment := Bank_step3\<rparr>)"
    using pool env by (intro tcb_ok_bank) (auto simp: pool_ok_def in_bank_def)
  then have "pool_ok cfg ((running s)\<lparr>environment := Bank_step3\<rparr> # others s @ waiting s) (lines (bank_step2 s))"
    using env by (intro pool_env [OF pool]) (simp_all add: f(1))
  moreover have "bank_ok cfg ((running s)\<lparr>environment := Bank_step3\<rparr> # others s) (waiting s) ops (bank_step2 s)"
    using bank st env own bank_tids(1) [OF core] unfolding bank_ok_def f by (auto simp: progress_def)
  ultimately show ?thesis
    using c wait own bank_tids(1) [OF core] by (auto simp: active_core core_def ctl_ok_def live_def f)
qed

lemma bank_step3_active:
  assumes core: "core cfg (running s # others s) s" and env: "environment (running s) = Bank_step3"
  shows "active cfg (bank_step3 s)"
proof -
  let ?t = "running s"
  have c: "rq_current s < length (ready s)"
    and pool: "pool_ok cfg (running s # (others s @ waiting s)) (lines s)"
    using core by (auto simp: core_def)
  obtain ops where bank: "bank_ok cfg (running s # others s) (waiting s) ops s"
    using core by (auto simp: core_def)
  have own: "lock_owner s = tid ?t" using bank env by (auto simp: bank_ok_def in_bank_def)
  note st = bank_owner [OF core own bank]
  have cfg: "cfg (tid ?t) = Some (Bank_operation, targ ?t)"
    using pool env by (simp add: pool_ok_def tcb_ok_def)
  have dist: "tid ?t \<notin> tid ` set (others s @ waiting s)" using pool by (auto simp: pool_ok_def)
  have s': "lock_owner (bank_step3 s) = -1" "lines (bank_step3 s) = lines s @ [Released (tid ?t)]"
    "balance (bank_step3 s) = balance s" "waiting (bank_step3 s) = waiting s" "ctl (bank_step3 s) = Scheduling 3"
    "others (bank_step3 s) = others s" "rq_current (bank_step3 s) = rq_current s" "ready (bank_step3 s) = ready s"
    using own by (simp_all add: bank_step3_def bank_unlock_def)
  have "pool_ok cfg (others s @ waiting s) (lines (bank_step3 s))"
    unfolding s' using cfg by (intro pool_exit [OF pool]) (simp_all add: complete_def)
  moreover have "bank_ok cfg (others s) (waiting s) (ops @ [(tid ?t, targ ?t)]) (bank_step3 s)"
  proof -
    have "\<not> in_bank (environment u)" if "u \<in> set (others s)" for u
      using bank bank_tids(2) [OF core] own that by (auto simp: bank_ok_def)
    moreover have "tid ?t \<notin> fst ` set ops" using bank by (force simp: bank_ok_def)
    ultimately show ?thesis
      using bank st env cfg dist unfolding bank_ok_def s' by (auto simp: progress_def)
  qed
  ultimately show ?thesis
    using c by (auto simp: active_core core_def ctl_ok_def live_def s')
qed

lemma thread_run_active:
  assumes "active cfg s" "ctl s = Running l"
  shows "active cfg (thread_run l s)"
proof -
  have core: "core cfg (running s # others s) s" and wait: "waiting s \<noteq> [] \<longrightarrow> lock_owner s \<noteq> -1"
    and env: "environment (running s) = l"
    using assms by (auto simp: active_core live_def ctl_ok_def)
  have ok: "tcb_ok cfg (lines s) (running s)" using core by (simp add: core_def pool_ok_def)
  have suc: "wrap32 (ti (running s) + 1) = ti (running s) + 1" if "1 \<le> ti (running s)"
      "ti (running s) < targ (running s)" "int32 (targ (running s))"
    using that by (intro wrap32_id) (auto simp: int32_def)
  show ?thesis
  proof (cases l)
    case (Setup f)
    then show ?thesis
      using ok env bank_step1_active [OF core wait]
      by (cases f) (auto simp: tcb_ok_def intro!: fib_active [OF core wait] fact_active [OF core wait])
  next
    case Fib_next
    with ok env suc show ?thesis
      by (auto simp: tcb_ok_def nat_add_distrib intro!: fib_active [OF core wait])
  next
    case Fact_next
    with ok env suc show ?thesis
      by (auto simp: tcb_ok_def nat_add_distrib intro!: fact_active [OF core wait])
  next
    case Bank_step2
    with env show ?thesis using bank_step2_active [OF core wait] by simp
  next
    case Bank_step3
    with env show ?thesis using bank_step3_active [OF core] by simp
  qed
qed

section \<open>The scheduler\<close>

lemma core_lines:
  assumes "core cfg rs s" "rq_current s' < length (ready s')" "mset rs' = mset rs" "waiting s' = waiting s"
    "lock_owner s' = lock_owner s" "balance s' = balance s"
    "bank_lines (lines s') = bank_lines (lines s)" "\<forall>j. shown j (lines s') = shown j (lines s)"
  shows "core cfg rs' s'"
proof -
  obtain ops where "bank_ok cfg rs (waiting s) ops s" using assms(1) by (auto simp: core_def)
  then have "bank_ok cfg rs' (waiting s') ops s'"
    using bank_ok_perm [of rs rs' s' s] assms(3-7) by simp
  moreover have "pool_ok cfg (rs' @ waiting s') (lines s')"
    using assms pool_ok_perm [of "rs' @ waiting s'" "rs @ waiting s'"] pool_lines
    by (metis core_def mset_append)
  ultimately show ?thesis using assms(2) by (auto simp: core_def)
qed

lemma yield_windows_active:
  assumes "active cfg s" "ctl s = Yielding l"
  shows "active cfg (yield_windows l s)"
proof -
  have core: "core cfg (running s # others s) s" and wait: "waiting s \<noteq> [] \<longrightarrow> lock_owner s \<noteq> -1"
    and env: "environment (running s) = l"
    using assms by (auto simp: active_core live_def ctl_ok_def)
  let ?s = "yield_windows l s"
  have f: "ready ?s = ready s" "rq_current ?s = rq_current s" "waiting ?s = waiting s"
    "lock_owner ?s = lock_owner s" "balance ?s = balance s" "others ?s = others s"
    "bank_lines (lines ?s) = bank_lines (lines s)" "\<forall>j. shown j (lines ?s) = shown j (lines s)"
    "ctl ?s = Running l \<or> ctl ?s = Scheduling 1"
    by (simp_all add: yield_windows_eq sighandler_def)
  have "core cfg (running s # others s) ?s"
    using core f by (intro core_lines [OF core]) (simp_all add: core_def)
  with f env wait show ?thesis by (auto simp: active_core live_def ctl_ok_def)
qed

lemma resume_active:
  assumes core: "core cfg (ready s) s" and wait: "waiting s \<noteq> [] \<longrightarrow> lock_owner s \<noteq> -1"
  shows "active cfg (resume s)"
proof -
  let ?s = "resume s"
  have c: "rq_current s < length (ready s)" using core by (simp add: core_def)
  then have f: "ready ?s = ready s" "rq_current ?s = rq_current s" "waiting ?s = waiting s"
    "lock_owner ?s = lock_owner s" "balance ?s = balance s" "others ?s = others s" "lines ?s = lines s"
    "ctl ?s = Running (environment (running s))"
    by (simp_all add: resume_def)
  have "core cfg (running s # others s) ?s"
    using c f mset_ready [OF c] by (intro core_lines [OF core]) simp_all
  with f wait show ?thesis by (auto simp: active_core live_def ctl_ok_def)
qed

text \<open>When the lock has no owner, or its owner has just finished, no thread is in the way.\<close>

lemma give_lock_core:
  assumes core: "core cfg rs s"
  shows "\<exists>new. core cfg (rs @ new) (give_lock s) \<and> ready (give_lock s) = ready s @ new \<and>
    rq_current (give_lock s) = rq_current s \<and>
    (waiting (give_lock s) \<noteq> [] \<longrightarrow> lock_owner (give_lock s) \<noteq> -1) \<and>
    (lock_owner s \<noteq> -1 \<longrightarrow> new = [] \<and> give_lock s = s)"
proof (cases "lock_owner s = -1 \<and> waiting s \<noteq> []")
  case True
  then obtain w ws where w: "waiting s = w # ws" by (cases "waiting s") auto
  obtain ops where bank: "bank_ok cfg rs (waiting s) ops s" using core by (auto simp: core_def)
  have pool: "pool_ok cfg ((rs @ [w]) @ ws) (lines s)" using core w by (simp add: core_def)
  have tids: "\<forall>t\<in>set rs. 0 \<le> tid t" "0 \<le> tid w"
    using pool by (auto simp: pool_ok_def tcb_ok_def)
  have s': "give_lock s = s\<lparr>ready := ready s @ [w], lock_owner := tid w, waiting := ws\<rparr>"
    using True w by (simp add: give_lock_def)
  have env: "environment w = Setup Bank_operation" using bank w by (simp add: bank_ok_def)
  have free: "\<not> in_bank (environment t)" if "t \<in> set rs" for t
    using bank tids(1) that True by (force simp: bank_ok_def)
  have "bank_ok cfg (rs @ [w]) ws ops (give_lock s)"
    using bank True env free tids(2) w unfolding bank_ok_def s' by (auto simp: progress_def in_bank_def)
  then have "core cfg (rs @ [w]) (give_lock s)"
    using core pool s' by (auto simp: core_def)
  with s' tids(2) show ?thesis using True by (intro exI [of _ "[w]"]) auto
next
  case False
  then show ?thesis using core by (intro exI [of _ "[]"]) (auto simp: give_lock_def)
qed

lemma bank_owner_ready:
  assumes "core cfg rs s" "lock_owner s \<noteq> -1"
  shows "\<exists>t\<in>set rs. tid t = lock_owner s"
  using assms by (auto simp: core_def bank_ok_def)

lemma drop_running_fields [simp]:
  "rq_current (drop_running s) = rq_current s" "waiting (drop_running s) = waiting s"
  "lock_owner (drop_running s) = lock_owner s" "balance (drop_running s) = balance s"
  "lines (drop_running s) = lines s" "length (ready (drop_running s)) = length (ready s) - 1"
  by (simp_all add: drop_running_def)

text \<open>After the running thread has left the ready queue, the index stays in range.\<close>

lemma after_drop:
  assumes core: "core cfg (others s) s" and wait: "waiting s \<noteq> [] \<longrightarrow> lock_owner s \<noteq> -1"
    and ne: "ready (drop_running s) \<noteq> []"
  shows "active cfg (resume ((drop_running s)\<lparr>rq_current :=
      (if rq_current s = length (ready (drop_running s)) then 0 else rq_current s)\<rparr>))" (is "active cfg (resume ?s)")
proof (rule resume_active)
  have c: "rq_current s < length (ready s)" using core by (simp add: core_def)
  have "0 < length (ready (drop_running s))" by (rule length_greater_0_conv [THEN iffD2, OF ne])
  with c have "rq_current ?s < length (ready ?s)" by auto
  moreover have "mset (ready ?s) = mset (others s)" using mset_drop_running [OF c] by simp
  ultimately show "core cfg (ready ?s) ?s" by (intro core_lines [OF core]) simp_all
  show "waiting ?s \<noteq> [] \<longrightarrow> lock_owner ?s \<noteq> -1" using wait by simp
qed

lemma ready_after_drop:
  assumes core: "core cfg (others s) s" and own: "lock_owner s \<noteq> -1"
  shows "ready (drop_running s) \<noteq> []"
proof -
  have c: "rq_current s < length (ready s)" using core by (simp add: core_def)
  obtain t where "t \<in> set (others s)" using bank_owner_ready [OF core own] by blast
  then have "others s \<noteq> []" by auto
  with mset_drop_running [OF c] show ?thesis by auto
qed

lemma scheduler_exit_core:
  assumes "active cfg s" "ctl s = Scheduling 3"
  shows "core cfg (others (give_lock s)) (give_lock s)"
    "waiting (give_lock s) \<noteq> [] \<longrightarrow> lock_owner (give_lock s) \<noteq> -1"
    "ready (drop_running (give_lock s)) = [] \<Longrightarrow> waiting (give_lock s) = [] \<and>
       scheduler 3 s = (drop_running (give_lock s))\<lparr>ctl := Finished\<rparr>"
    "ready (drop_running (give_lock s)) \<noteq> [] \<Longrightarrow>
       scheduler 3 s = resume ((drop_running (give_lock s))\<lparr>rq_current :=
        (if rq_current (give_lock s) = length (ready (drop_running (give_lock s))) then 0
         else rq_current (give_lock s))\<rparr>)"
proof -
  let ?s = "give_lock s"
  have core: "core cfg (others s) s" using assms by (simp add: active_core live_def)
  then have c: "rq_current s < length (ready s)" by (simp add: core_def)
  obtain new where new: "core cfg (others s @ new) ?s" "ready ?s = ready s @ new"
    "rq_current ?s = rq_current s" "waiting ?s \<noteq> [] \<longrightarrow> lock_owner ?s \<noteq> -1"
    using give_lock_core [OF core] by blast
  have "others ?s = others s @ new" using new(2,3) c by (simp add: others_def)
  with new(1) show core': "core cfg (others ?s) ?s" by simp
  show "waiting ?s \<noteq> [] \<longrightarrow> lock_owner ?s \<noteq> -1" by (rule new(4))
  have ne: "ready s \<noteq> []" using c by auto
  show "waiting ?s = [] \<and> scheduler 3 s = (drop_running ?s)\<lparr>ctl := Finished\<rparr>" if "ready (drop_running ?s) = []"
  proof -
    have "waiting ?s = []" using that ready_after_drop [OF core'] new(4) by auto
    with that ne show ?thesis by (simp add: scheduler_def Let_def)
  qed
  show "scheduler 3 s = resume ((drop_running ?s)\<lparr>rq_current :=
      (if rq_current ?s = length (ready (drop_running ?s)) then 0 else rq_current ?s)\<rparr>)"
    if "ready (drop_running ?s) \<noteq> []"
    using that ne by (simp add: scheduler_def Let_def)
qed

lemma scheduler_exit:
  assumes "active cfg s" "ctl s = Scheduling 3"
  shows "threads_inv cfg (scheduler 3 s)"
proof -
  let ?s = "give_lock s"
  note x = scheduler_exit_core [OF assms]
  show ?thesis
  proof (cases "ready (drop_running ?s) = []")
    case True
    have "others ?s = []"
      using mset_drop_running [of ?s] True x(1) by (simp add: core_def)
    with x(1) x(3) [OF True] obtain ops where "pool_ok cfg [] (lines ?s)" "bank_ok cfg [] [] ops ?s"
      by (auto simp: core_def)
    moreover from this have "bank_ok cfg [] [] ops (scheduler 3 s)"
      using bank_ok_perm [of "[]" "[]" "(drop_running ?s)\<lparr>ctl := Finished\<rparr>" ?s] x(3) [OF True] by simp
    ultimately show ?thesis using True x(3) [OF True] by (auto simp: threads_inv_def final_def)
  next
    case False
    then show ?thesis using after_drop [OF x(1,2) False] x(4) [OF False] by (simp add: threads_inv_def)
  qed
qed

lemma scheduler_wait_core:
  assumes act: "active cfg s" and v: "ctl s = Scheduling 2"
  shows "core cfg (others (s\<lparr>waiting := waiting s @ [running s]\<rparr>)) (s\<lparr>waiting := waiting s @ [running s]\<rparr>)"
    "lock_owner s \<noteq> -1" "ready (drop_running (s\<lparr>waiting := waiting s @ [running s]\<rparr>)) \<noteq> []"
    "scheduler 2 s = resume ((drop_running (s\<lparr>waiting := waiting s @ [running s]\<rparr>))\<lparr>rq_current :=
      (if rq_current (s\<lparr>waiting := waiting s @ [running s]\<rparr>) =
          length (ready (drop_running (s\<lparr>waiting := waiting s @ [running s]\<rparr>))) then 0
       else rq_current (s\<lparr>waiting := waiting s @ [running s]\<rparr>))\<rparr>)"
proof -
  let ?t = "running s" let ?s = "s\<lparr>waiting := waiting s @ [?t]\<rparr>"
  have core: "core cfg (?t # others s) s" and env: "environment ?t = Setup Bank_operation"
    and own: "lock_owner s \<noteq> -1" "lock_owner s \<noteq> tid ?t"
    using assms by (auto simp: active_core live_def ctl_ok_def)
  then have c: "rq_current s < length (ready s)" by (simp add: core_def)
  obtain ops where bank: "bank_ok cfg (?t # others s) (waiting s) ops s"
    using core by (auto simp: core_def)
  have ot: "others ?s = others s" by (simp add: others_def)
  have "pool_ok cfg (others s @ waiting ?s) (lines s)"
    using core pool_ok_perm [of "others s @ waiting ?s" "(?t # others s) @ waiting s"]
    by (simp add: core_def)
  moreover have "bank_ok cfg (others s) (waiting ?s) ops ?s"
    using bank env own unfolding bank_ok_def by auto
  ultimately show core': "core cfg (others ?s) ?s" using c unfolding ot by (auto simp: core_def)
  show "lock_owner s \<noteq> -1" by (rule own(1))
  show ne: "ready (drop_running ?s) \<noteq> []" using ready_after_drop [OF core'] own by simp
  show "scheduler 2 s = resume ((drop_running ?s)\<lparr>rq_current :=
      (if rq_current ?s = length (ready (drop_running ?s)) then 0 else rq_current ?s)\<rparr>)"
    using ne c own by (auto simp: scheduler_def Let_def give_lock_def)
qed

lemma scheduler_wait:
  assumes act: "active cfg s" and v: "ctl s = Scheduling 2"
  shows "active cfg (scheduler 2 s)"
  unfolding scheduler_wait_core(4) [OF assms]
  by (rule after_drop [OF scheduler_wait_core(1) [OF assms] _ scheduler_wait_core(3) [OF assms]])
    (simp add: scheduler_wait_core(2) [OF assms])

lemma scheduler_switch:
  assumes act: "active cfg s" and v: "ctl s = Scheduling 1"
  shows "active cfg (scheduler 1 s)"
    "scheduler 1 s = resume (s\<lparr>rq_current := (rq_current s + 1) mod length (ready s)\<rparr>)"
proof -
  have core: "core cfg (running s # others s) s" and wait: "waiting s \<noteq> [] \<longrightarrow> lock_owner s \<noteq> -1"
    using assms by (auto simp: active_core live_def)
  then have c: "rq_current s < length (ready s)" by (simp add: core_def)
  have gl: "give_lock s = s" using wait by (auto simp: give_lock_def)
  have "(if rq_current s = length (ready s) - 1 then 0 else rq_current s + 1) =
      (rq_current s + 1) mod length (ready s)" using c by (cases "length (ready s)") auto
  then show eq: "scheduler 1 s = resume (s\<lparr>rq_current := (rq_current s + 1) mod length (ready s)\<rparr>)"
    using c by (auto simp: scheduler_def Let_def gl)
  have "0 < length (ready s)" using c by linarith
  then have "(rq_current s + 1) mod length (ready s) < length (ready s)" by (rule mod_less_divisor)
  then have "core cfg (ready s) (s\<lparr>rq_current := (rq_current s + 1) mod length (ready s)\<rparr>)"
    using mset_ready [OF c] by (intro core_lines [OF core]) simp_all
  then show "active cfg (scheduler 1 s)"
    unfolding eq using wait by (intro resume_active) simp_all
qed

lemma scheduler_start:
  assumes "initial cfg s"
  shows "threads_inv cfg (scheduler 0 s)"
proof (cases "ready s = []")
  case True
  then have "scheduler 0 s = s\<lparr>ctl := Finished\<rparr>" using assms by (simp add: scheduler_def initial_def)
  moreover have "bank_ok cfg [] [] [] (s\<lparr>ctl := Finished\<rparr>)"
    using assms True bank_ok_perm [of "[]" "[]" "s\<lparr>ctl := Finished\<rparr>" s] by (simp add: initial_def)
  ultimately show ?thesis using assms True by (auto simp: threads_inv_def final_def initial_def)
next
  case False
  let ?s = "s\<lparr>rq_current := 0\<rparr>"
  have "bank_ok cfg (ready s) [] [] ?s"
    using assms bank_ok_perm [of "ready s" "ready s" ?s s] by (simp add: initial_def)
  then have "core cfg (ready ?s) ?s" using assms False by (auto simp: core_def initial_def)
  then have "active cfg (resume ?s)" using assms by (intro resume_active) (simp_all add: initial_def)
  moreover have "scheduler 0 s = resume ?s" using False by (simp add: scheduler_def)
  ultimately show ?thesis by (simp add: threads_inv_def)
qed

section \<open>Every step keeps the invariant\<close>

lemma program_step_inv:
  assumes "threads_inv cfg s" "program_step s = Some s'"
  shows "threads_inv cfg s'"
proof -
  consider (init) "initial cfg s" | (act) "active cfg s"
    using assms by (auto simp: threads_inv_def final_def program_step.simps)
  then show ?thesis
  proof cases
    case init
    then have "s' = scheduler 0 s" using assms(2) by (simp add: initial_def program_step.simps)
    with scheduler_start [OF init] show ?thesis by simp
  next
    case act
    show ?thesis
    proof (cases "ctl s")
      case (Running l)
      with assms(2) have "s' = thread_run l s" by (simp add: program_step.simps)
      with thread_run_active [OF act Running] show ?thesis by (simp add: threads_inv_def)
    next
      case (Yielding l)
      with assms(2) have "s' = yield_windows l s" by (simp add: program_step.simps)
      with yield_windows_active [OF act Yielding] show ?thesis by (simp add: threads_inv_def)
    next
      case (Scheduling v)
      with assms(2) have s': "s' = scheduler v s" by (simp add: program_step.simps)
      have "v = 1 \<or> v = 2 \<or> v = 3" using act Scheduling by (auto simp: active_core ctl_ok_def)
      with s' scheduler_switch(1) [OF act] scheduler_wait [OF act] scheduler_exit [OF act] Scheduling
      show ?thesis by (auto simp: threads_inv_def)
    next
      case Finished
      with assms(2) show ?thesis by (simp add: program_step.simps)
    next
      case Crashed
      with assms(2) show ?thesis by (simp add: program_step.simps)
    qed
  qed
qed

lemma signal_inv:
  assumes "threads_inv cfg s" "ctl s \<noteq> Finished"
  shows "threads_inv cfg (s\<lparr>pend_tstp := a\<rparr>)" "threads_inv cfg (s\<lparr>pend_alrm := b\<rparr>)"
proof -
  have bank: "bank_ok cfg rs ws ops (s\<lparr>pend_tstp := a\<rparr>) = bank_ok cfg rs ws ops s"
    "bank_ok cfg rs ws ops (s\<lparr>pend_alrm := b\<rparr>) = bank_ok cfg rs ws ops s" for rs ws ops
    using bank_ok_perm [of rs rs "s\<lparr>pend_tstp := a\<rparr>" s] bank_ok_perm [of rs rs "s\<lparr>pend_alrm := b\<rparr>" s] by simp_all
  show "threads_inv cfg (s\<lparr>pend_tstp := a\<rparr>)" "threads_inv cfg (s\<lparr>pend_alrm := b\<rparr>)"
    using assms by (auto simp: threads_inv_def initial_def active_def final_def bank live_def ctl_ok_def
        split: control.splits)
qed

lemma thread_step_inv: "thread_step s s' \<Longrightarrow> threads_inv cfg s \<Longrightarrow> threads_inv cfg s'"
  by (erule thread_step.cases) (auto intro: program_step_inv signal_inv)

end
