(* ===== verification/Threads_Termination.thy ===== *)
theory Threads_Termination
  imports Threads_Correct
begin

text \<open>
  Every execution of the threads ends, whatever signals arrive: a measure that every step decreases.
  It counts, for every unfinished thread, how often its code will still run from one place to the
  next, then the position in the cycle of running, yielding and scheduling, then the signals that
  are not pending.
\<close>

section \<open>The measure\<close>

fun todo :: "int \<Rightarrow> tcb \<Rightarrow> nat" where
  "todo owner t =
     (case environment t of
        Setup Bank_operation \<Rightarrow> (if tid t = owner then 3 else 4)
      | Setup _ \<Rightarrow> nat (targ t)
      | Fib_next \<Rightarrow> nat (targ t - ti t)
      | Fact_next \<Rightarrow> nat (targ t - ti t)
      | Bank_step2 \<Rightarrow> 2
      | Bank_step3 \<Rightarrow> 1)"

declare todo.simps [simp del]

definition tot :: "int \<Rightarrow> tcb list \<Rightarrow> tcb list \<Rightarrow> nat" where
  "tot owner rs ws = sum_list (map (todo owner) rs) + 3 * length ws"

definition todo_total :: "tsys \<Rightarrow> nat" where
  "todo_total s =
     (if ctl s = Finished then 0
      else if ctl s = Scheduling 0 then tot (lock_owner s) (ready s) (waiting s)
      else if ctl s = Scheduling 2 then tot (lock_owner s) (others s) (running s # waiting s)
      else tot (lock_owner s) (live s) (waiting s))"

fun weight :: "control \<Rightarrow> nat" where
  "weight (Running l) = 1"
| "weight (Yielding l) = 3"
| "weight (Scheduling v) = 2"
| "weight Finished = 0"
| "weight Crashed = 0"

definition threads_work :: "tsys \<Rightarrow> nat" where
  "threads_work s = 3 * (4 * todo_total s + weight (ctl s)) +
     (if pend_tstp s then 0 else 1) + (if pend_alrm s then 0 else 1)"

lemma tot_Cons [simp]: "tot owner (t # rs) ws = todo owner t + tot owner rs ws"
  by (simp add: tot_def)

lemma tot_perm: "mset rs = mset rs' \<Longrightarrow> tot owner rs ws = tot owner rs' ws"
proof -
  assume "mset rs = mset rs'"
  then have "sum_list (map (todo owner) rs) = sum_list (map (todo owner) rs')"
    by (metis mset_map sum_mset_sum_list)
  then show ?thesis by (simp add: tot_def)
qed

text \<open>Who has the lock matters only for a thread that may get it.\<close>

lemma tot_owner:
  assumes "\<forall>t\<in>set rs. tid t \<noteq> o1 \<and> tid t \<noteq> o2"
  shows "tot o1 rs ws = tot o2 rs ws"
proof -
  have "map (todo o1) rs = map (todo o2) rs"
    using assms by (auto simp: todo.simps split: place.splits func.splits)
  then show ?thesis by (metis tot_def)
qed

section \<open>The threads\<close>

lemma iteration_work:
  assumes c: "rq_current s < length (ready s)" and ctl: "ctl s = Running k"
    and t: "environment (t1\<lparr>environment := l\<rparr>) = Fib_next \<or> environment (t1\<lparr>environment := l\<rparr>) = Fact_next"
    and i: "ti t1 \<le> targ t1" and todo: "todo (lock_owner s) (running s) = nat (targ t1 - ti t1) + 1"
  shows "todo_total (end_iteration l t1 s) < todo_total s"
  using c ctl t i todo
  by (auto simp: todo_total_def live_def end_iteration_def Let_def todo.simps)

lemma bank_work:
  assumes core: "core cfg (running s # others s) s" and ctl: "ctl s = Running l"
    and env: "environment (running s) = l" "func_of l = Bank_operation"
  shows "todo_total (thread_run l s) < todo_total s"
proof -
  have c: "rq_current s < length (ready s)" using core by (simp add: core_def)
  obtain ops where bank: "bank_ok cfg (running s # others s) (waiting s) ops s"
    using core by (auto simp: core_def)
  note tids = bank_tids [OF core]
  have now: "todo_total s = todo (lock_owner s) (running s) + tot (lock_owner s) (others s) (waiting s)"
    using ctl by (simp add: todo_total_def live_def)
  consider (s1) "l = Setup Bank_operation" | (s2) "l = Bank_step2" | (s3) "l = Bank_step3"
    using env(2) by (cases l) auto
  then show ?thesis
  proof cases
    case s1
    show ?thesis
    proof (cases "lock_ok s")
      case True
      then have "\<forall>t\<in>set (others s). tid t \<noteq> lock_owner s \<and> tid t \<noteq> tid (running s)"
        using tids by (force simp: lock_ok_def)
      then have "tot (lock_owner s) (others s) (waiting s) = tot (tid (running s)) (others s) (waiting s)"
        by (rule tot_owner)
      with True s1 env c now show ?thesis
        by (simp add: todo_total_def live_def bank_step1_def todo.simps)
    next
      case False
      with s1 env c now show ?thesis
        by (simp add: todo_total_def bank_step1_def todo.simps lock_ok_def) (simp add: tot_def)
    qed
  next
    case s2
    then have "todo_total (bank_step2 s) = Suc (tot (lock_owner s) (others s) (waiting s))"
      using c by (simp add: todo_total_def live_def bank_step2_def Let_def todo.simps)
    with s2 env now show ?thesis by (simp add: todo.simps)
  next
    case s3
    then have own: "lock_owner s = tid (running s)" using bank env by (auto simp: bank_ok_def in_bank_def)
    have "\<forall>t\<in>set (others s). tid t \<noteq> lock_owner s \<and> tid t \<noteq> -1"
      using tids own by fastforce
    then have "tot (lock_owner s) (others s) (waiting s) = tot (-1) (others s) (waiting s)"
      by (rule tot_owner)
    with s3 env now own show ?thesis
      by (simp add: todo_total_def live_def bank_step3_def bank_unlock_def todo.simps)
  qed
qed

lemma run_work:
  assumes act: "active cfg s" and ctl: "ctl s = Running l"
  shows "todo_total (thread_run l s) < todo_total s"
proof -
  have core: "core cfg (running s # others s) s" and env: "environment (running s) = l"
    using assms by (auto simp: active_core live_def ctl_ok_def)
  have c: "rq_current s < length (ready s)" using core by (simp add: core_def)
  have ok: "tcb_ok cfg (lines s) (running s)" using core by (simp add: core_def pool_ok_def)
  have suc: "wrap32 (ti (running s) + 1) = ti (running s) + 1" if "1 \<le> ti (running s)"
      "ti (running s) < targ (running s)" "int32 (targ (running s))"
    using that by (intro wrap32_id) (auto simp: int32_def)
  show ?thesis
  proof (cases "func_of l = Bank_operation")
    case True
    then show ?thesis using bank_work [OF core ctl env] by simp
  next
    case False
    then consider "l = Setup Fibonacci" | "l = Setup Factorial" | "l = Fib_next" | "l = Fact_next"
      by (cases l rule: func_of.cases) (auto, metis func.exhaust)
    then show ?thesis
      using ok env suc
      by cases (auto simp: fib_body_iteration [OF c] fact_body_iteration [OF c] tcb_ok_def todo.simps
          intro!: iteration_work [OF c ctl])
  qed
qed

section \<open>The scheduler\<close>

lemma resume_total:
  assumes c: "rq_current s < length (ready s)"
  shows "todo_total (resume s) = tot (lock_owner s) (ready s) (waiting s)" "ctl (resume s) = Running (environment (running s))"
  using c tot_perm [OF mset_ready [OF c]] by (simp_all add: resume_def todo_total_def live_def)

lemma give_lock_total:
  assumes core: "core cfg rs s"
  shows "\<exists>new. ready (give_lock s) = ready s @ new \<and> rq_current (give_lock s) = rq_current s \<and>
    tot (lock_owner (give_lock s)) (rs @ new) (waiting (give_lock s)) = tot (lock_owner s) rs (waiting s)"
proof (cases "lock_owner s = -1 \<and> waiting s \<noteq> []")
  case True
  then obtain w ws where w: "waiting s = w # ws" by (cases "waiting s") auto
  have tids: "\<forall>t\<in>set rs. 0 \<le> tid t \<and> tid t \<noteq> tid w" "environment w = Setup Bank_operation"
  proof -
    have pool: "pool_ok cfg (rs @ w # ws) (lines s)" using core w by (simp add: core_def)
    then have "tid w \<notin> tid ` set rs" by (simp add: pool_ok_def)
    then have "tid t \<noteq> tid w" if "t \<in> set rs" for t using that by (metis image_eqI)
    moreover have "0 \<le> tid t" if "t \<in> set rs" for t using pool that by (simp add: pool_ok_def tcb_ok_def)
    ultimately show "\<forall>t\<in>set rs. 0 \<le> tid t \<and> tid t \<noteq> tid w" by blast
    show "environment w = Setup Bank_operation" using core w by (auto simp: core_def bank_ok_def)
  qed
  then have "tot (-1) rs ws = tot (tid w) rs ws" by (intro tot_owner) auto
  then have "tot (tid w) (rs @ [w]) ws = tot (-1) rs (w # ws)"
    using tids(2) by (simp add: tot_def todo.simps)
  with True w show ?thesis by (intro exI [of _ "[w]"]) (simp add: give_lock_def)
next
  case False
  then show ?thesis by (intro exI [of _ "[]"]) (auto simp: give_lock_def)
qed

lemma drop_total:
  assumes "core cfg (others s) s" "ready (drop_running s) \<noteq> []"
  shows "todo_total (resume ((drop_running s)\<lparr>rq_current :=
      (if rq_current s = length (ready (drop_running s)) then 0 else rq_current s)\<rparr>)) =
    tot (lock_owner s) (others s) (waiting s)" (is "todo_total (resume ?s) = _")
proof -
  have c: "rq_current s < length (ready s)" using assms(1) by (simp add: core_def)
  have "0 < length (ready (drop_running s))" by (rule length_greater_0_conv [THEN iffD2, OF assms(2)])
  with c have "rq_current ?s < length (ready ?s)" by auto
  from resume_total(1) [OF this] tot_perm [OF mset_drop_running [OF c]] show ?thesis by simp
qed

lemma scheduler_total:
  assumes act: "active cfg s" and ctl: "ctl s = Scheduling v"
  shows "todo_total (scheduler v s) \<le> todo_total s \<and> weight (ctl (scheduler v s)) < 2"
proof -
  have v: "v = 1 \<or> v = 2 \<or> v = 3" using act ctl by (auto simp: active_core ctl_ok_def)
  have c: "rq_current s < length (ready s)" using act by (simp add: active_def)
  have ne: "ready s \<noteq> []" using c by auto
  from v consider (switch) "v = 1" | (wait) "v = 2" | (exit) "v = 3" by blast
  then show ?thesis
  proof cases
    case switch
    let ?s = "s\<lparr>rq_current := (rq_current s + 1) mod length (ready s)\<rparr>"
    have "0 < length (ready s)" using c by linarith
    then have c': "rq_current ?s < length (ready ?s)" by simp
    have "scheduler 1 s = resume ?s" using scheduler_switch(2) [OF act] ctl switch by simp
    with resume_total [OF c'] switch ctl show ?thesis
      using tot_perm [OF mset_ready [OF c], of "lock_owner s" "waiting s"]
      by (simp add: todo_total_def live_def)
  next
    case wait
    let ?s = "s\<lparr>waiting := waiting s @ [running s]\<rparr>"
    have v2: "ctl s = Scheduling 2" using ctl wait by simp
    note w = scheduler_wait_core [OF act v2]
    have "todo_total (scheduler 2 s) = tot (lock_owner ?s) (others ?s) (waiting ?s)"
      unfolding w(4) by (rule drop_total [OF w(1,3)])
    also have "\<dots> = todo_total s" by (simp add: others_def tot_def todo_total_def v2)
    finally show ?thesis using wait w(4) by (simp add: resume_def)
  next
    case exit
    let ?s = "give_lock s"
    have v3: "ctl s = Scheduling 3" using ctl exit by simp
    note x = scheduler_exit_core [OF act]
    have core: "core cfg (others s) s" using act ctl exit by (simp add: active_core live_def)
    obtain new where new: "ready ?s = ready s @ new" "rq_current ?s = rq_current s"
      "tot (lock_owner ?s) (others s @ new) (waiting ?s) = tot (lock_owner s) (others s) (waiting s)"
      using give_lock_total [OF core] by blast
    then have "others ?s = others s @ new" using c by (simp add: others_def)
    with new(3) have same: "tot (lock_owner ?s) (others ?s) (waiting ?s) = todo_total s"
      using ctl exit by (simp add: todo_total_def live_def)
    show ?thesis
    proof (cases "ready (drop_running ?s) = []")
      case True
      with x(3) [OF v3 True] exit show ?thesis by (simp add: todo_total_def)
    next
      case False
      have "todo_total (scheduler 3 s) = todo_total s"
        unfolding x(4) [OF v3 False] drop_total [OF x(1) [OF v3] False] by (rule same)
      then show ?thesis using exit x(4) [OF v3 False] by (simp add: resume_def)
    qed
  qed
qed

section \<open>Every step decreases the measure\<close>

lemma thread_run_signals:
  "pend_tstp (thread_run l s) = pend_tstp s \<and> pend_alrm (thread_run l s) = pend_alrm s \<and>
   weight (ctl (thread_run l s)) \<le> 3"
  by (cases "(l, s)" rule: thread_run.cases)
    (auto simp: fib_body_def fact_body_def bank_step1_def bank_step2_def bank_step3_def bank_unlock_def
      set_i_def thread_yield_def thread_exit_def put_running_def print_line_def Let_def)

lemma yield_total:
  assumes "rq_current s < length (ready s)" "ctl s = Yielding l"
  shows "todo_total (yield_windows l s) = todo_total s"
  using assms by (simp add: yield_windows_eq sighandler_def todo_total_def live_def)

lemma program_step_work:
  assumes inv: "threads_inv cfg s" and step: "program_step s = Some s'"
  shows "threads_work s' < threads_work s"
proof -
  consider (init) "initial cfg s" | (act) "active cfg s"
    using assms by (auto simp: threads_inv_def final_def program_step.simps)
  then show ?thesis
  proof cases
    case init
    then have ctl: "ctl s = Scheduling 0" and s': "s' = scheduler 0 s"
      using step by (simp_all add: initial_def program_step.simps)
    show ?thesis
    proof (cases "ready s = []")
      case True
      with init s' ctl show ?thesis by (simp add: scheduler_def initial_def threads_work_def todo_total_def)
    next
      case False
      then have "s' = resume (s\<lparr>rq_current := 0\<rparr>)" using s' by (simp add: scheduler_def)
      moreover have "rq_current (s\<lparr>rq_current := 0\<rparr>) < length (ready (s\<lparr>rq_current := 0\<rparr>))" using False by simp
      ultimately show ?thesis
        using resume_total [of "s\<lparr>rq_current := 0\<rparr>"] ctl
        by (auto simp: threads_work_def todo_total_def [of s] resume_def)
    qed
  next
    case act
    show ?thesis
    proof (cases "ctl s")
      case (Running l)
      then have "s' = thread_run l s" using step by (simp add: program_step.simps)
      moreover have "pend_tstp (thread_run l s) = pend_tstp s \<and> pend_alrm (thread_run l s) = pend_alrm s \<and>
          weight (ctl (thread_run l s)) \<le> 3"
        by (rule thread_run_signals)
      ultimately show ?thesis using run_work [OF act Running] Running by (simp add: threads_work_def)
    next
      case (Yielding l)
      then have s': "s' = yield_windows l s" using step by (simp add: program_step.simps)
      have "todo_total s' = todo_total s" using yield_total act Yielding s' by (simp add: active_def)
      then show ?thesis using Yielding
        by (auto simp: threads_work_def s' yield_windows_eq sighandler_def)
    next
      case (Scheduling v)
      then have s': "s' = scheduler v s" using step by (simp add: program_step.simps)
      moreover have "pend_tstp (scheduler v s) = pend_tstp s \<and> pend_alrm (scheduler v s) = pend_alrm s"
        by (simp add: scheduler_def Let_def give_lock_def drop_running_def resume_def)
      ultimately show ?thesis
        using scheduler_total [OF act Scheduling] Scheduling by (simp add: threads_work_def)
    next
      case Finished
      with step show ?thesis by (simp add: program_step.simps)
    next
      case Crashed
      with step show ?thesis by (simp add: program_step.simps)
    qed
  qed
qed

lemma signal_total:
  "todo_total (s\<lparr>pend_tstp := a\<rparr>) = todo_total s" "todo_total (s\<lparr>pend_alrm := b\<rparr>) = todo_total s"
  by (simp_all add: todo_total_def live_def)

lemma thread_step_work: "thread_step s s' \<Longrightarrow> threads_inv cfg s \<Longrightarrow> threads_work s' < threads_work s"
  by (erule thread_step.cases) (auto simp: threads_work_def signal_total dest: program_step_work)

end
