(* ===== verification/Threads_Theorems.thy ===== *)
theory Threads_Theorems
  imports Threads_Termination
begin

text \<open>
  The start of the threads program (\<open>main.c\<close> of \<open>HW3\<close>), its invariant and termination for every
  sequence of signals, and the properties that follow: what the threads print, the bank as a
  sequence of undivided operations, the lock and the queues.
\<close>

section \<open>The start\<close>

definition threads_cfg :: "int \<Rightarrow> int \<Rightarrow> int \<Rightarrow> int \<Rightarrow> config" where
  "threads_cfg f g b1 b2 i =
     (if i = 0 \<and> f > 0 then Some (Fibonacci, f)
      else if i = 1 \<and> g > 0 then Some (Factorial, g)
      else if i = 2 \<and> b1 \<noteq> 0 then Some (Bank_operation, b1)
      else if i = 3 \<and> b2 \<noteq> 0 then Some (Bank_operation, b2)
      else None)"

text \<open>The program has been called with the arguments \<open>a2\<close> to \<open>a5\<close> (after the time slice).\<close>

definition threads_start :: "string \<Rightarrow> string \<Rightarrow> string \<Rightarrow> string \<Rightarrow> tsys \<Rightarrow> bool" where
  "threads_start a2 a3 a4 a5 s \<longleftrightarrow> (\<exists>junk. s = threads_main junk a2 a3 a4 a5)"

abbreviation args_cfg :: "string \<Rightarrow> string \<Rightarrow> string \<Rightarrow> string \<Rightarrow> config" where
  "args_cfg a2 a3 a4 a5 \<equiv> threads_cfg (atoi a2) (atoi a3) (atoi a4) (atoi a5)"

lemma int32_atoi [simp]: "int32 (atoi a)"
  by (simp add: atoi_def)

lemma initial_threads:
  assumes "int32 f" "int32 g"
  shows "initial (threads_cfg f g b1 b2) (init_threads junk f g b1 b2 (init_bank zero_tsys))"
proof -
  define s where "s = init_threads junk f g b1 b2 (init_bank zero_tsys)"
  define mk where "mk = (\<lambda>i fn a. \<lparr>tid = i, environment = Setup fn, targ = a,
      ti = fst (junk i), tx = fst (snd (junk i)), ty = snd (snd (junk i))\<rparr>)"
  define ts where "ts = (if f > 0 then [(0 :: int, Fibonacci, f)] else []) @ (if g > 0 then [(1, Factorial, g)] else []) @
    (if b1 \<noteq> 0 then [(2, Bank_operation, b1)] else []) @ (if b2 \<noteq> 0 then [(3, Bank_operation, b2)] else [])"
  have s: "ready s = map (\<lambda>(i, fn, a). mk i fn a) ts" "lines s = map (\<lambda>(i, fn, a). Created i fn) ts"
    "ctl s = Scheduling 0" "waiting s = []" "lock_owner s = -1" "balance s = 500"
    by (simp_all add: s_def ts_def mk_def init_threads_def init_bank_def zero_tsys_def thread_setup_def
        print_line_def Let_def)
  have shown: "shown i (lines s) = []" for i
    unfolding s(2) shown_def by (auto simp: concat_eq_Nil_conv)
  have bank: "bank_lines (lines s) = []" unfolding s(2) bank_lines_def by (auto simp: filter_empty_conv)
  have mem: "(i, fn, a) \<in> set ts \<longleftrightarrow> threads_cfg f g b1 b2 i = Some (fn, a)" for i fn a
    by (auto simp: ts_def threads_cfg_def)
  have dist: "distinct (map fst ts)" by (simp add: ts_def)
  have tids: "map tid (ready s) = map fst ts" unfolding s(1) by (auto simp: mk_def)
  have pool: "pool_ok (threads_cfg f g b1 b2) (ready s) (lines s)"
    unfolding pool_ok_def
  proof (intro conjI ballI allI impI)
    show "distinct (map tid (ready s))" using dist tids by simp
    show "tcb_ok (threads_cfg f g b1 b2) (lines s) t" if t: "t \<in> set (ready s)" for t
    proof -
      obtain i fn a where "t = mk i fn a" "(i, fn, a) \<in> set ts" using t s(1) by auto
      then show ?thesis using assms shown
        by (auto simp: tcb_ok_def mk_def ts_def threads_cfg_def split: if_splits)
    qed
    show "complete (threads_cfg f g b1 b2) (lines s) i" if "i \<notin> tid ` set (ready s)" for i
    proof -
      have "i \<notin> fst ` set ts" using that tids by (metis list.set_map)
      then have "threads_cfg f g b1 b2 i = None"
        using mem [of i] by (cases "threads_cfg f g b1 b2 i") force+
      then show ?thesis by (simp add: complete_def)
    qed
  qed
  have "i \<in> tid ` set (ready s)" if "threads_cfg f g b1 b2 i = Some (Bank_operation, a)" for i a
  proof -
    have "i \<in> fst ` set ts" using that mem by force
    then show ?thesis using tids by (metis list.set_map)
  qed
  then have "bank_ok (threads_cfg f g b1 b2) (ready s) [] [] s"
    using s bank by (auto simp: bank_ok_def in_bank_def mk_def)
  with pool s show ?thesis unfolding s_def [symmetric] by (auto simp: initial_def mk_def)
qed

lemma start_inv: "threads_start a2 a3 a4 a5 s \<Longrightarrow> threads_inv (args_cfg a2 a3 a4 a5) s"
  using initial_threads by (auto simp: threads_start_def threads_main_def threads_inv_def)

interpretation threads: terminating_system "threads_start a2 a3 a4 a5" thread_step
    "threads_inv (args_cfg a2 a3 a4 a5)" threads_work for a2 a3 a4 a5
  by unfold_locales (auto intro: start_inv thread_step_inv thread_step_work)

section \<open>What the invariant says\<close>

lemma bank_pairs:
  "{x. fst x = i \<and> a \<noteq> 0 \<and> snd x = a \<or> fst x = j \<and> b \<noteq> 0 \<and> snd x = b} =
   (if a \<noteq> (0 :: int) then {(i, a)} else {}) \<union> (if b \<noteq> 0 then {(j, b)} else {})"
  by (cases "a = 0"; cases "b = 0") (auto simp: prod_eq_iff)

lemma threads_cfg_bank:
  "threads_cfg f g b1 b2 i = Some (Bank_operation, a) \<longleftrightarrow> i = 2 \<and> b1 \<noteq> 0 \<and> a = b1 \<or> i = 3 \<and> b2 \<noteq> 0 \<and> a = b2"
  by (auto simp: threads_cfg_def)

lemma reachable_cases:
  assumes "threads_start a2 a3 a4 a5 s" "thread_step\<^sup>*\<^sup>* s t"
  shows "initial (args_cfg a2 a3 a4 a5) t \<or> active (args_cfg a2 a3 a4 a5) t \<or> final (args_cfg a2 a3 a4 a5) t"
  using threads.reachable_inv [OF assms] by (simp add: threads_inv_def)

lemma finished_final:
  assumes "threads_start a2 a3 a4 a5 s" "thread_step\<^sup>*\<^sup>* s t" "ctl t = Finished"
  shows "final (args_cfg a2 a3 a4 a5) t"
  using reachable_cases [OF assms(1,2)] assms(3) by (auto simp: initial_def active_def ctl_ok_def)

lemma fibo_pos: "0 \<le> fibo n"
  by (induction n rule: fibo.induct) auto

lemma fibo_mono: "fibo n \<le> fibo (Suc n)"
  by (cases n rule: fibo.cases) (auto simp: fibo_pos)

lemma fibo_le: "m \<le> n \<Longrightarrow> fibo m \<le> fibo n"
  by (rule lift_Suc_mono_le [of fibo]) (rule fibo_mono)

fun fibo_iter :: "nat \<Rightarrow> int \<times> int" where
  "fibo_iter 0 = (0, 1)"
| "fibo_iter (Suc n) = (let (a, b) = fibo_iter n in (b, a + b))"

lemma fibo_iter: "fibo_iter n = (fibo n, fibo (Suc n))"
  by (induction n) auto

lemma fibo_46: "fibo 46 = 1836311903"
proof -
  have "fst (fibo_iter 46) = 1836311903" by code_simp
  then show ?thesis by (simp add: fibo_iter)
qed

lemma fib_list_exact: "n \<le> 46 \<Longrightarrow> fib_list n = map fibo [1..<Suc n]"
proof -
  assume n: "n \<le> 46"
  have "wrap32 (fibo k) = fibo k" if "k \<le> n" for k
    using fibo_le [of k 46] fibo_pos [of k] fibo_46 that n by (intro wrap32_ge) auto
  then show ?thesis by (auto simp: fib_list_def)
qed

lemma fact_12: "(fact 12 :: int) = 479001600"
  by (simp add: fact_numeral)

lemma fact_list_exact: "n \<le> 12 \<Longrightarrow> fact_list n = map fact [1..<Suc n]"
proof -
  assume n: "n \<le> 12"
  have "wrap32 (fact k) = fact k" if "k \<le> n" for k
    using fact_mono [of k 12, where 'a = int] fact_12 that n by (intro wrap32_ge) auto
  then show ?thesis by (auto simp: fact_list_def)
qed

section \<open>Properties\<close>

text \<open>C23: every execution ends, whatever signals arrive and when: no execution has more steps than
  the measure of the first state, no state on the way is stuck or has lost its running thread, and
  a state that is not final can go on.\<close>

theorem threads_terminate:
  assumes "threads_start a2 a3 a4 a5 s" "(thread_step ^^ n) s t"
  shows "n \<le> threads_work s \<and> ctl t \<noteq> Crashed \<and> (ctl t = Finished \<or> (\<exists>u. program_step t = Some u)) \<and>
    (\<exists>u. thread_step\<^sup>*\<^sup>* t u \<and> ctl u = Finished)"
proof (intro conjI)
  show "n \<le> threads_work s" by (rule threads.bounded_executions [OF assms])
  have reach: "thread_step\<^sup>*\<^sup>* s t" using assms(2) by (rule relpowp_imp_rtranclp)
  have ok: "ctl u \<noteq> Crashed \<and> (ctl u = Finished \<or> (\<exists>v. program_step u = Some v))" if "thread_step\<^sup>*\<^sup>* s u" for u
    using reachable_cases [OF assms(1) that]
    by (auto simp: initial_def active_def final_def ctl_ok_def program_step.simps split: control.splits)
  from ok [OF reach] show "ctl t \<noteq> Crashed" "ctl t = Finished \<or> (\<exists>u. program_step t = Some u)" by auto
  obtain u where u: "thread_step\<^sup>*\<^sup>* t u" "\<not> (\<exists>v. thread_step u v)"
    using threads.reaches_final [OF threads.reachable_inv [OF assms(1) reach]] by blast
  then have "ctl u = Finished" using ok [of u] reach by (meson program rtranclp_trans)
  with u(1) show "\<exists>u. thread_step\<^sup>*\<^sup>* t u \<and> ctl u = Finished" by blast
qed

definition demo_start :: tsys where
  "demo_start = threads_main (\<lambda>i. (i, 7, -3)) ''5'' ''4'' ''100'' ''-700''"

lemma demo_start_ok: "threads_start ''5'' ''4'' ''100'' ''-700'' demo_start"
  by (auto simp: threads_start_def demo_start_def)

theorem threads_terminate_witness: "\<exists>u. thread_step\<^sup>*\<^sup>* demo_start u \<and> ctl u = Finished"
  using threads_terminate [OF demo_start_ok, of 0 demo_start] by simp

text \<open>A run of the program without signals, to have a final state to look at.\<close>

fun run_program :: "nat \<Rightarrow> tsys \<Rightarrow> tsys" where
  "run_program 0 s = s"
| "run_program (Suc n) s = (case program_step s of None \<Rightarrow> s | Some s' \<Rightarrow> run_program n s')"

lemma run_program_reach: "thread_step\<^sup>*\<^sup>* s (run_program n s)"
proof (induction n s rule: run_program.induct)
  case (2 n s)
  then show ?case
    by (auto split: option.splits intro: converse_rtranclp_into_rtranclp thread_step.program)
qed simp

lemma demo_finished: "ctl (run_program 100 demo_start) = Finished"
  by code_simp

text \<open>C26: the \<open>fibonacci\<close> thread prints the first \<open>n\<close> Fibonacci numbers in order, when the argument
  is \<open>n\<close> and the values fit an \<open>int\<close>, in every execution, however often it is interrupted.\<close>

theorem fibonacci_prints:
  assumes "threads_start a2 a3 a4 a5 s" "thread_step\<^sup>*\<^sup>* s t" "ctl t = Finished"
    and "atoi a2 = int n" "1 \<le> n" "n \<le> 46"
  shows "shown 0 (lines t) = map fibo [1..<Suc n]"
proof -
  have "complete (args_cfg a2 a3 a4 a5) (lines t) 0"
    using finished_final [OF assms(1-3)] by (simp add: final_def pool_ok_def)
  then show ?thesis
    using assms(4-6) fib_list_exact [of n] by (simp add: complete_def threads_cfg_def)
qed

lemma demo_args: "atoi ''5'' = int 5" "atoi ''4'' = int 4" "atoi ''100'' = 100" "atoi ''-700'' = -700"
  by code_simp+

theorem fibonacci_prints_witness: "shown 0 (lines (run_program 100 demo_start)) = [1, 1, 2, 3, 5]"
proof -
  have "map fibo [1..<Suc 5] = [1, 1, 2, 3, 5]" by code_simp
  then show ?thesis
    using fibonacci_prints [OF demo_start_ok run_program_reach demo_finished demo_args(1)] by simp
qed

text \<open>C27: the \<open>factorial\<close> thread prints \<open>1!\<close> to \<open>n!\<close> in order, as long as the values fit an \<open>int\<close>.\<close>

theorem factorial_prints:
  assumes "threads_start a2 a3 a4 a5 s" "thread_step\<^sup>*\<^sup>* s t" "ctl t = Finished"
    and "atoi a3 = int n" "1 \<le> n" "n \<le> 12"
  shows "shown 1 (lines t) = map fact [1..<Suc n]"
proof -
  have "complete (args_cfg a2 a3 a4 a5) (lines t) 1"
    using finished_final [OF assms(1-3)] by (simp add: final_def pool_ok_def)
  then show ?thesis
    using assms(4-6) fact_list_exact [of n] by (simp add: complete_def threads_cfg_def)
qed

theorem factorial_prints_witness: "shown 1 (lines (run_program 100 demo_start)) = [1, 2, 6, 24]"
proof -
  have "map fact [1..<Suc 4] = [1, 2, 6, 24 :: int]" by code_simp
  then show ?thesis
    using factorial_prints [OF demo_start_ok run_program_reach demo_finished demo_args(2)] by simp
qed

text \<open>C24: when the program ends, the bank lines are those of a sequence of undivided operations, each
  of the two configured operations once: the operations never overlap, and the balance is the one
  the sequence gives.\<close>

theorem bank_operations_serial:
  assumes "threads_start a2 a3 a4 a5 s" "thread_step\<^sup>*\<^sup>* s t" "ctl t = Finished"
  shows "\<exists>ops. distinct ops \<and>
    set ops = (if atoi a4 \<noteq> 0 then {(2, atoi a4)} else {}) \<union> (if atoi a5 \<noteq> 0 then {(3, atoi a5)} else {}) \<and>
    bank_lines (lines t) = journal 500 ops \<and> balance t = ledger 500 ops"
proof -
  obtain ops where ops: "bank_ok (args_cfg a2 a3 a4 a5) [] [] ops t"
    using finished_final [OF assms] by (auto simp: final_def)
  then have "distinct ops" by (simp add: bank_ok_def distinct_map)
  moreover have "bank_lines (lines t) = journal 500 ops \<and> balance t = ledger 500 ops"
    using ops by (auto simp: bank_ok_def split: if_splits)
  moreover have "(i, a) \<in> set ops \<longleftrightarrow> args_cfg a2 a3 a4 a5 i = Some (Bank_operation, a)" for i a
  proof
    show "args_cfg a2 a3 a4 a5 i = Some (Bank_operation, a)" if "(i, a) \<in> set ops"
      using ops that by (auto simp: bank_ok_def)
    show "(i, a) \<in> set ops" if cfg: "args_cfg a2 a3 a4 a5 i = Some (Bank_operation, a)"
    proof -
      have "i \<in> fst ` set ops" using ops cfg by (simp add: bank_ok_def)
      then obtain a' where "(i, a') \<in> set ops" by auto
      moreover from this have "args_cfg a2 a3 a4 a5 i = Some (Bank_operation, a')"
        using ops by (auto simp: bank_ok_def)
      ultimately show ?thesis using cfg by simp
    qed
  qed
  then have "x \<in> set ops \<longleftrightarrow> args_cfg a2 a3 a4 a5 (fst x) = Some (Bank_operation, snd x)" for x
    by (cases x) simp
  then have "set ops = {x. fst x = 2 \<and> atoi a4 \<noteq> 0 \<and> snd x = atoi a4 \<or> fst x = 3 \<and> atoi a5 \<noteq> 0 \<and> snd x = atoi a5}"
    unfolding threads_cfg_bank by blast
  then have "set ops = (if atoi a4 \<noteq> 0 then {(2, atoi a4)} else {}) \<union> (if atoi a5 \<noteq> 0 then {(3, atoi a5)} else {})"
    by (rule trans [OF _ bank_pairs])
  ultimately show ?thesis by blast
qed

theorem bank_operations_serial_witness:
  "\<exists>ops. set ops = {(2, 100), (3, -700)} \<and>
     bank_lines (lines (run_program 100 demo_start)) = journal 500 ops"
  using bank_operations_serial [OF demo_start_ok run_program_reach demo_finished] demo_args(3,4)
  by (auto simp: insert_commute)

text \<open>The threads of a configuration have the ids 0 to 3.\<close>

lemma active_size:
  assumes "active (threads_cfg f g b1 b2) t"
  shows "length (ready t) + length (waiting t) \<le> 5"
proof -
  let ?p = "live t @ waiting t"
  have pool: "pool_ok (threads_cfg f g b1 b2) ?p (lines t)" using assms by (simp add: active_def)
  have c: "rq_current t < length (ready t)" using assms by (simp add: active_def)
  have "threads_cfg f g b1 b2 (tid u) \<noteq> None" if "u \<in> set ?p" for u
    using pool that unfolding pool_ok_def tcb_ok_def by blast
  moreover have "i \<in> {0, 1, 2, 3}" if "threads_cfg f g b1 b2 i \<noteq> None" for i
    using that by (simp add: threads_cfg_def split: if_splits)
  ultimately have "set (map tid ?p) \<subseteq> {0, 1, 2, 3}" by (metis (no_types, lifting) image_subsetI list.set_map)
  then have "card (set (map tid ?p)) \<le> card {0, 1, 2, 3 :: int}" by (intro card_mono) auto
  moreover have "card (set (map tid ?p)) = length ?p"
    using pool distinct_card [of "map tid ?p"] by (simp only: pool_ok_def length_map)
  ultimately have "length ?p \<le> 4" by simp
  moreover have "length (ready t) = Suc (length (others t))"
    using mset_ready [OF c] by (metis length_Cons size_mset)
  ultimately show ?thesis by (simp add: live_def split: if_splits)
qed

text \<open>C25: mutual exclusion. In every reachable state only the owner of the lock is between acquiring and
  releasing it, threads wait only for a lock that somebody has (or has just released on its exit), and
  the owner can run. The running thread is always a valid entry of the ready queue, and the two
  queues never outgrow their arrays.\<close>

theorem bank_lock_exclusive:
  assumes "threads_start a2 a3 a4 a5 s" "thread_step\<^sup>*\<^sup>* s t" "ctl t \<noteq> Finished" "ctl t \<noteq> Scheduling 0"
  shows "(\<forall>u\<in>set (live t @ waiting t). in_bank (environment u) \<longrightarrow> tid u = lock_owner t) \<and>
    distinct (map tid (live t @ waiting t)) \<and>
    (lock_owner t \<noteq> -1 \<longrightarrow> lock_owner t \<in> tid ` set (live t)) \<and>
    (waiting t \<noteq> [] \<longrightarrow> lock_owner t \<noteq> -1 \<or> ctl t = Scheduling 3) \<and>
    rq_current t < length (ready t) \<and> length (ready t) + length (waiting t) < THREAD_MAX"
proof -
  have act: "active (args_cfg a2 a3 a4 a5) t"
    using reachable_cases [OF assms(1,2)] assms(3,4) by (auto simp: initial_def final_def)
  then obtain ops where bank: "bank_ok (args_cfg a2 a3 a4 a5) (live t) (waiting t) ops t"
    by (auto simp: active_def)
  have "\<forall>u\<in>set (live t @ waiting t). in_bank (environment u) \<longrightarrow> tid u = lock_owner t"
    using bank by (auto simp: bank_ok_def in_bank_def)
  moreover have "lock_owner t \<noteq> -1 \<longrightarrow> lock_owner t \<in> tid ` set (live t)"
    using bank unfolding bank_ok_def by (metis image_eqI)
  ultimately show ?thesis
    using act active_size [OF act] unfolding active_def pool_ok_def by (simp add: THREAD_MAX_def)
qed

lemma demo_running: "ctl (run_program 4 demo_start) \<noteq> Finished" "ctl (run_program 4 demo_start) \<noteq> Scheduling 0"
  by code_simp+

theorem bank_lock_exclusive_witness:
  "rq_current (run_program 4 demo_start) < length (ready (run_program 4 demo_start))"
  using bank_lock_exclusive [OF demo_start_ok run_program_reach demo_running] by simp

text \<open>One operation, and a sequence of them, when neither the negation of an argument nor the sum of all deposits
  leaves the range of \<open>int\<close>.\<close>

lemma bank_op_bounds:
  assumes "- 2147483648 < a" "0 \<le> b" "b + max 0 a < 2147483648"
  shows "0 \<le> bank_op b a \<and> bank_op b a \<le> b + max 0 a"
proof -
  have "wrap32 (- a) = - a" if "a \<le> 0" using assms(1) that by (intro wrap32_id) (simp add: int32_def)
  moreover have "wrap32 (b + a) = b + a" using assms by (intro wrap32_id) (simp add: int32_def)
  ultimately show ?thesis using assms by (auto simp: bank_op_def)
qed

definition deposits :: "(int \<times> int) list \<Rightarrow> int" where
  "deposits ops = (\<Sum>(i, a)\<leftarrow>ops. max 0 a)"

lemma deposits_pos: "0 \<le> deposits ops"
  by (induction ops) (auto simp: deposits_def)

lemma ledger_bounds:
  "0 \<le> b \<Longrightarrow> \<forall>(i, a)\<in>set ops. - 2147483648 < a \<Longrightarrow> b + deposits ops < 2147483648 \<Longrightarrow>
   0 \<le> ledger b ops \<and> ledger b ops \<le> b + deposits ops"
proof (induction b ops rule: ledger.induct)
  case (2 b i a ops)
  have d: "deposits ((i, a) # ops) = max 0 a + deposits ops" by (simp add: deposits_def)
  have "0 \<le> bank_op b a \<and> bank_op b a \<le> b + max 0 a"
    using 2 d deposits_pos [of ops] by (intro bank_op_bounds) auto
  moreover from this have "0 \<le> ledger (bank_op b a) ops \<and> ledger (bank_op b a) ops \<le> bank_op b a + deposits ops"
    using 2 d by (intro "2.IH") auto
  ultimately show ?case unfolding d by auto
qed (simp add: deposits_def)

lemma bank_ok_balance:
  assumes "bank_ok cfg rs ws ops t" "\<forall>u\<in>set rs. cfg (tid u) = Some (func_of (environment u), targ u)"
  shows "\<exists>ops'. distinct (map fst ops') \<and> (\<forall>(i, a)\<in>set ops'. cfg i = Some (Bank_operation, a)) \<and>
    balance t = ledger 500 ops'"
proof (cases "lock_owner t = -1")
  case True
  with assms(1) show ?thesis by (auto simp: bank_ok_def intro!: exI [of _ ops])
next
  case False
  with assms(1) obtain u where u: "u \<in> set rs" "func_of (environment u) = Bank_operation"
    "balance t = snd (progress (ledger 500 ops) u)" by (auto simp: bank_ok_def)
  show ?thesis
  proof (cases "environment u = Bank_step3")
    case True
    let ?ops = "ops @ [(tid u, targ u)]"
    have "tid u \<notin> fst ` set ops" using assms(1) u(1) by (force simp: bank_ok_def)
    then have "distinct (map fst ?ops)" using assms(1) by (simp add: bank_ok_def)
    moreover have "\<forall>(i, a)\<in>set ?ops. cfg i = Some (Bank_operation, a)"
      using assms u(1,2) by (auto simp: bank_ok_def)
    moreover have "balance t = ledger 500 ?ops" using u(3) True by (simp add: progress_def)
    ultimately show ?thesis by blast
  next
    case False
    then have "balance t = ledger 500 ops" using u(3) by (simp add: progress_def split: place.splits)
    with assms(1) show ?thesis by (auto simp: bank_ok_def intro!: exI [of _ ops])
  qed
qed

lemma cfg_ops_deposits:
  assumes "distinct (map fst ops)" "\<forall>(i, a)\<in>set ops. threads_cfg f g b1 b2 i = Some (Bank_operation, a)"
  shows "deposits ops \<le> max 0 b1 + max 0 b2"
proof -
  have "deposits ops = (\<Sum>(i, a)\<in>set ops. max 0 a)"
    using assms(1) unfolding deposits_def by (intro sum_list_distinct_conv_sum_set) (simp add: distinct_map)
  also have "\<dots> \<le> (\<Sum>(i, a)\<in>{(2 :: int, b1), (3, b2)}. max 0 a)"
    using assms(2) by (intro sum_mono2) (auto simp: threads_cfg_def split: if_splits)
  finally show ?thesis by simp
qed

text \<open>C28: the balance is never negative and never overflows, at any time of any execution, when the deposits
  among the two arguments fit an \<open>int\<close> together with the initial 500 and neither argument is \<open>-2\<^sup>3\<^sup>1\<close>, which an
  \<open>int\<close> cannot hold negated. What happens otherwise is shown by \<open>large_deposit_overflows\<close> and
  \<open>largest_withdrawal_succeeds\<close>.\<close>

theorem balance_never_negative:
  assumes "threads_start a2 a3 a4 a5 s" "thread_step\<^sup>*\<^sup>* s t"
    and "- 2147483648 < atoi a4" "- 2147483648 < atoi a5"
    and "500 + max 0 (atoi a4) + max 0 (atoi a5) < 2147483648"
  shows "0 \<le> balance t \<and> balance t \<le> 500 + max 0 (atoi a4) + max 0 (atoi a5)"
proof -
  let ?cfg = "args_cfg a2 a3 a4 a5"
  have "\<exists>rs ws ops. bank_ok ?cfg rs ws ops t \<and> (\<forall>u\<in>set rs. ?cfg (tid u) = Some (func_of (environment u), targ u))"
    using reachable_cases [OF assms(1,2)]
  proof (elim disjE)
    assume "initial ?cfg t"
    then show ?thesis unfolding initial_def pool_ok_def tcb_ok_def by blast
  next
    assume "active ?cfg t"
    then show ?thesis unfolding active_def pool_ok_def tcb_ok_def by (metis Un_iff set_append)
  next
    assume "final ?cfg t"
    then show ?thesis unfolding final_def by (metis empty_iff list.set(1))
  qed
  then obtain ops where ops: "distinct (map fst ops)" "\<forall>(i, a)\<in>set ops. ?cfg i = Some (Bank_operation, a)"
    "balance t = ledger 500 ops" using bank_ok_balance by blast
  have "\<forall>(i, a)\<in>set ops. - 2147483648 < a" using ops(2) assms(3,4) by (auto simp: threads_cfg_def split: if_splits)
  then show ?thesis
    using ledger_bounds [of 500 ops] cfg_ops_deposits [OF ops(1,2)] assms(5) ops(3) by auto
qed

theorem balance_never_negative_witness:
  "0 \<le> balance (run_program 100 demo_start) \<and> balance (run_program 100 demo_start) \<le> 600"
  using balance_never_negative [OF demo_start_ok run_program_reach] demo_args(3,4) by simp

text \<open>Outside these bounds the balance does become negative: a deposit that does not fit wraps around, and the
  withdrawal of \<open>2\<^sup>3\<^sup>1\<close> is granted, because its negation wraps around.\<close>

lemma large_deposit_overflows:
  "\<exists>s t. threads_start ''0'' ''0'' ''2147483647'' ''0'' s \<and> thread_step\<^sup>*\<^sup>* s t \<and> ctl t = Finished \<and>
     balance t = - 2147483149"
proof -
  let ?s = "threads_main (\<lambda>_. (0, 0, 0)) ''0'' ''0'' ''2147483647'' ''0''"
  have "ctl (run_program 20 ?s) = Finished \<and> balance (run_program 20 ?s) = - 2147483149" by code_simp
  then show ?thesis using run_program_reach [of ?s 20] by (auto simp: threads_start_def)
qed

lemma largest_withdrawal_succeeds:
  "\<exists>s t. threads_start ''0'' ''0'' ''-2147483648'' ''0'' s \<and> thread_step\<^sup>*\<^sup>* s t \<and> ctl t = Finished \<and>
     balance t = 500 - 2147483648"
proof -
  let ?s = "threads_main (\<lambda>_. (0, 0, 0)) ''0'' ''0'' ''-2147483648'' ''0''"
  have "ctl (run_program 20 ?s) = Finished \<and> balance (run_program 20 ?s) = 500 - 2147483648" by code_simp
  then show ?thesis using run_program_reach [of ?s 20] by (auto simp: threads_start_def)
qed

text \<open>C29: round robin. A thread that is interrupted by a signal is followed by the next one in the
  ready queue, cyclically, and the queues, the lock and the balance are as before.\<close>

theorem scheduler_round_robin:
  assumes "threads_start a2 a3 a4 a5 s" "thread_step\<^sup>*\<^sup>* s t" "ctl t = Scheduling 1"
  shows "\<exists>u. program_step t = Some u \<and> rq_current u = (rq_current t + 1) mod length (ready t) \<and>
    ctl u = Running (environment (running u)) \<and> ready u = ready t \<and> waiting u = waiting t \<and>
    lock_owner u = lock_owner t \<and> balance u = balance t"
proof -
  have act: "active (args_cfg a2 a3 a4 a5) t"
    using reachable_cases [OF assms(1,2)] assms(3) by (auto simp: initial_def final_def)
  have "0 < length (ready t)" using act by (auto simp: active_def)
  moreover have "program_step t = Some (scheduler 1 t)" using assms(3) by (simp add: program_step.simps)
  ultimately show ?thesis
    unfolding scheduler_switch(2) [OF act assms(3)] by (simp add: resume_def)
qed

definition demo_interrupted :: tsys where
  "demo_interrupted = run_program 2 ((run_program 1 demo_start)\<lparr>pend_tstp := True\<rparr>)"

lemma demo_interrupted_ok: "thread_step\<^sup>*\<^sup>* demo_start demo_interrupted" "ctl demo_interrupted = Scheduling 1"
proof -
  have "ctl (run_program 1 demo_start) \<noteq> Finished" "\<not> pend_tstp (run_program 1 demo_start)" by code_simp+
  then have "thread_step (run_program 1 demo_start) ((run_program 1 demo_start)\<lparr>pend_tstp := True\<rparr>)"
    by (rule signal_tstp)
  then show "thread_step\<^sup>*\<^sup>* demo_start demo_interrupted"
    unfolding demo_interrupted_def by (meson run_program_reach rtranclp.rtrancl_into_rtrancl rtranclp_trans)
  show "ctl demo_interrupted = Scheduling 1" by code_simp
qed

theorem scheduler_round_robin_witness:
  "\<exists>u. program_step demo_interrupted = Some u \<and>
     rq_current u = (rq_current demo_interrupted + 1) mod length (ready demo_interrupted)"
  using scheduler_round_robin [OF demo_start_ok demo_interrupted_ok] by blast

end
