(* ===== verification/Pool_Model.thy ===== *)
theory Pool_Model
  imports SP_Prelude
begin

text \<open>
  The thread pool of \<open>HW4\<close> (\<open>my_pool.c\<close>, \<open>my_pool.h\<close>): the linked queue of tasks as pointers into a
  heap, and the worker threads and the client as a transition system. A step is one call of the
  pthread library or the code between two of them; the test of the \<open>while\<close> condition and the call of
  \<open>pthread_cond_wait\<close> that follows are two steps, since \<open>tpool_wait\<close> writes \<open>finish\<close> without the
  mutex. The client calls \<open>tpool_init\<close>, \<open>tpool_add\<close> for a list of tasks, \<open>tpool_wait\<close> and
  \<open>tpool_destroy\<close>.
\<close>

section \<open>The queue of tasks\<close>

type_synonym addr = nat

text \<open>The struct \<open>task\<close>. Functions and arguments are pointers the pool does not look into.\<close>

record task =
  jfunc :: nat
  jarg :: nat
  jnext :: "addr option"

text \<open>The struct \<open>tpool\<close> with the heap its task pointers point into. The mutex, the condition variable
  and the thread identifiers are in the state of the system below.\<close>

record tpool =
  heap :: "addr \<Rightarrow> task option"
  queue_head :: "addr option"
  queue_tail :: "addr option"
  n_threads :: nat
  finish :: bool

text \<open>A negative number of threads is none, as for the loop that creates them.\<close>

definition tpool_init :: "nat \<Rightarrow> tpool" where
  "tpool_init n = \<lparr>heap = (\<lambda>_. None), queue_head = None, queue_tail = None, n_threads = n, finish = False\<rparr>"

text \<open>\<open>p->next\<close>, \<open>p->next = v\<close> and \<open>free(p)\<close>, with the fault of a pointer that is not allocated.\<close>

definition get_next :: "addr option \<Rightarrow> tpool \<Rightarrow> (addr option) result" where
  "get_next a p =
     (case a of None \<Rightarrow> Inl Null_Dereference
      | Some x \<Rightarrow> (case heap p x of None \<Rightarrow> Inl Null_Dereference | Some t \<Rightarrow> Inr (jnext t)))"

definition set_next :: "addr option \<Rightarrow> addr option \<Rightarrow> tpool \<Rightarrow> tpool result" where
  "set_next a v p =
     (case a of None \<Rightarrow> Inl Null_Dereference
      | Some x \<Rightarrow> (case heap p x of None \<Rightarrow> Inl Null_Dereference
          | Some t \<Rightarrow> Inr (p\<lparr>heap := (heap p)(x := Some (t\<lparr>jnext := v\<rparr>))\<rparr>)))"

definition free_task :: "addr \<Rightarrow> tpool \<Rightarrow> tpool result" where
  "free_task x p =
     (case heap p x of None \<Rightarrow> Inl Null_Dereference
      | Some t \<Rightarrow> Inr (p\<lparr>heap := (heap p)(x := None)\<rparr>))"

text \<open>\<open>tpool_add\<close> between the locking and the broadcast; \<open>job\<close> is the address that \<open>malloc\<close> returns,
  which may be any address that is not allocated, in particular one that was freed before.\<close>

definition new_task :: "addr \<Rightarrow> nat \<Rightarrow> nat \<Rightarrow> tpool \<Rightarrow> tpool" where
  "new_task job f a p = p\<lparr>heap := (heap p)(job := Some \<lparr>jfunc = f, jarg = a, jnext = None\<rparr>)\<rparr>"

definition add_task :: "addr \<Rightarrow> nat \<Rightarrow> nat \<Rightarrow> tpool \<Rightarrow> tpool result" where
  "add_task job f a p0 =
     (let p = new_task job f a p0 in
      if queue_head p = None then
        Inr (p\<lparr>queue_head := Some job, queue_tail := Some job\<rparr>)
      else
        (case get_next (queue_head p) p of
           Inl e \<Rightarrow> Inl e
         | Inr nxt \<Rightarrow>
             (case set_next (if nxt \<noteq> None then queue_tail p else queue_head p) (Some job) p of
                Inl e \<Rightarrow> Inl e
              | Inr p' \<Rightarrow> Inr (p'\<lparr>queue_tail := Some job\<rparr>))))"

text \<open>The worker's removal of the first task.\<close>

definition take_task :: "tpool \<Rightarrow> (addr \<times> tpool) result" where
  "take_task p =
     (case get_next (queue_head p) p of
        Inl e \<Rightarrow> Inl e
      | Inr nxt \<Rightarrow> Inr (the (queue_head p), p\<lparr>queue_head := nxt\<rparr>))"

section \<open>Threads\<close>

text \<open>Where a worker is in \<open>work\<close>: before \<open>pthread_mutex_lock\<close>, at the \<open>while\<close> test, about to call
  \<open>pthread_cond_wait\<close>, waiting in it, woken up and waiting for the mutex, after the loop, with a job
  outside the mutex, about to free it, about to broadcast, about to broadcast and exit, gone.\<close>

datatype worker_pc =
    W_lock | W_test | W_prewait | W_wait | W_woken | W_pick
  | W_run addr | W_free addr | W_broadcast | W_exit | W_gone

text \<open>Where the client is: at the locking, the linking, the broadcast and the unlocking of
  \<open>tpool_add\<close> (with the task to add and those that are added later), at the assignment, the broadcast and the \<open>i\<close>-th join of
  \<open>tpool_wait\<close>, at \<open>tpool_destroy\<close>, done.\<close>

datatype client_pc =
    C_lock nat nat "(nat \<times> nat) list" | C_link nat nat "(nat \<times> nat) list"
  | C_broadcast "(nat \<times> nat) list" | C_unlock "(nat \<times> nat) list"
  | C_finish | C_wake | C_join nat | C_destroy | C_done

datatype holder = Worker nat | Client

text \<open>The whole system. \<open>added\<close>, \<open>taken\<close> and \<open>executed\<close> record the tasks that have been linked into the
  queue, taken from it and run, in this order; the program does not have them. \<open>broken\<close> is a wild
  access.\<close>

record psys =
  pool :: tpool
  mlock :: "holder option"
  workers :: "worker_pc list"
  client :: client_pc
  added :: "(nat \<times> nat) list"
  taken :: "(nat \<times> nat) list"
  executed :: "(nat \<times> nat) list"
  destroyed :: bool
  broken :: bool

definition task_at :: "tpool \<Rightarrow> addr \<Rightarrow> nat \<times> nat" where
  "task_at p x = (case heap p x of None \<Rightarrow> (0, 0) | Some t \<Rightarrow> (jfunc t, jarg t))"

definition set_worker :: "nat \<Rightarrow> worker_pc \<Rightarrow> psys \<Rightarrow> psys" where
  "set_worker i w s = s\<lparr>workers := (workers s)[i := w]\<rparr>"

text \<open>\<open>pthread_cond_broadcast\<close>: every thread that waits goes on to get the mutex.\<close>

definition wake :: "worker_pc \<Rightarrow> worker_pc" where
  "wake w = (if w = W_wait then W_woken else w)"

definition broadcast :: "psys \<Rightarrow> psys" where
  "broadcast s = s\<lparr>workers := map wake (workers s)\<rparr>"

text \<open>One step of worker \<open>i\<close>; \<open>None\<close> when it is blocked or gone. After \<open>tpool_destroy\<close> has freed the pool
  any step of a worker is an access to freed memory.\<close>

definition worker_step :: "nat \<Rightarrow> psys \<Rightarrow> psys option" where
  "worker_step i s =
     (if destroyed s \<and> workers s ! i \<noteq> W_gone then Some (s\<lparr>broken := True\<rparr>) else
      case workers s ! i of
        W_lock \<Rightarrow> if mlock s = None then Some (set_worker i W_test (s\<lparr>mlock := Some (Worker i)\<rparr>)) else None
      | W_test \<Rightarrow>
          if queue_head (pool s) = None \<and> \<not> finish (pool s) then Some (set_worker i W_prewait s)
          else Some (set_worker i W_pick s)
      | W_prewait \<Rightarrow> Some (set_worker i W_wait (s\<lparr>mlock := None\<rparr>))
      | W_wait \<Rightarrow> None
      | W_woken \<Rightarrow> if mlock s = None then Some (set_worker i W_test (s\<lparr>mlock := Some (Worker i)\<rparr>)) else None
      | W_pick \<Rightarrow>
          if queue_head (pool s) \<noteq> None then
            (case take_task (pool s) of
               Inl e \<Rightarrow> Some (s\<lparr>broken := True\<rparr>)
             | Inr (job, p) \<Rightarrow>
                 Some (set_worker i (W_run job)
                   (s\<lparr>pool := p, mlock := None, taken := taken s @ [task_at p job]\<rparr>)))
          else if finish (pool s) then Some (set_worker i W_exit (s\<lparr>mlock := None\<rparr>))
          else Some (set_worker i W_lock s)
      | W_run job \<Rightarrow>
          if heap (pool s) job = None then Some (s\<lparr>broken := True\<rparr>)
          else Some (set_worker i (W_free job) (s\<lparr>executed := executed s @ [task_at (pool s) job]\<rparr>))
      | W_free job \<Rightarrow>
          (case free_task job (pool s) of
             Inl e \<Rightarrow> Some (s\<lparr>broken := True\<rparr>)
           | Inr p \<Rightarrow> Some (set_worker i W_broadcast (s\<lparr>pool := p\<rparr>)))
      | W_broadcast \<Rightarrow> Some (set_worker i W_lock (broadcast s))
      | W_exit \<Rightarrow> Some (set_worker i W_gone (broadcast s))
      | W_gone \<Rightarrow> None)"

text \<open>The next call of the client when the tasks \<open>ts\<close> are left to add.\<close>

fun client_next :: "(nat \<times> nat) list \<Rightarrow> client_pc" where
  "client_next [] = C_finish"
| "client_next ((f, a) # ts) = C_lock f a ts"

text \<open>One step of the client; \<open>x\<close> is the address that a call of \<open>malloc\<close> returns.\<close>

definition client_step :: "addr \<Rightarrow> psys \<Rightarrow> psys option" where
  "client_step x s =
     (case client s of
        C_lock f a ts \<Rightarrow>
          if mlock s = None then Some (s\<lparr>mlock := Some Client, client := C_link f a ts\<rparr>) else None
      | C_link f a ts \<Rightarrow>
          (case add_task x f a (pool s) of
             Inl e \<Rightarrow> Some (s\<lparr>broken := True\<rparr>)
           | Inr p \<Rightarrow> Some (s\<lparr>pool := p, added := added s @ [(f, a)], client := C_broadcast ts\<rparr>))
      | C_broadcast ts \<Rightarrow> Some ((broadcast s)\<lparr>client := C_unlock ts\<rparr>)
      | C_unlock ts \<Rightarrow> Some (s\<lparr>mlock := None, client := client_next ts\<rparr>)
      | C_finish \<Rightarrow> Some (s\<lparr>pool := (pool s)\<lparr>finish := True\<rparr>, client := C_wake\<rparr>)
      | C_wake \<Rightarrow> Some ((broadcast s)\<lparr>client := C_join 0\<rparr>)
      | C_join i \<Rightarrow>
          if i < n_threads (pool s) then
            (if workers s ! i = W_gone then Some (s\<lparr>client := C_join (i + 1)\<rparr>) else None)
          else Some (s\<lparr>client := C_destroy\<rparr>)
      | C_destroy \<Rightarrow> Some (s\<lparr>destroyed := True, client := C_done\<rparr>)
      | C_done \<Rightarrow> None)"

text \<open>The system after \<open>tpool_init(n)\<close>, with the tasks the client is going to add.\<close>

definition pool_start :: "nat \<Rightarrow> (nat \<times> nat) list \<Rightarrow> psys" where
  "pool_start n ts = \<lparr>pool = tpool_init n, mlock = None, workers = replicate n W_lock,
     client = client_next ts, added = [], taken = [], executed = [], destroyed = False, broken = False\<rparr>"

text \<open>A step of the system. With \<open>sp\<close>, \<open>pthread_cond_wait\<close> may also return without a broadcast, as POSIX
  allows.\<close>

inductive pool_step :: "bool \<Rightarrow> psys \<Rightarrow> psys \<Rightarrow> bool" for sp where
  worker: "i < length (workers s) \<Longrightarrow> worker_step i s = Some s' \<Longrightarrow> pool_step sp s s'"
| client: "heap (pool s) x = None \<Longrightarrow> client_step x s = Some s' \<Longrightarrow> pool_step sp s s'"
| spurious: "sp \<Longrightarrow> i < length (workers s) \<Longrightarrow> workers s ! i = W_wait \<Longrightarrow>
    pool_step sp s (set_worker i W_woken s)"

end
