(* ===== verification/Pool_Queue.thy ===== *)
theory Pool_Queue
  imports Pool_Model
begin

text \<open>
  The pointer code of the task queue implements a list: \<open>add_task\<close> appends, \<open>take_task\<close> removes
  the first element, no access is wild. The interface \<open>task_queue\<close> states what the workers and the
  client rely on; the linked list is its interpretation.
\<close>

section \<open>The interface\<close>

text \<open>A queue \<open>q\<close> represents a list of tasks. \<open>add\<close> gets the name of a node that is free in \<open>q\<close>, \<open>tk\<close>
  also says which task it has removed; both may fault, but not on a queue that represents
  something.\<close>

locale task_queue =
  fixes rep :: "'q \<Rightarrow> 't list \<Rightarrow> bool"
    and avail :: "'q \<Rightarrow> 'n \<Rightarrow> bool"
    and add :: "'n \<Rightarrow> 't \<Rightarrow> 'q \<Rightarrow> 'q result"
    and nonempty :: "'q \<Rightarrow> bool"
    and tk :: "'q \<Rightarrow> ('t \<times> 'q) result"
  assumes avail_rep: "rep q ts \<Longrightarrow> \<exists>n. avail q n"
    and add_rep: "rep q ts \<Longrightarrow> avail q n \<Longrightarrow> \<exists>q'. add n t q = Inr q' \<and> rep q' (ts @ [t])"
    and nonempty_rep: "rep q ts \<Longrightarrow> nonempty q \<longleftrightarrow> ts \<noteq> []"
    and tk_rep: "rep q (t # ts) \<Longrightarrow> \<exists>q'. tk q = Inr (t, q') \<and> rep q' ts"
begin

text \<open>A client adds \<open>ts\<close> one after the other, and somebody takes \<open>n\<close> tasks.\<close>

inductive adds :: "'q \<Rightarrow> 't list \<Rightarrow> 'q \<Rightarrow> bool" where
  adds_nil: "adds q [] q"
| adds_cons: "avail q n \<Longrightarrow> add n t q = Inr q' \<Longrightarrow> adds q' ts q'' \<Longrightarrow> adds q (t # ts) q''"

fun take_n :: "nat \<Rightarrow> 'q \<Rightarrow> ('t list \<times> 'q) result" where
  "take_n 0 q = Inr ([], q)"
| "take_n (Suc n) q =
     (case tk q of Inl e \<Rightarrow> Inl e
      | Inr (t, q') \<Rightarrow> (case take_n n q' of Inl e \<Rightarrow> Inl e | Inr (ts, q'') \<Rightarrow> Inr (t # ts, q'')))"

lemma adds_rep: "adds q ts q' \<Longrightarrow> rep q us \<Longrightarrow> rep q' (us @ ts)"
proof (induction arbitrary: us rule: adds.induct)
  case (adds_cons q n t q' ts q'')
  have "rep q' (us @ [t])" using add_rep [OF adds_cons.prems adds_cons.hyps(1), of t] adds_cons.hyps(2) by auto
  from adds_cons.IH [OF this] show ?case by simp
qed simp

lemma adds_total: "rep q us \<Longrightarrow> \<exists>q'. adds q ts q'"
proof (induction ts arbitrary: q us)
  case Nil
  show ?case using adds_nil by blast
next
  case (Cons t ts)
  obtain n where n: "avail q n" using avail_rep [OF Cons.prems] by blast
  obtain q' where q': "add n t q = Inr q'" "rep q' (us @ [t])" using add_rep [OF Cons.prems n] by blast
  from Cons.IH [OF q'(2)] show ?case using n q'(1) adds_cons by blast
qed

lemma take_n_rep: "rep q (ts @ us) \<Longrightarrow> \<exists>q'. take_n (length ts) q = Inr (ts, q') \<and> rep q' us"
proof (induction ts arbitrary: q)
  case (Cons t ts)
  obtain q' where "tk q = Inr (t, q')" "rep q' (ts @ us)" using tk_rep Cons.prems by fastforce
  with Cons.IH [of q'] show ?case by auto
qed simp

text \<open>First in, first out: what was there and what was added comes out in this order.\<close>

lemma fifo:
  assumes "rep q ts" "adds q us q'"
  shows "\<exists>q''. take_n (length (ts @ us)) q' = Inr (ts @ us, q'') \<and> \<not> nonempty q''"
proof -
  have "rep q' (ts @ us)" by (rule adds_rep [OF assms(2,1)])
  then obtain q'' where "take_n (length (ts @ us)) q' = Inr (ts @ us, q'')" "rep q'' []"
    using take_n_rep [of q' "ts @ us" "[]"] by auto
  then show ?thesis using nonempty_rep by blast
qed

end

section \<open>The linked list\<close>

fun chain :: "(addr \<Rightarrow> task option) \<Rightarrow> addr option \<Rightarrow> addr list \<Rightarrow> bool" where
  "chain h a [] \<longleftrightarrow> a = None"
| "chain h a (x # xs) \<longleftrightarrow> a = Some x \<and> (case h x of None \<Rightarrow> False | Some t \<Rightarrow> chain h (jnext t) xs)"

text \<open>The pool's queue consists of the nodes \<open>xs\<close>; \<open>queue_tail\<close> is the last of them if there is one
  (an empty queue may have a stale \<open>queue_tail\<close>).\<close>

definition queue_nodes :: "tpool \<Rightarrow> addr list \<Rightarrow> bool" where
  "queue_nodes p xs \<longleftrightarrow> chain (heap p) (queue_head p) xs \<and> distinct xs \<and>
     (xs \<noteq> [] \<longrightarrow> queue_tail p = Some (last xs))"

lemma chain_alloc: "chain h a xs \<Longrightarrow> x \<in> set xs \<Longrightarrow> h x \<noteq> None"
  by (induction h a xs rule: chain.induct) (auto split: option.splits)

lemma chain_frame: "chain h a xs \<Longrightarrow> x \<notin> set xs \<Longrightarrow> chain (h(x := v)) a xs"
  by (induction h a xs rule: chain.induct) (auto split: option.splits)

lemma chain_snoc:
  "\<lbrakk>chain h a xs; xs \<noteq> []; distinct xs; h (last xs) = Some t; j \<notin> set xs; h j = Some n; jnext n = None\<rbrakk> \<Longrightarrow>
   chain (h(last xs := Some (t\<lparr>jnext := Some j\<rparr>))) a (xs @ [j])"
proof (induction h a xs rule: chain.induct)
  case (2 h a x xs)
  obtain u where u: "h x = Some u" "chain h (jnext u) xs" using 2(2) by (auto split: option.splits)
  show ?case
  proof (cases "xs = []")
    case True
    with 2 u show ?thesis by auto
  next
    case False
    define h' where "h' = h(last xs := Some (t\<lparr>jnext := Some j\<rparr>))"
    have "x \<noteq> last xs" using 2(4) False by auto
    then have "h' x = Some u" using u(1) by (simp add: h'_def)
    moreover have "chain h' (jnext u) (xs @ [j])"
      unfolding h'_def using 2(3-8) False by (intro 2(1) [OF u(1) u(2)]) auto
    moreover have "h(last (x # xs) := Some (t\<lparr>jnext := Some j\<rparr>)) = h'" using False by (simp add: h'_def)
    ultimately show ?thesis using 2(2) by simp
  qed
qed simp

lemma queue_nodes_init: "queue_nodes (tpool_init n) []"
  by (simp add: queue_nodes_def tpool_init_def)

lemma queue_nodes_head: "queue_nodes p xs \<Longrightarrow> queue_head p = None \<longleftrightarrow> xs = []"
  by (cases xs) (auto simp: queue_nodes_def)

lemma queue_nodes_alloc: "queue_nodes p xs \<Longrightarrow> x \<in> set xs \<Longrightarrow> heap p x \<noteq> None"
  unfolding queue_nodes_def using chain_alloc by blast

text \<open>What \<open>add_task\<close> changes: a new node behind the others, everything else keeps its task.\<close>

lemma add_task_nodes:
  assumes q: "queue_nodes p xs" and j: "heap p j = None"
  shows "\<exists>p'. add_task j f a p = Inr p' \<and> queue_nodes p' (xs @ [j]) \<and>
    task_at p' = (task_at p)(j := (f, a)) \<and> dom (heap p') = insert j (dom (heap p)) \<and>
    n_threads p' = n_threads p \<and> finish p' = finish p"
proof -
  let ?n = "\<lparr>jfunc = f, jarg = a, jnext = None\<rparr>"
  define h where "h = (heap p)(j := Some ?n)"
  have ch: "chain (heap p) (queue_head p) xs" "distinct xs" using q by (auto simp: queue_nodes_def)
  have new: "j \<notin> set xs" using queue_nodes_alloc [OF q] j by blast
  show ?thesis
  proof (cases "xs = []")
    case True
    then have "queue_head p = None" using ch(1) by simp
    with True show ?thesis
      by (auto simp: add_task_def new_task_def queue_nodes_def task_at_def Let_def)
  next
    case False
    then obtain x ys where xs: "xs = x # ys" by (cases xs) auto
    have head: "queue_head p = Some x" using ch(1) xs by simp
    have ch': "chain h (queue_head p) xs" unfolding h_def by (rule chain_frame [OF ch(1) new])
    obtain t0 where t0: "heap p x = Some t0" "chain (heap p) (jnext t0) ys"
      using ch(1) xs by (auto split: option.splits)
    have "last xs \<in> set xs" using False by simp
    then obtain t where t: "heap p (last xs) = Some t" "last xs \<noteq> j"
      using queue_nodes_alloc [OF q] new by fastforce
    have "jnext t0 \<noteq> None \<longleftrightarrow> ys \<noteq> []" using t0(2) by (cases ys) auto
    then have target: "(if jnext t0 \<noteq> None then queue_tail p else queue_head p) = Some (last xs)"
      using q False xs head by (auto simp: queue_nodes_def)
    have tl: "h (last xs) = Some t" and hj: "h j = Some ?n" using t by (simp_all add: h_def)
    define h' where "h' = h(last xs := Some (t\<lparr>jnext := Some j\<rparr>))"
    have "x \<noteq> j" using new xs by simp
    then have "add_task j f a p = Inr (p\<lparr>heap := h', queue_tail := Some j\<rparr>)"
      using head t0(1) target t h'_def h_def
      by (cases "jnext t0") (simp_all add: add_task_def new_task_def get_next_def set_next_def)
    moreover have "chain h' (queue_head p) (xs @ [j])"
      unfolding h'_def by (rule chain_snoc [OF ch' False ch(2) tl new hj]) simp
    moreover have "task_at (p\<lparr>heap := h', queue_tail := Some j\<rparr>) = (task_at p)(j := (f, a))"
      using t by (auto simp: task_at_def h'_def h_def fun_eq_iff)
    moreover have "dom h' = insert j (dom (heap p))" using t by (auto simp: h'_def h_def)
    ultimately show ?thesis using ch(2) new by (auto simp: queue_nodes_def)
  qed
qed

lemma take_task_nodes:
  assumes "queue_nodes p (x # xs)"
  shows "\<exists>p'. take_task p = Inr (x, p') \<and> queue_nodes p' xs \<and> heap p' = heap p \<and>
    n_threads p' = n_threads p \<and> finish p' = finish p \<and> heap p x \<noteq> None"
proof -
  obtain t where t: "queue_head p = Some x" "heap p x = Some t" "chain (heap p) (jnext t) xs"
    using assms by (auto simp: queue_nodes_def split: option.splits)
  then have "take_task p = Inr (x, p\<lparr>queue_head := jnext t\<rparr>)" by (simp add: take_task_def get_next_def)
  with t assms show ?thesis by (auto simp: queue_nodes_def)
qed

lemma free_task_nodes:
  assumes "queue_nodes p xs" "x \<notin> set xs" "heap p x \<noteq> None"
  shows "\<exists>p'. free_task x p = Inr p' \<and> queue_nodes p' xs \<and> heap p' = (heap p)(x := None) \<and>
    n_threads p' = n_threads p \<and> finish p' = finish p"
  using assms chain_frame [of "heap p" "queue_head p" xs x None]
  by (auto simp: free_task_def queue_nodes_def)

section \<open>The linked list is a queue\<close>

definition queue_tasks :: "tpool \<Rightarrow> (nat \<times> nat) list \<Rightarrow> bool" where
  "queue_tasks p ts \<longleftrightarrow> finite (dom (heap p)) \<and> (\<exists>xs. queue_nodes p xs \<and> ts = map (task_at p) xs)"

definition add_pair :: "addr \<Rightarrow> nat \<times> nat \<Rightarrow> tpool \<Rightarrow> tpool result" where
  "add_pair x t p = add_task x (fst t) (snd t) p"

definition take_pair :: "tpool \<Rightarrow> ((nat \<times> nat) \<times> tpool) result" where
  "take_pair p = (case take_task p of Inl e \<Rightarrow> Inl e | Inr (x, p') \<Rightarrow> Inr (task_at p' x, p'))"

lemma free_address: "finite (dom h) \<Longrightarrow> \<exists>x :: addr. h x = None"
  using ex_new_if_finite [OF infinite_UNIV_nat, of "dom h"] by auto

lemma add_pair_rep:
  assumes "queue_tasks p ts" "heap p x = None"
  shows "\<exists>p'. add_pair x t p = Inr p' \<and> queue_tasks p' (ts @ [t])"
proof -
  obtain xs where xs: "queue_nodes p xs" "ts = map (task_at p) xs" and fin: "finite (dom (heap p))"
    using assms(1) by (auto simp: queue_tasks_def)
  have new: "x \<notin> set xs" using queue_nodes_alloc [OF xs(1)] assms(2) by blast
  obtain p' where p': "add_pair x t p = Inr p'" "queue_nodes p' (xs @ [x])"
    "task_at p' = (task_at p)(x := t)" "dom (heap p') = insert x (dom (heap p))"
    using add_task_nodes [OF xs(1) assms(2), of "fst t" "snd t"] by (auto simp: add_pair_def)
  have "map (task_at p') (xs @ [x]) = ts @ [t]" using new xs(2) p'(3) by simp
  moreover have "finite (dom (heap p'))" using fin p'(4) by simp
  ultimately show ?thesis using p'(1,2) by (metis queue_tasks_def)
qed

lemma take_pair_rep:
  assumes "queue_tasks p (t # ts)"
  shows "\<exists>p'. take_pair p = Inr (t, p') \<and> queue_tasks p' ts"
proof -
  obtain x xs where x: "queue_nodes p (x # xs)" "t = task_at p x" "ts = map (task_at p) xs"
    and fin: "finite (dom (heap p))"
    using assms by (auto simp: queue_tasks_def Cons_eq_map_conv)
  obtain p' where p': "take_task p = Inr (x, p')" "queue_nodes p' xs" "heap p' = heap p"
    using take_task_nodes [OF x(1)] by blast
  then have "task_at p' = task_at p" by (simp add: task_at_def fun_eq_iff)
  with p' x fin show ?thesis by (auto simp: take_pair_def queue_tasks_def)
qed

lemma head_rep: "queue_tasks p ts \<Longrightarrow> queue_head p \<noteq> None \<longleftrightarrow> ts \<noteq> []"
  unfolding queue_tasks_def using queue_nodes_head by fastforce

lemma free_node_rep: "queue_tasks p ts \<Longrightarrow> \<exists>x. heap p x = None"
  unfolding queue_tasks_def using free_address by blast

interpretation pool_queue: task_queue queue_tasks "\<lambda>p x. heap p x = None" add_pair
    "\<lambda>p. queue_head p \<noteq> None" take_pair
  by (rule task_queue.intro) (fact free_node_rep add_pair_rep head_rep take_pair_rep)+

end
