(* ===== verification/Pool_Correct.thy ===== *)
theory Pool_Correct
  imports Pool_Queue "HOL-Library.Multiset"
begin

text \<open>
  The invariant of the thread pool. Its parts: who holds the mutex (\<open>mutex_ok\<close>), which task nodes
  are allocated and who owns them (\<open>memory_ok\<close>), where each task that was added is now
  (\<open>account_ok\<close>), and what a thread at each program point may rely on (\<open>control_ok\<close>). Every step of
  a worker, of the client and every spurious wake-up keeps all of them.
\<close>

section \<open>The invariant\<close>

fun holds :: "worker_pc \<Rightarrow> bool" where
  "holds W_test = True"
| "holds W_prewait = True"
| "holds W_pick = True"
| "holds _ = False"

fun client_holds :: "client_pc \<Rightarrow> bool" where
  "client_holds (C_link f a ts) = True"
| "client_holds (C_broadcast ts) = True"
| "client_holds (C_unlock ts) = True"
| "client_holds _ = False"

definition mutex_ok :: "psys \<Rightarrow> bool" where
  "mutex_ok s \<longleftrightarrow> (\<forall>i < length (workers s). holds (workers s ! i) \<longleftrightarrow> mlock s = Some (Worker i)) \<and>
     (\<forall>i. mlock s = Some (Worker i) \<longrightarrow> i < length (workers s)) \<and>
     (client_holds (client s) \<longleftrightarrow> mlock s = Some Client)"

text \<open>The task nodes a worker has taken out of the queue and not freed, and the one among them whose
  function it has not run yet.\<close>

fun job_of :: "worker_pc \<Rightarrow> addr list" where
  "job_of (W_run x) = [x]"
| "job_of (W_free x) = [x]"
| "job_of _ = []"

fun run_of :: "worker_pc \<Rightarrow> addr list" where
  "run_of (W_run x) = [x]"
| "run_of _ = []"

definition jobs :: "worker_pc list \<Rightarrow> addr list" where
  "jobs ws = concat (map job_of ws)"

definition runs :: "worker_pc list \<Rightarrow> addr list" where
  "runs ws = concat (map run_of ws)"

definition memory_ok :: "addr list \<Rightarrow> psys \<Rightarrow> bool" where
  "memory_ok xs s \<longleftrightarrow> queue_nodes (pool s) xs \<and> distinct (xs @ jobs (workers s)) \<and>
     dom (heap (pool s)) = set xs \<union> set (jobs (workers s)) \<and> \<not> broken s"

text \<open>The tasks the client has not linked into the queue yet.\<close>

fun pending :: "client_pc \<Rightarrow> (nat \<times> nat) list" where
  "pending (C_lock f a ts) = (f, a) # ts"
| "pending (C_link f a ts) = (f, a) # ts"
| "pending (C_broadcast ts) = ts"
| "pending (C_unlock ts) = ts"
| "pending _ = []"

definition account_ok :: "(nat \<times> nat) list \<Rightarrow> addr list \<Rightarrow> psys \<Rightarrow> bool" where
  "account_ok ts xs s \<longleftrightarrow> added s = taken s @ map (task_at (pool s)) xs \<and>
     mset (taken s) = mset (executed s) + mset (map (task_at (pool s)) (runs (workers s))) \<and>
     ts = added s @ pending (client s)"

fun worker_ok :: "bool \<Rightarrow> addr list \<Rightarrow> worker_pc \<Rightarrow> bool" where
  "worker_ok fin xs W_prewait \<longleftrightarrow> xs = []"
| "worker_ok fin xs W_pick \<longleftrightarrow> xs \<noteq> [] \<or> fin"
| "worker_ok fin xs W_exit \<longleftrightarrow> fin \<and> xs = []"
| "worker_ok fin xs W_gone \<longleftrightarrow> fin \<and> xs = []"
| "worker_ok fin xs _ \<longleftrightarrow> True"

fun finished :: "client_pc \<Rightarrow> bool" where
  "finished C_wake = True"
| "finished (C_join i) = True"
| "finished C_destroy = True"
| "finished C_done = True"
| "finished _ = False"

fun joined :: "nat \<Rightarrow> client_pc \<Rightarrow> nat" where
  "joined n (C_join i) = i"
| "joined n C_destroy = n"
| "joined n C_done = n"
| "joined n _ = 0"

definition control_ok :: "nat \<Rightarrow> addr list \<Rightarrow> psys \<Rightarrow> bool" where
  "control_ok n xs s \<longleftrightarrow> length (workers s) = n \<and> n_threads (pool s) = n \<and>
     (finish (pool s) \<longleftrightarrow> finished (client s)) \<and>
     (\<forall>w \<in> set (workers s). worker_ok (finish (pool s)) xs w) \<and>
     (W_wait \<in> set (workers s) \<and> xs \<noteq> [] \<longrightarrow> (\<exists>ts. client s = C_broadcast ts)) \<and>
     (\<forall>w \<in> set (take (joined n (client s)) (workers s)). w = W_gone) \<and>
     (destroyed s \<longleftrightarrow> client s = C_done)"

definition pool_inv :: "nat \<Rightarrow> (nat \<times> nat) list \<Rightarrow> psys \<Rightarrow> bool" where
  "pool_inv n ts s \<longleftrightarrow> mutex_ok s \<and> (\<exists>xs. memory_ok xs s \<and> account_ok ts xs s \<and> control_ok n xs s)"

lemma pool_invI:
  "mutex_ok s \<Longrightarrow> memory_ok xs s \<Longrightarrow> account_ok ts xs s \<Longrightarrow> control_ok n xs s \<Longrightarrow> pool_inv n ts s"
  unfolding pool_inv_def by blast

section \<open>Lists of workers\<close>

lemma jobs_simps [simp]:
  "jobs [] = []" "jobs (us @ vs) = jobs us @ jobs vs" "jobs (w # ws) = job_of w @ jobs ws"
  by (simp_all add: jobs_def)

lemma runs_simps [simp]:
  "runs [] = []" "runs (us @ vs) = runs us @ runs vs" "runs (w # ws) = run_of w @ runs ws"
  by (simp_all add: runs_def)

lemma wake_simps [simp]:
  "job_of (wake w) = job_of w" "run_of (wake w) = run_of w" "holds (wake w) = holds w"
  "worker_ok fin xs (wake w) = worker_ok fin xs w" "wake w \<noteq> W_wait" "wake W_gone = W_gone"
  by (cases w; simp add: wake_def)+

lemma wake_eq [simp]: "W_wait \<noteq> wake w" "wake w = W_gone \<longleftrightarrow> w = W_gone"
  by (cases w; simp add: wake_def)+

lemma jobs_wake [simp]: "jobs (map wake ws) = jobs ws"
  by (induction ws) simp_all

lemma runs_wake [simp]: "runs (map wake ws) = runs ws"
  by (induction ws) simp_all

lemma runs_jobs: "set (runs ws) \<subseteq> set (jobs ws)"
proof (induction ws)
  case (Cons w ws)
  then show ?case by (cases w) auto
qed simp

lemma jobs_replicate [simp]: "jobs (replicate n W_lock) = []" "runs (replicate n W_lock) = []"
  by (induction n) simp_all

text \<open>A worker in the list of all workers.\<close>

lemma worker_split:
  assumes "i < length ws"
  obtains us vs where "ws = us @ ws ! i # vs" "length us = i"
  using assms id_take_nth_drop [OF assms] by (metis length_take min.absorb2 less_imp_le)

lemma set_worker_simps [simp]:
  "workers (set_worker i w s) = (workers s)[i := w]" "mlock (set_worker i w s) = mlock s"
  "client (set_worker i w s) = client s" "pool (set_worker i w s) = pool s"
  "added (set_worker i w s) = added s" "taken (set_worker i w s) = taken s"
  "executed (set_worker i w s) = executed s" "broken (set_worker i w s) = broken s"
  "destroyed (set_worker i w s) = destroyed s"
  by (simp_all add: set_worker_def)

lemma broadcast_simps [simp]:
  "workers (broadcast s) = map wake (workers s)" "mlock (broadcast s) = mlock s"
  "client (broadcast s) = client s" "pool (broadcast s) = pool s"
  "added (broadcast s) = added s" "taken (broadcast s) = taken s"
  "executed (broadcast s) = executed s" "broken (broadcast s) = broken s"
  "destroyed (broadcast s) = destroyed s"
  by (simp_all add: broadcast_def)

section \<open>The mutex\<close>

lemma mutex_worker:
  assumes "mutex_ok s" "i < length (workers s)" "holds (workers s ! i)" "j < length (workers s)" "j \<noteq> i"
  shows "\<not> holds (workers s ! j)"
  using assms by (auto simp: mutex_ok_def)

lemma mutex_client:
  "mutex_ok s \<Longrightarrow> client_holds (client s) \<Longrightarrow> w \<in> set (workers s) \<Longrightarrow> \<not> holds w"
  by (auto simp: mutex_ok_def in_set_conv_nth)

lemma mutex_others:
  assumes "mutex_ok s" "workers s = us @ w # vs" "holds w" "v \<in> set us \<union> set vs"
  shows "\<not> holds v"
proof -
  obtain j where j: "j < length (workers s)" "workers s ! j = v" "j \<noteq> length us"
  proof -
    from assms(4) consider k where "k < length us" "us ! k = v" | k where "k < length vs" "vs ! k = v"
      by (auto simp: in_set_conv_nth)
    then show ?thesis
    proof cases
      case 1
      with that [of k] assms(2) show ?thesis by (simp add: nth_append)
    next
      case 2
      with that [of "length us + Suc k"] assms(2) show ?thesis by (simp add: nth_append)
    qed
  qed
  with mutex_worker [OF assms(1), of "length us" j] assms(2,3) show ?thesis by simp
qed

text \<open>What may happen to the mutex: nothing, somebody gets it, somebody releases it.\<close>

lemma mutex_keep:
  assumes "mutex_ok s" "i < length (workers s)" "holds w \<longleftrightarrow> holds (workers s ! i)"
    "workers s' = (workers s)[i := w]" "mlock s' = mlock s" "client s' = client s"
  shows "mutex_ok s'"
  using assms by (auto simp: mutex_ok_def nth_list_update)

lemma mutex_get:
  assumes "mutex_ok s" "i < length (workers s)" "mlock s = None" "holds w"
    "workers s' = (workers s)[i := w]" "mlock s' = Some (Worker i)" "client s' = client s"
  shows "mutex_ok s'"
  using assms by (auto simp: mutex_ok_def nth_list_update)

lemma mutex_release:
  assumes "mutex_ok s" "i < length (workers s)" "holds (workers s ! i)" "\<not> holds w"
    "workers s' = (workers s)[i := w]" "mlock s' = None" "client s' = client s"
  shows "mutex_ok s'"
  using assms by (auto simp: mutex_ok_def nth_list_update)

lemma mutex_broadcast: "mutex_ok (broadcast s) \<longleftrightarrow> mutex_ok s"
  by (auto simp: mutex_ok_def)

lemma mutex_worker_step:
  assumes m: "mutex_ok s" and i: "i < length (workers s)" and st: "worker_step i s = Some s'"
    and d: "\<not> destroyed s" and b: "\<not> broken s'"
    and pick: "workers s ! i = W_pick \<Longrightarrow> queue_head (pool s) \<noteq> None \<or> finish (pool s)"
  shows "mutex_ok s'"
proof (cases "workers s ! i")
  case W_lock
  with st d show ?thesis
    by (intro mutex_get [OF m i, of W_test]) (auto simp: worker_step_def split: if_splits)
next
  case W_woken
  with st d show ?thesis
    by (intro mutex_get [OF m i, of W_test]) (auto simp: worker_step_def split: if_splits)
next
  case W_test
  with st d show ?thesis
    by (intro mutex_keep [OF m i, of "workers s' ! i"]) (auto simp: worker_step_def i split: if_splits)
next
  case W_prewait
  with st d show ?thesis
    by (intro mutex_release [OF m i, of W_wait]) (auto simp: worker_step_def)
next
  case W_pick
  with st d b pick show ?thesis
    by (intro mutex_release [OF m i, of "workers s' ! i"])
      (auto simp: worker_step_def i split: if_splits sum.splits prod.splits)
next
  case (W_run x)
  with st d b show ?thesis
    by (intro mutex_keep [OF m i, of "W_free x"]) (auto simp: worker_step_def split: if_splits)
next
  case (W_free x)
  with st d b show ?thesis
    by (intro mutex_keep [OF m i, of W_broadcast]) (auto simp: worker_step_def split: sum.splits)
next
  case W_broadcast
  with st d m i show ?thesis
    by (intro mutex_keep [OF mutex_broadcast [THEN iffD2, OF m], of i W_lock]) (auto simp: worker_step_def)
next
  case W_exit
  with st d m i show ?thesis
    by (intro mutex_keep [OF mutex_broadcast [THEN iffD2, OF m], of i W_gone]) (auto simp: worker_step_def)
qed (use st d in \<open>simp_all add: worker_step_def\<close>)

section \<open>The steps of a worker\<close>

text \<open>A thread that has left the queue alone keeps the parts about memory and tasks.\<close>

lemma quiet_ok:
  assumes "memory_ok xs s" "account_ok ts xs s"
    "jobs (workers s') = jobs (workers s)" "runs (workers s') = runs (workers s)"
    "heap (pool s') = heap (pool s)" "queue_head (pool s') = queue_head (pool s)"
    "queue_tail (pool s') = queue_tail (pool s)"
    "broken s' = broken s" "added s' = added s" "taken s' = taken s" "executed s' = executed s"
    "pending (client s') = pending (client s)"
  shows "memory_ok xs s' \<and> account_ok ts xs s'"
proof -
  have "task_at (pool s') = task_at (pool s)" using assms(5) by (simp add: task_at_def fun_eq_iff)
  with assms show ?thesis by (simp add: memory_ok_def account_ok_def queue_nodes_def)
qed

text \<open>A worker changes its program counter from \<open>w\<close> to \<open>w'\<close>; the others may be woken up.\<close>

lemma control_move:
  assumes c: "control_ok n xs s" and ws: "workers s = us @ w # vs" "w \<noteq> W_gone"
    and ws': "workers s' = us @ w' # vs \<or> workers s' = map wake us @ w' # map wake vs"
    and "n_threads (pool s') = n_threads (pool s)" "finish (pool s') = finish (pool s)"
    "client s' = client s" "destroyed s' = destroyed s"
    and "worker_ok (finish (pool s)) xs w'" "w' = W_wait \<Longrightarrow> xs = []"
  shows "control_ok n xs s'"
proof -
  have gone: "take (joined n (client s)) (us @ w # vs) = take (joined n (client s)) us"
  proof -
    have "w \<notin> set (take (joined n (client s)) (us @ w # vs))" using c ws by (auto simp: control_ok_def)
    then have "joined n (client s) \<le> length us" by (cases "joined n (client s) - length us") auto
    then show ?thesis by simp
  qed
  then have "joined n (client s) \<le> length us"
    by (metis append_self_conv diff_is_0_eq take_append take_eq_Nil list.distinct(1))
  with ws' show ?thesis using c ws(1) assms(5-) gone
    by (elim disjE) (auto simp: control_ok_def take_map)
qed

lemma alive_not_destroyed:
  assumes "control_ok n xs s" "workers s = us @ w # vs" "w \<noteq> W_gone"
  shows "\<not> destroyed s"
  using assms by (auto simp: control_ok_def)

lemma queue_nodes_headD: "memory_ok xs s \<Longrightarrow> queue_head (pool s) = None \<longleftrightarrow> xs = []"
  unfolding memory_ok_def using queue_nodes_head by blast

text \<open>The worker takes the first task.\<close>

lemma pick_ok:
  assumes m: "mutex_ok s" and mem: "memory_ok (x # xs) s" and acc: "account_ok ts (x # xs) s"
    and c: "control_ok n (x # xs) s"
    and ws: "workers s = us @ W_pick # vs"
  shows "\<exists>s'. worker_step (length us) s = Some s' \<and>
    memory_ok xs s' \<and> account_ok ts xs s' \<and> control_ok n xs s'"
proof -
  have q: "queue_nodes (pool s) (x # xs)" using mem by (simp add: memory_ok_def)
  obtain p' where p': "take_task (pool s) = Inr (x, p')" "queue_nodes p' xs" "heap p' = heap (pool s)"
    "n_threads p' = n_threads (pool s)" "finish p' = finish (pool s)"
    using take_task_nodes [OF q] by blast
  define s' where "s' = set_worker (length us) (W_run x)
    (s\<lparr>pool := p', mlock := None, taken := taken s @ [task_at p' x]\<rparr>)"
  have t: "task_at p' = task_at (pool s)" using p'(3) by (simp add: task_at_def fun_eq_iff)
  have nd: "\<not> destroyed s" using alive_not_destroyed [OF c ws] by simp
  have "queue_head (pool s) \<noteq> None" using queue_nodes_head [OF q] by simp
  then have st: "worker_step (length us) s = Some s'"
    using p'(1) ws nd by (simp add: worker_step_def s'_def)
  have ws': "workers s' = us @ W_run x # vs" using ws by (simp add: s'_def)
  have "memory_ok xs s'" using mem p'(2,3) ws ws' by (auto simp: memory_ok_def s'_def)
  moreover have "account_ok ts xs s'" using acc ws ws' t by (auto simp: account_ok_def s'_def)
  moreover have "control_ok n xs s'"
  proof -
    have "worker_ok (finish (pool s)) xs v" if v: "v \<in> set us \<union> set vs" for v
    proof -
      have "\<not> holds v" using mutex_others [OF m ws _ v] by simp
      moreover have "worker_ok (finish (pool s)) (x # xs) v" using c v unfolding control_ok_def ws by auto
      ultimately show ?thesis by (cases v) simp_all
    qed
    then have "control_ok n xs (s\<lparr>workers := us @ W_lock # vs\<rparr>)"
      using control_move [OF c ws, of "s\<lparr>workers := us @ W_lock # vs\<rparr>" W_lock]
      by (auto simp: control_ok_def)
    from control_move [OF this, of us W_lock vs s' "W_run x"] show ?thesis
      using p' ws' by (simp add: s'_def)
  qed
  ultimately show ?thesis using st by blast
qed

text \<open>The worker has run the function.\<close>

lemma run_ok:
  assumes mem: "memory_ok xs s" and acc: "account_ok ts xs s" and c: "control_ok n xs s"
    and ws: "workers s = us @ W_run x # vs"
  shows "\<exists>s'. worker_step (length us) s = Some s' \<and>
    memory_ok xs s' \<and> account_ok ts xs s' \<and> control_ok n xs s'"
proof -
  define s' where "s' = set_worker (length us) (W_free x) (s\<lparr>executed := executed s @ [task_at (pool s) x]\<rparr>)"
  have nd: "\<not> destroyed s" using alive_not_destroyed [OF c ws] by simp
  have "heap (pool s) x \<noteq> None" using mem ws by (auto simp: memory_ok_def)
  then have st: "worker_step (length us) s = Some s'" using ws nd by (auto simp: worker_step_def s'_def)
  have ws': "workers s' = us @ W_free x # vs" using ws by (simp add: s'_def)
  have "memory_ok xs s'" using mem ws ws' by (simp add: memory_ok_def s'_def)
  moreover have "account_ok ts xs s'" using acc ws ws' by (simp add: account_ok_def s'_def)
  moreover have "control_ok n xs s'"
    using control_move [OF c ws, of s' "W_free x"] ws' by (simp add: s'_def)
  ultimately show ?thesis using st by blast
qed

text \<open>The worker frees the task.\<close>

lemma free_ok:
  assumes mem: "memory_ok xs s" and acc: "account_ok ts xs s" and c: "control_ok n xs s"
    and ws: "workers s = us @ W_free x # vs"
  shows "\<exists>s'. worker_step (length us) s = Some s' \<and>
    memory_ok xs s' \<and> account_ok ts xs s' \<and> control_ok n xs s'"
proof -
  have own: "x \<notin> set xs" "heap (pool s) x \<noteq> None" "x \<notin> set (jobs us) \<union> set (jobs vs)"
    using mem ws by (auto simp: memory_ok_def)
  obtain p' where p': "free_task x (pool s) = Inr p'" "queue_nodes p' xs" "heap p' = (heap (pool s))(x := None)"
    "n_threads p' = n_threads (pool s)" "finish p' = finish (pool s)"
    using free_task_nodes [of "pool s" xs x] own mem by (auto simp: memory_ok_def)
  define s' where "s' = set_worker (length us) W_broadcast (s\<lparr>pool := p'\<rparr>)"
  have nd: "\<not> destroyed s" using alive_not_destroyed [OF c ws] by simp
  have st: "worker_step (length us) s = Some s'" using p'(1) ws nd by (simp add: worker_step_def s'_def)
  have ws': "workers s' = us @ W_broadcast # vs" using ws by (simp add: s'_def)
  have "memory_ok xs s'" using mem p'(2,3) own ws ws' by (auto simp: memory_ok_def s'_def)
  moreover have "account_ok ts xs s'"
  proof -
    have "task_at p' y = task_at (pool s) y" if "y \<noteq> x" for y using that p'(3) by (simp add: task_at_def)
    moreover have "x \<notin> set (runs us) \<union> set (runs vs)" using own(3) runs_jobs by blast
    ultimately have "map (task_at p') xs = map (task_at (pool s)) xs"
      "map (task_at p') (runs us @ runs vs) = map (task_at (pool s)) (runs us @ runs vs)"
      using own(1) by (intro map_cong refl; auto; metis)+
    then show ?thesis using acc ws ws' by (simp add: account_ok_def s'_def del: map_eq_conv map_append mset_map)
  qed
  moreover have "control_ok n xs s'"
    using control_move [OF c ws, of s' W_broadcast] ws' p' by (simp add: s'_def)
  ultimately show ?thesis using st by blast
qed

text \<open>The steps that leave the queue and the tasks alone.\<close>

lemma move_to:
  assumes mem: "memory_ok xs s" and acc: "account_ok ts xs s" and c: "control_ok n xs s"
    and ws: "workers s = us @ w # vs" "w \<noteq> W_gone"
    and s': "s' = set_worker (length us) w' (s\<lparr>mlock := l\<rparr>) \<or> s' = set_worker (length us) w' (broadcast s)"
    and w: "job_of w = []" "run_of w = []" "job_of w' = []" "run_of w' = []"
      "worker_ok (finish (pool s)) xs w'" "w' = W_wait \<Longrightarrow> xs = []"
  shows "memory_ok xs s' \<and> account_ok ts xs s' \<and> control_ok n xs s'"
proof -
  have ws': "workers s' = us @ w' # vs \<or> workers s' = map wake us @ w' # map wake vs"
    using s' ws(1) list_update_length [of "map wake us" _ "map wake vs"] by auto
  have "memory_ok xs s' \<and> account_ok ts xs s'"
    using ws' w ws(1) by (intro quiet_ok [OF mem acc]) (use s' in auto)
  moreover have "control_ok n xs s'"
    using ws' w(5,6) by (intro control_move [OF c ws]) (use s' in auto)
  ultimately show ?thesis by blast
qed

lemma move_ok:
  assumes mem: "memory_ok xs s" and acc: "account_ok ts xs s" and c: "control_ok n xs s"
    and ws: "workers s = us @ w # vs" and st: "worker_step (length us) s = Some s'"
    and w: "w \<in> {W_lock, W_test, W_prewait, W_woken, W_broadcast, W_exit} \<or> w = W_pick \<and> xs = []"
  shows "memory_ok xs s' \<and> account_ok ts xs s' \<and> control_ok n xs s'"
proof -
  have wg: "w \<noteq> W_gone" using w by auto
  have nd: "\<not> destroyed s" by (rule alive_not_destroyed [OF c ws wg])
  have wo: "worker_ok (finish (pool s)) xs w" using c ws by (auto simp: control_ok_def)
  have head: "queue_head (pool s) = None \<longleftrightarrow> xs = []" by (rule queue_nodes_headD [OF mem])
  note to = move_to [OF mem acc c ws wg]
  have self: "s = s\<lparr>mlock := mlock s\<rparr>" by simp
  from w consider "w = W_lock" | "w = W_test" | "w = W_prewait" | "w = W_woken" | "w = W_broadcast"
    | "w = W_exit" | "w = W_pick" "xs = []" by blast
  then show ?thesis
  proof cases
    case 2
    show ?thesis
    proof (cases "xs = [] \<and> \<not> finish (pool s)")
      case True
      with st 2 ws nd head have "s' = set_worker (length us) W_prewait s" by (simp add: worker_step_def)
      with 2 True self show ?thesis by (intro to [of s' W_prewait "mlock s"]) auto
    next
      case False
      with st 2 ws nd head have "s' = set_worker (length us) W_pick s"
        by (auto simp: worker_step_def split: if_splits)
      with 2 False self show ?thesis by (intro to [of s' W_pick "mlock s"]) auto
    qed
  next
    case 7
    with wo have "finish (pool s)" by simp
    with st 7 ws nd head have "s' = set_worker (length us) W_exit (s\<lparr>mlock := None\<rparr>)"
      by (simp add: worker_step_def)
    with 7 \<open>finish (pool s)\<close> show ?thesis by (intro to [of s' W_exit None]) auto
  next
    case 1
    with st ws nd show ?thesis
      by (intro to [of s' W_test "Some (Worker (length us))"]) (auto simp: worker_step_def split: if_splits)
  next
    case 3
    with st ws nd wo show ?thesis by (intro to [of s' W_wait None]) (auto simp: worker_step_def)
  next
    case 4
    with st ws nd show ?thesis
      by (intro to [of s' W_test "Some (Worker (length us))"]) (auto simp: worker_step_def split: if_splits)
  next
    case 5
    with st ws nd show ?thesis by (intro to [of s' W_lock None]) (auto simp: worker_step_def)
  next
    case 6
    with st ws nd wo show ?thesis by (intro to [of s' W_gone None]) (auto simp: worker_step_def)
  qed
qed

lemma worker_step_inv:
  assumes inv: "pool_inv n ts s" and i: "i < length (workers s)" and st: "worker_step i s = Some s'"
  shows "pool_inv n ts s'"
proof -
  obtain xs where m: "mutex_ok s" and mem: "memory_ok xs s" and acc: "account_ok ts xs s"
    and c: "control_ok n xs s" using inv by (auto simp: pool_inv_def)
  obtain us vs where ws: "workers s = us @ workers s ! i # vs" and len: "length us = i"
    using worker_split [OF i] by blast
  have nd: "\<not> destroyed s"
    using alive_not_destroyed [OF c ws] st by (cases "workers s ! i = W_gone") (auto simp: worker_step_def)
  have "\<exists>xs'. memory_ok xs' s' \<and> account_ok ts xs' s' \<and> control_ok n xs' s'"
  proof (cases "workers s ! i")
    case W_pick
    show ?thesis
    proof (cases xs)
      case Nil
      with move_ok [OF mem acc c ws] st W_pick len show ?thesis by blast
    next
      case (Cons x ys)
      with pick_ok [of s x ys ts n us vs] m mem acc c ws W_pick len st show ?thesis by fastforce
    qed
  next
    case (W_run x)
    with run_ok [OF mem acc c, of us x vs] ws len st show ?thesis by fastforce
  next
    case (W_free x)
    with free_ok [OF mem acc c, of us x vs] ws len st show ?thesis by fastforce
  qed (use move_ok [OF mem acc c ws] st len nd in \<open>auto simp: worker_step_def split: if_splits\<close>)
  then obtain xs' where xs': "memory_ok xs' s'" "account_ok ts xs' s'" "control_ok n xs' s'" by blast
  have "workers s ! i = W_pick \<Longrightarrow> queue_head (pool s) \<noteq> None \<or> finish (pool s)"
    using c i queue_nodes_headD [OF mem] by (auto simp: control_ok_def dest!: nth_mem)
  then have "mutex_ok s'"
    using mutex_worker_step [OF m i st nd] xs'(1) by (simp add: memory_ok_def)
  with xs' show ?thesis by (blast intro: pool_invI)
qed

lemma spurious_inv:
  assumes inv: "pool_inv n ts s" and i: "i < length (workers s)" "workers s ! i = W_wait"
  shows "pool_inv n ts (set_worker i W_woken s)"
proof -
  let ?s = "set_worker i W_woken s"
  obtain xs where m: "mutex_ok s" and mem: "memory_ok xs s" and acc: "account_ok ts xs s"
    and c: "control_ok n xs s" using inv by (auto simp: pool_inv_def)
  obtain us vs where ws: "workers s = us @ W_wait # vs" and len: "length us = i"
    using worker_split [OF i(1)] i(2) by metis
  then have ws': "workers ?s = us @ W_woken # vs" by auto
  have "mutex_ok ?s" using i by (intro mutex_keep [OF m, of i W_woken]) auto
  moreover have "memory_ok xs ?s \<and> account_ok ts xs ?s" using ws ws' by (intro quiet_ok [OF mem acc]) auto
  moreover have "control_ok n xs ?s" using control_move [OF c ws, of ?s W_woken] ws' by simp
  ultimately show ?thesis by (blast intro: pool_invI)
qed

section \<open>The steps of the client\<close>

lemma client_move_control:
  assumes "control_ok n xs s" "workers s' = workers s" "n_threads (pool s') = n_threads (pool s)"
    "finish (pool s') = finish (pool s)" "finished (client s') = finished (client s)"
    "joined n (client s') = 0" "destroyed s' = destroyed s" "client s' \<noteq> C_done" "client s \<noteq> C_done"
    "xs' \<noteq> [] \<and> W_wait \<in> set (workers s) \<Longrightarrow> \<exists>ts. client s' = C_broadcast ts"
    "\<And>w. w \<in> set (workers s) \<Longrightarrow> worker_ok (finish (pool s)) xs w \<Longrightarrow> worker_ok (finish (pool s)) xs' w"
  shows "control_ok n xs' s'"
  using assms by (auto simp: control_ok_def)

text \<open>\<open>tpool_add\<close> links the new task.\<close>

lemma link_inv:
  assumes inv: "pool_inv n ts s" and cl: "client s = C_link f a rest" and x: "heap (pool s) x = None"
    and st: "client_step x s = Some s'"
  shows "pool_inv n ts s'"
proof -
  obtain xs where m: "mutex_ok s" and mem: "memory_ok xs s" and acc: "account_ok ts xs s"
    and c: "control_ok n xs s" using inv by (auto simp: pool_inv_def)
  obtain p' where p': "add_task x f a (pool s) = Inr p'" "queue_nodes p' (xs @ [x])"
    "task_at p' = (task_at (pool s))(x := (f, a))" "dom (heap p') = insert x (dom (heap (pool s)))"
    "n_threads p' = n_threads (pool s)" "finish p' = finish (pool s)"
    using add_task_nodes [of "pool s" xs x f a] mem x by (auto simp: memory_ok_def)
  have s': "s' = s\<lparr>pool := p', added := added s @ [(f, a)], client := C_broadcast rest\<rparr>"
    using st cl p'(1) by (simp add: client_step_def)
  have new: "x \<notin> set xs" "x \<notin> set (jobs (workers s))" using mem x by (auto simp: memory_ok_def)
  then have "x \<notin> set (runs (workers s))" using runs_jobs by blast
  then have "account_ok ts (xs @ [x]) s'"
    using acc new cl p'(3) by (simp add: account_ok_def s')
  moreover have "memory_ok (xs @ [x]) s'" using mem new p'(2,4) by (auto simp: memory_ok_def s')
  moreover have "mutex_ok s'" using m cl by (simp add: mutex_ok_def s')
  moreover have "control_ok n (xs @ [x]) s'"
  proof (rule client_move_control [OF c])
    fix w assume w: "w \<in> set (workers s)" "worker_ok (finish (pool s)) xs w"
    have "\<not> finish (pool s)" using c cl by (simp add: control_ok_def)
    moreover have "\<not> holds w" using mutex_client [OF m] cl w(1) by simp
    ultimately show "worker_ok (finish (pool s)) (xs @ [x]) w" using w(2) by (cases w) auto
  qed (use cl p' in \<open>auto simp: s'\<close>)
  ultimately show ?thesis by (blast intro: pool_invI)
qed

lemma client_next_simps [simp]:
  "pending (client_next ts) = ts" "client_holds (client_next ts) = False" "finished (client_next ts) = False"
  "joined n (client_next ts) = 0" "client_next ts \<noteq> C_done" "C_done \<noteq> client_next ts"
  by (cases ts rule: client_next.cases; simp)+

text \<open>The other steps of the client.\<close>

lemma client_quiet:
  assumes mem: "memory_ok xs s" and acc: "account_ok ts xs s"
    and st: "client_step x s = Some s'" and cl: "\<And>f a us. client s \<noteq> C_link f a us"
  shows "memory_ok xs s' \<and> account_ok ts xs s'"
  by (rule quiet_ok [OF mem acc]) (use st cl in \<open>auto simp: client_step_def split: client_pc.splits if_splits\<close>)

lemma client_mutex:
  assumes m: "mutex_ok s" and st: "client_step x s = Some s'" and cl: "\<And>f a us. client s \<noteq> C_link f a us"
  shows "mutex_ok s'"
  using m st cl by (auto simp: client_step_def mutex_ok_def split: client_pc.splits if_splits)

lemma client_control:
  assumes mem: "memory_ok xs s" and c: "control_ok n xs s"
    and st: "client_step x s = Some s'" and cl: "\<And>f a us. client s \<noteq> C_link f a us"
  shows "control_ok n xs s'"
proof (cases "client s")
  case (C_lock f a us)
  with c st show ?thesis by (auto simp: client_step_def control_ok_def split: if_splits)
next
  case (C_broadcast us)
  with c st show ?thesis by (auto simp: client_step_def control_ok_def)
next
  case (C_unlock us)
  with c st show ?thesis by (auto simp: client_step_def control_ok_def)
next
  case C_finish
  have "worker_ok True xs w" if "worker_ok False xs w" for w using that by (cases w) auto
  with C_finish c st show ?thesis by (auto simp: client_step_def control_ok_def)
next
  case C_wake
  with c st show ?thesis by (auto simp: client_step_def control_ok_def)
next
  case (C_join i)
  with c st show ?thesis
    by (auto simp: client_step_def control_ok_def take_Suc_conv_app_nth split: if_splits)
next
  case C_destroy
  with c st show ?thesis by (auto simp: client_step_def control_ok_def)
qed (use st cl in \<open>auto simp: client_step_def\<close>)

lemma client_step_inv:
  assumes inv: "pool_inv n ts s" and x: "heap (pool s) x = None" and st: "client_step x s = Some s'"
  shows "pool_inv n ts s'"
proof (cases "\<exists>f a us. client s = C_link f a us")
  case True
  then show ?thesis using link_inv [OF inv _ x st] by blast
next
  case False
  then have cl: "\<And>f a us. client s \<noteq> C_link f a us" by blast
  obtain xs where "mutex_ok s" "memory_ok xs s" "account_ok ts xs s" "control_ok n xs s"
    using inv by (auto simp: pool_inv_def)
  then show ?thesis
    using client_quiet [OF _ _ st cl] client_mutex [OF _ st cl] client_control [OF _ _ st cl] pool_invI by blast
qed

section \<open>Every reachable state is good\<close>

lemma pool_step_inv: "pool_step sp s s' \<Longrightarrow> pool_inv n ts s \<Longrightarrow> pool_inv n ts s'"
  by (induction rule: pool_step.induct) (blast intro: worker_step_inv client_step_inv spurious_inv)+

lemma pool_start_inv: "pool_inv n ts (pool_start n ts)"
proof (rule pool_invI)
  show "mutex_ok (pool_start n ts)" by (simp add: mutex_ok_def pool_start_def)
  show "memory_ok [] (pool_start n ts)"
    using queue_nodes_init [of n] by (simp add: memory_ok_def pool_start_def tpool_init_def)
  show "account_ok ts [] (pool_start n ts)" by (simp add: account_ok_def pool_start_def)
  show "control_ok n [] (pool_start n ts)" by (simp add: control_ok_def pool_start_def tpool_init_def)
qed

interpretation pool: invariant_system "\<lambda>s. s = pool_start n ts" "pool_step sp" "pool_inv n ts" for n ts sp
  by unfold_locales (auto intro: pool_start_inv pool_step_inv)

end
