(* ===== verification/Pool_Progress.thy ===== *)
theory Pool_Progress
  imports Pool_Correct
begin

text \<open>
  Progress of the thread pool. Without spurious wake-ups every execution ends: \<open>pool_work\<close> bounds the
  number of steps that are left. A state without a step is either the end of \<open>tpool_destroy\<close> or a
  lost wake-up, in which \<open>tpool_wait\<close> joins a worker that waits for a broadcast nobody sends. With
  spurious wake-ups every state has a way to the end.
\<close>

section \<open>States without a step\<close>

lemma stuck_worker:
  assumes "\<not> destroyed s" "worker_step i s = None"
  shows "workers s ! i \<in> {W_wait, W_gone} \<or> workers s ! i \<in> {W_lock, W_woken} \<and> mlock s \<noteq> None"
  using assms by (auto simp: worker_step_def split: worker_pc.splits if_splits sum.splits prod.splits)

lemma stuck_client:
  assumes "client_step x s = None"
  shows "client s = C_done \<or> (\<exists>k. client s = C_join k \<and> k < n_threads (pool s) \<and> workers s ! k \<noteq> W_gone) \<or>
    (\<exists>f a us. client s = C_lock f a us) \<and> mlock s \<noteq> None"
  using assms by (auto simp: client_step_def split: client_pc.splits if_splits sum.splits)

text \<open>The client is done, or \<open>tpool_wait\<close> waits for a worker that waits itself.\<close>

definition lost_wakeup :: "psys \<Rightarrow> bool" where
  "lost_wakeup s \<longleftrightarrow> (\<exists>k < length (workers s). client s = C_join k \<and> workers s ! k = W_wait) \<and>
     mlock s = None \<and> (\<forall>w \<in> set (workers s). w = W_wait \<or> w = W_gone)"

lemma free_address_inv: "pool_inv n ts s \<Longrightarrow> \<exists>x. heap (pool s) x = None"
  by (rule free_address) (auto simp: pool_inv_def memory_ok_def)

lemma stuck_state:
  assumes inv: "pool_inv n ts s" and stuck: "\<nexists>t. pool_step sp s t"
  shows "client s = C_done \<or> lost_wakeup s"
proof -
  obtain xs where m: "mutex_ok s" and c: "control_ok n xs s" using inv by (auto simp: pool_inv_def)
  obtain x where "heap (pool s) x = None" using free_address_inv [OF inv] by blast
  then have "client_step x s = None" using stuck client by (metis not_None_eq)
  then have cl: "client s = C_done \<or> (\<exists>k. client s = C_join k \<and> k < n \<and> workers s ! k \<noteq> W_gone) \<or>
    (\<exists>f a us. client s = C_lock f a us) \<and> mlock s \<noteq> None"
    using stuck_client [of x s] c by (simp add: control_ok_def)
  show ?thesis
  proof (cases "client s = C_done")
    case False
    then have nd: "\<not> destroyed s" using c by (simp add: control_ok_def)
    have w: "workers s ! i \<in> {W_wait, W_gone} \<or> workers s ! i \<in> {W_lock, W_woken} \<and> mlock s \<noteq> None"
      if "i < length (workers s)" for i
      using stuck_worker [OF nd] stuck worker [OF that] by (metis not_None_eq)
    have free: "mlock s = None"
    proof (rule ccontr)
      assume "mlock s \<noteq> None"
      then consider i where "mlock s = Some (Worker i)" | "mlock s = Some Client" by (metis holder.exhaust not_None_eq)
      then show False
      proof cases
        case 1
        then have "i < length (workers s)" "holds (workers s ! i)" using m by (auto simp: mutex_ok_def)
        with w show False by fastforce
      next
        case 2
        then have "client_holds (client s)" using m by (simp add: mutex_ok_def)
        with cl show False by auto
      qed
    qed
    with cl False obtain k where k: "client s = C_join k" "k < length (workers s)" "workers s ! k \<noteq> W_gone"
      using c by (auto simp: control_ok_def)
    have "v = W_wait \<or> v = W_gone" if v: "v \<in> set (workers s)" for v
    proof -
      obtain i where "i < length (workers s)" "workers s ! i = v" using v by (auto simp: in_set_conv_nth)
      with w [of i] free show ?thesis by auto
    qed
    with k w [OF k(2)] free show ?thesis by (auto simp: lost_wakeup_def)
  qed simp
qed

text \<open>In both cases the tasks are done, if there was a worker to do them.\<close>

lemma all_gone_done:
  assumes "control_ok n xs s" "client s = C_done" "w \<in> set (workers s)"
  shows "w = W_gone"
  using assms by (auto simp: control_ok_def)

lemma no_runs: "\<forall>w \<in> set ws. w = W_wait \<or> w = W_gone \<Longrightarrow> runs ws = [] \<and> jobs ws = []"
  by (induction ws) auto

lemma final_executed:
  assumes inv: "pool_inv n ts s" and fin: "client s = C_done \<or> lost_wakeup s" and n: "n > 0"
  shows "mset (executed s) = mset ts \<and> taken s = ts \<and> heap (pool s) = (\<lambda>_. None) \<and> \<not> broken s"
proof -
  obtain xs where mem: "memory_ok xs s" and acc: "account_ok ts xs s" and c: "control_ok n xs s"
    using inv by (auto simp: pool_inv_def)
  have ws: "\<forall>w \<in> set (workers s). w = W_wait \<or> w = W_gone"
    using fin all_gone_done [OF c] by (auto simp: lost_wakeup_def)
  have xs: "xs = []"
  proof (cases "client s = C_done")
    case True
    have "workers s ! 0 \<in> set (workers s)" using c n by (simp add: control_ok_def)
    with all_gone_done [OF c True] have "W_gone \<in> set (workers s)" by metis
    then show ?thesis using c by (auto simp: control_ok_def)
  next
    case False
    with fin have "W_wait \<in> set (workers s)" "\<nexists>us. client s = C_broadcast us"
      by (auto simp: lost_wakeup_def dest: nth_mem)
    then show ?thesis using c by (auto simp: control_ok_def)
  qed
  have "pending (client s) = []" using fin by (auto simp: lost_wakeup_def)
  with acc xs no_runs [OF ws] have "mset (executed s) = mset ts" "taken s = ts"
    by (auto simp: account_ok_def)
  moreover have "dom (heap (pool s)) = {}" "\<not> broken s" using mem xs no_runs [OF ws] by (auto simp: memory_ok_def)
  ultimately show ?thesis by auto
qed

section \<open>Termination\<close>

text \<open>The calls of \<open>pthread_cond_broadcast\<close> that are still to come: by the client, by a worker for the
  task it is busy with and for its exit. Each of them may send all the waiting workers round the
  loop again, which takes at most \<open>9\<close> steps of each; \<open>rank\<close> and \<open>client_rank\<close> count the other steps.\<close>

fun client_calls :: "client_pc \<Rightarrow> nat" where
  "client_calls (C_lock f a ts) = length ts + 2"
| "client_calls (C_link f a ts) = length ts + 2"
| "client_calls (C_broadcast ts) = length ts + 2"
| "client_calls (C_unlock ts) = length ts + 1"
| "client_calls C_finish = 1"
| "client_calls C_wake = 1"
| "client_calls _ = 0"

fun worker_calls :: "worker_pc \<Rightarrow> nat" where
  "worker_calls (W_run x) = 2"
| "worker_calls (W_free x) = 2"
| "worker_calls W_broadcast = 2"
| "worker_calls W_gone = 0"
| "worker_calls _ = 1"

fun rank :: "worker_pc \<Rightarrow> nat" where
  "rank W_lock = 9"
| "rank W_woken = 9"
| "rank W_test = 8"
| "rank W_pick = 7"
| "rank W_prewait = 7"
| "rank (W_run x) = 6"
| "rank (W_free x) = 5"
| "rank W_broadcast = 4"
| "rank W_exit = 3"
| "rank W_wait = 0"
| "rank W_gone = 0"

fun client_rank :: "nat \<Rightarrow> client_pc \<Rightarrow> nat" where
  "client_rank n (C_lock f a ts) = n + 8 + 4 * length ts"
| "client_rank n (C_link f a ts) = n + 7 + 4 * length ts"
| "client_rank n (C_broadcast ts) = n + 6 + 4 * length ts"
| "client_rank n (C_unlock ts) = n + 5 + 4 * length ts"
| "client_rank n C_finish = n + 4"
| "client_rank n C_wake = n + 3"
| "client_rank n (C_join i) = n - i + 2"
| "client_rank n C_destroy = 1"
| "client_rank n C_done = 0"

definition calls :: "psys \<Rightarrow> nat" where
  "calls s = client_calls (client s) + length (pending (client s)) + (length (added s) - length (taken s)) +
     sum_list (map worker_calls (workers s))"

definition pool_work :: "psys \<Rightarrow> nat" where
  "pool_work s = calls s * (9 * length (workers s) + 10) + sum_list (map rank (workers s)) +
     client_rank (length (workers s)) (client s)"

lemma wake_calls [simp]: "worker_calls (wake w) = worker_calls w"
  by (cases w) (simp_all add: wake_def)

lemma wake_sum: "sum_list (map rank (map wake ws)) \<le> sum_list (map rank ws) + 9 * length ws"
proof (induction ws)
  case (Cons w ws)
  then show ?case by (cases w) (simp_all add: wake_def)
qed simp

lemma wake_calls_sum [simp]: "sum_list (map (worker_calls \<circ> wake) ws) = sum_list (map worker_calls ws)"
  by (induction ws) simp_all

text \<open>A step with a broadcast pays for it with one of the calls; a step without one moves on.\<close>

lemma work_call:
  assumes "calls s' < calls s" "length (workers s') = length (workers s)"
    "sum_list (map rank (workers s')) + client_rank (length (workers s)) (client s')
       < sum_list (map rank (workers s)) + client_rank (length (workers s)) (client s) + (9 * length (workers s) + 10)"
  shows "pool_work s' < pool_work s"
proof -
  have "(calls s' + 1) * (9 * length (workers s) + 10) \<le> calls s * (9 * length (workers s) + 10)"
    using assms(1) by (intro mult_le_mono1) simp
  then show ?thesis using assms(2,3) by (simp add: pool_work_def)
qed

lemma work_move:
  assumes "calls s' \<le> calls s" "length (workers s') = length (workers s)"
    "sum_list (map rank (workers s')) + client_rank (length (workers s)) (client s')
       < sum_list (map rank (workers s)) + client_rank (length (workers s)) (client s)"
  shows "pool_work s' < pool_work s"
proof -
  have "calls s' * (9 * length (workers s) + 10) \<le> calls s * (9 * length (workers s) + 10)"
    using assms(1) by (rule mult_le_mono1)
  then show ?thesis using assms(2,3) unfolding pool_work_def assms(2) by linarith
qed

lemma work_worker:
  assumes ws: "workers s = us @ w # vs" and ws': "workers s' = us @ w' # vs" and cl: "client s' = client s"
    and "worker_calls w' + (length (added s') - length (taken s'))
      \<le> worker_calls w + (length (added s) - length (taken s))" "rank w' < rank w"
  shows "pool_work s' < pool_work s"
  by (rule work_move) (use assms in \<open>simp_all add: calls_def\<close>)

lemma work_broadcast:
  assumes ws: "workers s = us @ w # vs" and ws': "workers s' = map wake us @ w' # map wake vs"
    and cl: "client s' = client s" "added s' = added s" "taken s' = taken s"
    and w: "worker_calls w' < worker_calls w" "rank w' \<le> rank w + 9"
  shows "pool_work s' < pool_work s"
  by (rule work_call) (use assms wake_sum [of us] wake_sum [of vs] in \<open>simp_all add: calls_def\<close>)

lemma worker_step_work:
  assumes inv: "pool_inv n ts s" and i: "i < length (workers s)" and st: "worker_step i s = Some s'"
  shows "pool_work s' < pool_work s"
proof -
  obtain xs where mem: "memory_ok xs s" and acc: "account_ok ts xs s" and c: "control_ok n xs s"
    using inv by (auto simp: pool_inv_def)
  obtain us vs where ws: "workers s = us @ workers s ! i # vs" and len: "length us = i"
    using worker_split [OF i] by blast
  define w where "w = workers s ! i"
  have ws: "workers s = us @ w # vs" using ws w_def by simp
  have nth: "(us @ v # vs) ! i = v" for v using len by auto
  have upd: "(us @ v # vs)[i := u] = us @ u # vs" for u v using len by auto
  have wupd: "(map wake us @ v # map wake vs)[i := u] = map wake us @ u # map wake vs" for u v
    using len list_update_length [of "map wake us" v "map wake vs" u] by simp
  have nd: "\<not> destroyed s"
    using alive_not_destroyed [OF c ws] st ws nth by (cases "w = W_gone") (auto simp: worker_step_def)
  have nb: "\<not> broken s'" using worker_step_inv [OF inv i st] by (auto simp: pool_inv_def memory_ok_def)
  have head: "queue_head (pool s) = None \<longleftrightarrow> xs = []" by (rule queue_nodes_headD [OF mem])
  have wo: "worker_ok (finish (pool s)) xs w" using c ws by (auto simp: control_ok_def)
  have len_added: "length (added s) = length (taken s) + length xs" using acc by (simp add: account_ok_def)
  note step = st [unfolded worker_step_def] nd nb head wo ws nth upd wupd
  show ?thesis
  proof (cases w)
    case W_lock
    then show ?thesis using step by (intro work_worker [OF ws, of s' W_test]) (auto split: if_splits)
  next
    case W_woken
    then show ?thesis using step by (intro work_worker [OF ws, of s' W_test]) (auto split: if_splits)
  next
    case W_test
    then show ?thesis
      using step by (intro work_worker [OF ws, of s' "workers s' ! i"]) (auto simp: i split: if_splits)
  next
    case W_prewait
    then show ?thesis using step by (intro work_worker [OF ws, of s' W_wait]) auto
  next
    case W_pick
    then show ?thesis using step len_added
      by (intro work_worker [OF ws, of s' "workers s' ! i"]) (auto simp: i split: if_splits sum.splits)
  next
    case (W_run x)
    then show ?thesis using step by (intro work_worker [OF ws, of s' "W_free x"]) (auto split: if_splits)
  next
    case (W_free x)
    then show ?thesis using step by (intro work_worker [OF ws, of s' W_broadcast]) (auto split: sum.splits)
  next
    case W_broadcast
    then show ?thesis using step by (intro work_broadcast [OF ws, of s' W_lock]) auto
  next
    case W_exit
    then show ?thesis using step by (intro work_broadcast [OF ws, of s' W_gone]) auto
  qed (use step in simp_all)
qed

lemma client_next_calls [simp]:
  "client_calls (client_next ts) = length ts + 1" "client_rank n (client_next ts) = n + 4 + 4 * length ts"
  by (cases ts rule: client_next.cases; simp)+

lemma client_step_work:
  assumes inv: "pool_inv n ts s" and x: "heap (pool s) x = None" and st: "client_step x s = Some s'"
  shows "pool_work s' < pool_work s"
proof -
  obtain xs where mem: "memory_ok xs s" and acc: "account_ok ts xs s" and c: "control_ok n xs s"
    using inv by (auto simp: pool_inv_def)
  have nb: "\<not> broken s'" using client_step_inv [OF inv x st] by (auto simp: pool_inv_def memory_ok_def)
  have len: "length (taken s) \<le> length (added s)" using acc by (simp add: account_ok_def)
  have n: "length (workers s) = n_threads (pool s)" using c by (simp add: control_ok_def)
  note step = st [unfolded client_step_def] nb n len
  show ?thesis
  proof (cases "client s")
    case (C_broadcast us)
    with step wake_sum [of "workers s"] show ?thesis by (intro work_call) (auto simp: calls_def)
  next
    case C_wake
    with step wake_sum [of "workers s"] show ?thesis by (intro work_call) (auto simp: calls_def)
  qed (use step in \<open>auto intro!: work_move simp: calls_def split: if_splits sum.splits\<close>)
qed

lemma pool_step_work: "pool_step False s s' \<Longrightarrow> pool_inv n ts s \<Longrightarrow> pool_work s' < pool_work s"
  by (induction rule: pool_step.induct) (blast intro: worker_step_work client_step_work)+

interpretation pool: terminating_system "\<lambda>s. s = pool_start n ts" "pool_step False" "pool_inv n ts" pool_work
  for n ts
  by unfold_locales (blast intro: pool_step_work)

lemma start_work: "pool_work (pool_start n ts) =
   (2 * length ts + 1 + n) * (9 * n + 10) + 9 * n + (n + 4 + 4 * length ts)"
proof -
  have "sum_list (map worker_calls (replicate n W_lock)) = n" "sum_list (map rank (replicate n W_lock)) = 9 * n"
    by (induction n) simp_all
  then show ?thesis by (simp add: pool_work_def calls_def pool_start_def)
qed

section \<open>The way out of a lost wake-up\<close>

lemma step_mono: "pool_step False s t \<Longrightarrow> pool_step sp s t"
  by (induction rule: pool_step.induct) (auto intro: pool_step.intros)

lemma steps_mono: "(pool_step False)\<^sup>*\<^sup>* s t \<Longrightarrow> (pool_step sp)\<^sup>*\<^sup>* s t"
  by (induction rule: rtranclp_induct) (auto intro: step_mono rtranclp.rtrancl_into_rtrancl)

text \<open>A worker that is gone stays so.\<close>

definition alive :: "psys \<Rightarrow> nat set" where
  "alive s = {i. i < length (workers s) \<and> workers s ! i \<noteq> W_gone}"

lemma alive_set:
  assumes "workers s ! i \<noteq> W_gone" "workers t = (workers s)[i := w] \<or> workers t = (map wake (workers s))[i := w]"
  shows "alive t \<subseteq> alive s"
proof
  fix j assume "j \<in> alive t"
  then show "j \<in> alive s" using assms by (cases "j = i") (auto simp: alive_def)
qed

lemma worker_step_shape:
  assumes "worker_step i s = Some t" "i < length (workers s)"
  shows "workers t = (workers s)[i := workers t ! i] \<or> workers t = (map wake (workers s))[i := workers t ! i]"
  by (cases "workers s ! i")
    (use assms in \<open>auto simp: worker_step_def list_update_same_conv [THEN iffD2, symmetric] split: if_splits sum.splits prod.splits\<close>)

lemma worker_step_alive: "worker_step i s = Some t \<Longrightarrow> i < length (workers s) \<Longrightarrow> alive t \<subseteq> alive s"
  by (rule alive_set [OF _ worker_step_shape]) (auto simp: worker_step_def)

lemma client_step_alive: "client_step x s = Some t \<Longrightarrow> alive t = alive s"
  by (auto simp: client_step_def alive_def split: client_pc.splits if_splits sum.splits)

lemma pool_step_alive: "pool_step sp s t \<Longrightarrow> alive t \<subseteq> alive s"
proof (induction rule: pool_step.induct)
  case (spurious i s)
  then show ?case using alive_set [of s i _ W_woken] by simp
qed (use worker_step_alive client_step_alive in blast)+

lemma pool_steps_alive: "(pool_step sp)\<^sup>*\<^sup>* s t \<Longrightarrow> alive t \<subseteq> alive s"
  by (induction rule: rtranclp_induct) (auto dest: pool_step_alive)

text \<open>A waiting worker that wakes up after \<open>finish\<close> is set leaves.\<close>

lemma escape_one:
  assumes inv: "pool_inv n ts s" and lost: "lost_wakeup s"
  shows "\<exists>t. (pool_step True)\<^sup>*\<^sup>* s t \<and> alive t \<subset> alive s"
proof -
  obtain xs where mem: "memory_ok xs s" and c: "control_ok n xs s" using inv by (auto simp: pool_inv_def)
  obtain k where k: "k < length (workers s)" "client s = C_join k" "workers s ! k = W_wait" "mlock s = None"
    using lost by (auto simp: lost_wakeup_def)
  have f: "finish (pool s)" "\<not> destroyed s" using c k(2) by (simp_all add: control_ok_def)
  have "W_wait \<in> set (workers s)" using k(1,3) nth_mem by metis
  then have "xs = []" using c k(2) by (auto simp: control_ok_def)
  then have q: "queue_head (pool s) = None" using queue_nodes_headD [OF mem] by simp
  define s1 where "s1 = set_worker k W_woken s"
  define s2 where "s2 = set_worker k W_test (s1\<lparr>mlock := Some (Worker k)\<rparr>)"
  define s3 where "s3 = set_worker k W_pick s2"
  define s4 where "s4 = set_worker k W_exit (s3\<lparr>mlock := None\<rparr>)"
  define s5 where "s5 = set_worker k W_gone (broadcast s4)"
  note defs = s1_def s2_def s3_def s4_def s5_def
  have st1: "pool_step True s s1" unfolding s1_def by (rule spurious) (use k in simp_all)
  have st2: "pool_step True s1 s2"
    by (rule worker [of k]) (use k f in \<open>simp_all add: worker_step_def defs\<close>)
  have st3: "pool_step True s2 s3"
    by (rule worker [of k]) (use k f in \<open>simp_all add: worker_step_def defs\<close>)
  have st4: "pool_step True s3 s4"
    by (rule worker [of k]) (use k f q in \<open>simp_all add: worker_step_def defs\<close>)
  have st5: "pool_step True s4 s5"
    by (rule worker [of k]) (use k f q in \<open>simp_all add: worker_step_def defs\<close>)
  have "(pool_step True)\<^sup>*\<^sup>* s1 s5"
    using st2 st3 st4 st5 rtranclp.rtrancl_into_rtrancl [of "pool_step True" s1] by blast
  with st1 have st: "(pool_step True)\<^sup>*\<^sup>* s s5" by (rule converse_rtranclp_into_rtranclp)
  have "k \<in> alive s" "k \<notin> alive s5" using k by (simp_all add: alive_def defs)
  with pool_steps_alive [OF st] st show ?thesis by blast
qed

lemma spurious_exit:
  assumes "pool_inv n ts s"
  shows "\<exists>t. (pool_step True)\<^sup>*\<^sup>* s t \<and> client t = C_done"
  using assms
proof (induction "card (alive s)" arbitrary: s rule: less_induct)
  case less
  obtain t where t: "(pool_step False)\<^sup>*\<^sup>* s t" "\<nexists>u. pool_step False t u"
    using pool.reaches_final [OF less.prems] by blast
  have inv: "pool_inv n ts t" by (rule pool.steps_inv [OF t(1) less.prems])
  have st: "(pool_step True)\<^sup>*\<^sup>* s t" by (rule steps_mono [OF t(1)])
  from stuck_state [OF inv t(2)] show ?case
  proof
    assume "lost_wakeup t"
    then obtain u where u: "(pool_step True)\<^sup>*\<^sup>* t u" "alive u \<subset> alive t" using escape_one [OF inv] by blast
    have "finite (alive s)" by (simp add: alive_def)
    then have "card (alive u) < card (alive s)"
      using u(2) pool_steps_alive [OF st] by (intro psubset_card_mono) auto
    moreover have "pool_inv n ts u" by (rule pool.steps_inv [OF u(1) inv])
    ultimately obtain v where "(pool_step True)\<^sup>*\<^sup>* u v" "client v = C_done" using less.hyps by blast
    with st u(1) show ?case by (meson rtranclp_trans)
  qed (use st in blast)
qed

end
