(* ===== verification/Pool_Theorems.thy ===== *)
theory Pool_Theorems
  imports Pool_Progress "HOL-Library.Sublist"
begin

text \<open>
  The correctness of the thread pool of \<open>HW4\<close>: the queue implements a list, every task is executed
  exactly once and in the order of the queue, no memory is misused or lost, executions end; and the
  wake-up that \<open>tpool_wait\<close> can lose.
\<close>

abbreviation pool_reach :: "bool \<Rightarrow> nat \<Rightarrow> (nat \<times> nat) list \<Rightarrow> psys \<Rightarrow> bool" where
  "pool_reach sp n ts s \<equiv> (pool_step sp)\<^sup>*\<^sup>* (pool_start n ts) s"

lemma reach_inv: "pool_reach sp n ts s \<Longrightarrow> pool_inv n ts s"
  by (rule pool.reachable_inv [OF refl])

section \<open>A concrete execution\<close>

text \<open>A schedule is a list of the threads that move, \<open>Inr i\<close> for a worker, \<open>Inl x\<close> for the client,
  for whom \<open>malloc\<close> has the address \<open>x\<close>.\<close>

fun run_schedule :: "(addr + nat) list \<Rightarrow> psys \<Rightarrow> psys option" where
  "run_schedule [] s = Some s"
| "run_schedule (Inl x # is) s =
     (if heap (pool s) x = None
      then (case client_step x s of None \<Rightarrow> None | Some t \<Rightarrow> run_schedule is t) else None)"
| "run_schedule (Inr i # is) s =
     (if i < length (workers s)
      then (case worker_step i s of None \<Rightarrow> None | Some t \<Rightarrow> run_schedule is t) else None)"

lemma run_schedule_relpowp: "run_schedule is s = Some t \<Longrightarrow> (pool_step sp ^^ length is) s t"
proof (induction "is" s rule: run_schedule.induct)
  case (2 x "is" s)
  then obtain u where u: "client_step x s = Some u" "heap (pool s) x = None" "run_schedule is u = Some t"
    by (auto split: if_splits option.splits)
  with 2 have "pool_step sp s u" "(pool_step sp ^^ length is) u t" by (auto intro: client)
  then show ?case by (metis length_Cons relpowp_Suc_I2)
next
  case (3 i "is" s)
  then obtain u where u: "worker_step i s = Some u" "i < length (workers s)" "run_schedule is u = Some t"
    by (auto split: if_splits option.splits)
  with 3 have "pool_step sp s u" "(pool_step sp ^^ length is) u t" by (auto intro: worker)
  then show ?case by (metis length_Cons relpowp_Suc_I2)
qed simp

lemma run_schedule_steps: "run_schedule is s = Some t \<Longrightarrow> (pool_step sp)\<^sup>*\<^sup>* s t"
  by (rule relpowp_imp_rtranclp [OF run_schedule_relpowp])

text \<open>One worker and one task: the client adds the task, the worker runs it, both leave.\<close>

definition demo_schedule :: "(addr + nat) list" where
  "demo_schedule = [Inl 0, Inl 0, Inl 1, Inl 1] @ replicate 6 (Inr 0) @ [Inl 0, Inl 0] @ replicate 4 (Inr 0) @
     [Inl 0, Inl 0, Inl 0]"

definition demo_end :: psys where
  "demo_end = \<lparr>pool = (tpool_init 1)\<lparr>queue_tail := Some 0, finish := True\<rparr>, mlock = None,
     workers = [W_gone], client = C_done, added = [(7, 9)], taken = [(7, 9)], executed = [(7, 9)],
     destroyed = True, broken = False\<rparr>"

lemmas pool_run_simps = pool_start_def tpool_init_def client_step_def worker_step_def add_task_def
  new_task_def take_task_def get_next_def set_next_def free_task_def set_worker_def broadcast_def wake_def
  task_at_def numeral_eq_Suc

lemma empty_heap_upd [simp]: "(\<lambda>_. None)(x := None) = (\<lambda>_. None)"
  by auto

lemma demo_run: "run_schedule demo_schedule (pool_start 1 [(7, 9)]) = Some demo_end"
  by (simp add: demo_schedule_def demo_end_def pool_run_simps Let_def)

lemma demo_reach: "pool_reach sp 1 [(7, 9)] demo_end"
  by (rule run_schedule_steps [OF demo_run])

section \<open>The queue\<close>

text \<open>C30 (refinement). The linked queue implements a list of tasks: on a queue that stands for \<open>ts\<close>,
  linking a new task at any address \<open>malloc\<close> may return yields one that stands for \<open>ts\<close> with the task at
  its end, \<open>queue_head\<close> is \<open>NULL\<close> exactly for the empty list, and taking the first node yields the
  first task and a queue for the others; no pointer is wild in any case (one node, several nodes, a
  stale \<open>queue_tail\<close>). So tasks come out in the order in which they went in: any further tasks \<open>us\<close> can be
  added, and taking all of them yields \<open>ts\<close>, then \<open>us\<close>, and leaves the queue empty.\<close>

theorem queue_refines_list:
  assumes "queue_tasks p ts"
  shows "(\<forall>x f a. heap p x = None \<longrightarrow> (\<exists>p'. add_task x f a p = Inr p' \<and> queue_tasks p' (ts @ [(f, a)]))) \<and>
    (queue_head p = None \<longleftrightarrow> ts = []) \<and>
    (\<forall>t us. ts = t # us \<longrightarrow> (\<exists>x p'. take_task p = Inr (x, p') \<and> task_at p' x = t \<and> queue_tasks p' us)) \<and>
    (\<forall>us. (\<exists>q. pool_queue.adds p us q) \<and> (\<forall>q. pool_queue.adds p us q \<longrightarrow>
       (\<exists>q'. pool_queue.take_n (length (ts @ us)) q = Inr (ts @ us, q') \<and> queue_head q' = None)))"
proof -
  have add: "\<exists>p'. add_task x f a p = Inr p' \<and> queue_tasks p' (ts @ [(f, a)])" if "heap p x = None" for x f a
    using pool_queue.add_rep [OF assms that, of "(f, a)"] by (simp add: add_pair_def)
  have take: "\<exists>x p'. take_task p = Inr (x, p') \<and> task_at p' x = t \<and> queue_tasks p' us"
    if ts: "ts = t # us" for t us
  proof -
    obtain p' where p': "take_pair p = Inr (t, p')" "queue_tasks p' us"
      using pool_queue.tk_rep [OF assms [unfolded ts]] by blast
    then show ?thesis by (auto simp: take_pair_def split: sum.splits prod.splits)
  qed
  have head: "queue_head p = None \<longleftrightarrow> ts = []" using pool_queue.nonempty_rep [OF assms] by blast
  have fifo: "\<exists>q'. pool_queue.take_n (length (ts @ us)) q = Inr (ts @ us, q') \<and> queue_head q' = None"
    if "pool_queue.adds p us q" for us q
    using pool_queue.fifo [OF assms that] by simp
  show ?thesis
    by (intro conjI allI impI add take head fifo pool_queue.adds_total [OF assms])
qed

lemma queue_tasks_init: "queue_tasks (tpool_init n) []"
  using queue_nodes_init [of n] by (simp add: queue_tasks_def) (simp add: tpool_init_def)

theorem queue_refines_list_witness:
  "\<exists>p'. add_task 4 7 9 (tpool_init 1) = Inr p' \<and> queue_tasks p' [(7, 9)]"
proof -
  have "heap (tpool_init 1) 4 = None" by (simp add: tpool_init_def)
  with queue_refines_list [OF queue_tasks_init [of 1]] show ?thesis by (metis append_Nil)
qed

section \<open>Safety\<close>

text \<open>C31 (safety). Every task is executed exactly once. In every reachable state, with or without
  spurious wake-ups, the tasks taken so far are a prefix of those the client adds, in the order in
  which it adds them, and no task has been executed twice or without having been added; when
  \<open>tpool_destroy\<close> has returned and there was a worker, all of them have been executed and every task
  node has been freed.\<close>

theorem tasks_executed_once:
  assumes "pool_reach sp n ts s"
  shows "prefix (taken s) ts \<and> mset (executed s) \<subseteq># mset (taken s) \<and>
    (client s = C_done \<and> n > 0 \<longrightarrow>
       mset (executed s) = mset ts \<and> taken s = ts \<and> heap (pool s) = (\<lambda>_. None))"
proof -
  have inv: "pool_inv n ts s" by (rule reach_inv [OF assms])
  then obtain xs where "account_ok ts xs s" by (auto simp: pool_inv_def)
  then have "prefix (taken s) ts" "mset (executed s) \<subseteq># mset (taken s)" by (auto simp: account_ok_def)
  with final_executed [OF inv] show ?thesis by blast
qed

theorem tasks_executed_once_witness:
  "mset (executed demo_end) = mset [(7, 9)] \<and> heap (pool demo_end) = (\<lambda>_. None)"
  using tasks_executed_once [OF demo_reach [of False]] by (simp add: demo_end_def)

text \<open>C32 (type). The heap is well formed in every reachable state: no access has been wild, the queue
  is a list of distinct nodes that ends at \<open>queue_tail\<close>, every allocated node is in the queue or is held
  by exactly one worker, so that none is lost, freed twice or used after it was freed; and when
  \<open>tpool_destroy\<close> frees the pool no worker is left to use it.\<close>

theorem pool_memory_well_formed:
  assumes "pool_reach sp n ts s"
  shows "\<not> broken s \<and> (destroyed s \<longrightarrow> set (workers s) \<subseteq> {W_gone}) \<and>
    (\<exists>xs. queue_nodes (pool s) xs \<and> distinct (xs @ jobs (workers s)) \<and>
       dom (heap (pool s)) = set xs \<union> set (jobs (workers s)))"
proof -
  obtain xs where m: "memory_ok xs s" and c: "control_ok n xs s"
    using reach_inv [OF assms] by (auto simp: pool_inv_def)
  have "destroyed s \<longrightarrow> set (workers s) \<subseteq> {W_gone}" using c by (auto simp: control_ok_def)
  with m show ?thesis by (auto simp: memory_ok_def)
qed

theorem pool_memory_well_formed_witness:
  "\<exists>xs. queue_nodes (pool demo_end) xs \<and> distinct (xs @ jobs (workers demo_end))"
  using pool_memory_well_formed [OF demo_reach [of False]] by blast

text \<open>C33 (safety). The mutex protects the queue: in every reachable state at most one thread is between
  \<open>pthread_mutex_lock\<close> and its release, be it a worker or the client; a worker past the waiting loop has
  a task or the order to finish, so that the two branches after the loop are exhaustive and no worker
  goes round the outer loop with the mutex still held; and a worker leaves only when \<open>finish\<close> is set and
  the queue is empty.\<close>

theorem pool_mutual_exclusion:
  assumes "pool_reach sp n ts s"
  shows "(\<forall>i j. i < n \<and> j < n \<and> holds (workers s ! i) \<and> holds (workers s ! j) \<longrightarrow> i = j) \<and>
    (client_holds (client s) \<longrightarrow> (\<forall>i < n. \<not> holds (workers s ! i))) \<and>
    (\<forall>i < n. workers s ! i = W_pick \<longrightarrow> queue_head (pool s) \<noteq> None \<or> finish (pool s)) \<and>
    (\<forall>i < n. workers s ! i = W_exit \<longrightarrow> queue_head (pool s) = None \<and> finish (pool s))"
proof -
  obtain xs where m: "mutex_ok s" and mem: "memory_ok xs s" and c: "control_ok n xs s"
    using reach_inv [OF assms] by (auto simp: pool_inv_def)
  have n: "length (workers s) = n" using c by (simp add: control_ok_def)
  have ok: "worker_ok (finish (pool s)) xs (workers s ! i)" if "i < n" for i
    using c that n nth_mem [of i "workers s"] unfolding control_ok_def by blast
  have head: "queue_head (pool s) = None \<longleftrightarrow> xs = []" by (rule queue_nodes_headD [OF mem])
  have "\<forall>i < n. workers s ! i = W_pick \<longrightarrow> queue_head (pool s) \<noteq> None \<or> finish (pool s)"
    using ok head by (metis worker_ok.simps(2))
  moreover have "\<forall>i < n. workers s ! i = W_exit \<longrightarrow> queue_head (pool s) = None \<and> finish (pool s)"
    using ok head by (metis worker_ok.simps(3))
  ultimately show ?thesis using m n by (auto simp: mutex_ok_def)
qed

theorem pool_mutual_exclusion_witness:
  "\<exists>s. pool_reach False 1 [] s \<and> workers s = [W_test] \<and> (client_holds (client s) \<longrightarrow> \<not> holds W_test)"
proof -
  obtain s where s: "run_schedule [Inr 0] (pool_start 1 []) = Some s" "workers s = [W_test]"
    by (simp add: pool_run_simps)
  have r: "pool_reach False 1 [] s" by (rule run_schedule_steps [OF s(1)])
  from pool_mutual_exclusion [OF r] s(2) r show ?thesis by auto
qed

section \<open>Progress\<close>

text \<open>C34 (termination). As long as no wake-up is spurious, every execution of the pool ends, whatever the
  interleaving: with \<open>n\<close> workers and \<open>m\<close> tasks it has at most
  \<open>(2m + n + 1)(9n + 10) + 10n + 4m + 4\<close> steps.\<close>

theorem pool_executions_end:
  assumes "(pool_step False ^^ k) (pool_start n ts) s"
  shows "k \<le> (2 * length ts + n + 1) * (9 * n + 10) + 10 * n + 4 * length ts + 4"
proof -
  have "k \<le> pool_work (pool_start n ts)" by (rule pool.bounded_executions [OF refl assms])
  then show ?thesis by (simp add: start_work algebra_simps)
qed

theorem pool_executions_end_witness: "length demo_schedule \<le> (94 :: nat)"
proof -
  have "length demo_schedule \<le> (2 * length [(7 :: nat, 9 :: nat)] + 1 + 1) * (9 * 1 + 10) + 10 * 1 +
      4 * length [(7 :: nat, 9 :: nat)] + 4"
    by (rule pool_executions_end [OF run_schedule_relpowp [OF demo_run]])
  then show ?thesis by simp
qed

text \<open>C35 (safety). The only deadlock is a lost wake-up: in a reachable state from which no thread can
  go on, either \<open>tpool_destroy\<close> has returned, or \<open>tpool_wait\<close> joins a worker that waits on the condition
  variable while all the others wait too or are gone. Even then every task has been executed, if
  there is a worker.\<close>

theorem pool_deadlocks:
  assumes "pool_reach sp n ts s" and "\<nexists>t. pool_step sp s t"
  shows "(client s = C_done \<or> lost_wakeup s) \<and> (n > 0 \<longrightarrow> mset (executed s) = mset ts)"
proof -
  have inv: "pool_inv n ts s" by (rule reach_inv [OF assms(1)])
  have "client s = C_done \<or> lost_wakeup s" by (rule stuck_state [OF inv assms(2)])
  with final_executed [OF inv this] show ?thesis by blast
qed

text \<open>A state in which the client is done and every worker gone has no step.\<close>

lemma done_stuck:
  assumes "client s = C_done" "\<forall>i < length (workers s). workers s ! i = W_gone"
  shows "\<nexists>t. pool_step sp s t"
  using assms by (auto elim!: pool_step.cases simp: worker_step_def client_step_def)

theorem pool_deadlocks_witness: "client demo_end = C_done \<and> mset (executed demo_end) = mset [(7, 9)]"
proof -
  have st: "\<nexists>t. pool_step False demo_end t" by (rule done_stuck) (simp_all add: demo_end_def)
  from pool_deadlocks [OF demo_reach st] show ?thesis by (simp add: demo_end_def)
qed

text \<open>C36 (error). \<open>tpool_wait\<close> sets \<open>finish\<close> and broadcasts without the mutex, so the wake-up can get lost: the
  only worker finds the queue empty and \<open>finish\<close> still false, then \<open>tpool_wait\<close> sets it and broadcasts,
  then the worker starts to wait. If no wake-up is spurious nobody ever moves again, and
  \<open>tpool_wait\<close> never returns.\<close>

theorem wakeup_can_be_lost:
  "\<exists>s. pool_reach False 1 [] s \<and> lost_wakeup s \<and> finish (pool s) \<and> (\<nexists>t. pool_step False s t)"
proof -
  define s where "s = (pool_start 1 [])\<lparr>pool := (tpool_init 1)\<lparr>finish := True\<rparr>, workers := [W_wait], client := C_join 0\<rparr>"
  have "run_schedule [Inr 0, Inr 0, Inl 0, Inl 0, Inr 0] (pool_start 1 []) = Some s"
    by (simp add: pool_run_simps s_def)
  then have "pool_reach False 1 [] s" by (rule run_schedule_steps)
  moreover have "lost_wakeup s" "finish (pool s)"
    by (simp_all add: lost_wakeup_def s_def pool_start_def)
  moreover have "\<nexists>t. pool_step False s t"
    by (auto elim!: pool_step.cases simp: worker_step_def client_step_def s_def pool_start_def tpool_init_def)
  ultimately show ?thesis by blast
qed

text \<open>C37 (liveness). If wake-ups may be spurious, no deadlock is final: from every reachable state the
  pool can get to the end of \<open>tpool_destroy\<close>, with all tasks executed if there is a worker.\<close>

theorem pool_can_finish:
  assumes "pool_reach True n ts s"
  shows "\<exists>t. (pool_step True)\<^sup>*\<^sup>* s t \<and> client t = C_done \<and> (n > 0 \<longrightarrow> mset (executed t) = mset ts)"
proof -
  have inv: "pool_inv n ts s" by (rule reach_inv [OF assms])
  obtain t where t: "(pool_step True)\<^sup>*\<^sup>* s t" "client t = C_done" using spurious_exit [OF inv] by blast
  have "pool_inv n ts t" by (rule pool.steps_inv [OF t(1) inv])
  with final_executed t show ?thesis by blast
qed

theorem pool_can_finish_witness:
  "\<exists>t. pool_reach True 2 [(1, 2), (3, 4)] t \<and> client t = C_done \<and> mset (executed t) = mset [(1, 2), (3, 4)]"
  using pool_can_finish [of 2 "[(1, 2), (3, 4)]" "pool_start 2 [(1, 2), (3, 4)]"] by simp

section \<open>One worker\<close>

text \<open>With one worker the task it runs is the last one taken.\<close>

definition serial_ok :: "psys \<Rightarrow> bool" where
  "serial_ok s \<longleftrightarrow> taken s = executed s @ map (task_at (pool s)) (runs (workers s))"

lemma serial_worker:
  assumes inv: "pool_inv 1 ts s" and ser: "serial_ok s" and i: "i < length (workers s)"
    and st: "worker_step i s = Some s'"
  shows "serial_ok s'"
proof -
  obtain xs where mem: "memory_ok xs s" and c: "control_ok 1 xs s" using inv by (auto simp: pool_inv_def)
  have len: "length (workers s) = 1" using c by (simp add: control_ok_def)
  then obtain w where w: "workers s = [w]" by (cases "workers s") auto
  have i0: "i = 0" using i len by simp
  have nb: "\<not> broken s'" using worker_step_inv [OF inv i st] by (auto simp: pool_inv_def memory_ok_def)
  show ?thesis
  proof (cases w)
    case W_pick
    have "take_task p = Inr (x, p') \<Longrightarrow> heap p' = heap p" for p x p'
      by (auto simp: take_task_def split: sum.splits)
    then show ?thesis using ser st W_pick w i0 nb
      by (auto simp: worker_step_def serial_ok_def task_at_def split: if_splits sum.splits)
  qed (use ser st w i0 nb in \<open>auto simp: worker_step_def serial_ok_def split: if_splits sum.splits\<close>)
qed

lemma serial_client:
  assumes inv: "pool_inv n ts s" and ser: "serial_ok s" and x: "heap (pool s) x = None"
    and st: "client_step x s = Some s'"
  shows "serial_ok s'"
proof (cases "\<exists>f a us. client s = C_link f a us")
  case True
  then obtain f a us where cl: "client s = C_link f a us" by blast
  obtain xs where mem: "memory_ok xs s" using inv by (auto simp: pool_inv_def)
  obtain p' where p': "add_task x f a (pool s) = Inr p'" "task_at p' = (task_at (pool s))(x := (f, a))"
    using add_task_nodes [of "pool s" xs x f a] mem x by (auto simp: memory_ok_def)
  have "x \<notin> set (runs (workers s))" using mem x runs_jobs by (force simp: memory_ok_def)
  with ser st cl p' show ?thesis by (auto simp: client_step_def serial_ok_def)
next
  case False
  have "task_at (p\<lparr>finish := b\<rparr>) = task_at p" for p b by (simp add: task_at_def fun_eq_iff)
  with False ser st show ?thesis
    by (auto simp: client_step_def serial_ok_def split: client_pc.splits if_splits)
qed

lemma serial_step: "pool_step sp s s' \<Longrightarrow> pool_inv 1 ts s \<and> serial_ok s \<Longrightarrow> pool_inv 1 ts s' \<and> serial_ok s'"
proof (induction rule: pool_step.induct)
  case (spurious i s)
  then have "workers s = [W_wait]" "i = 0" by (auto simp: pool_inv_def control_ok_def length_Suc_conv)
  with spurious show ?case using spurious_inv [of 1 ts s i] by (simp add: serial_ok_def)
qed (use serial_worker worker_step_inv serial_client client_step_inv in blast)+

interpretation serial_pool: invariant_system "\<lambda>s. s = pool_start 1 ts" "pool_step sp"
    "\<lambda>s. pool_inv 1 ts s \<and> serial_ok s" for ts sp
proof
  show "s = pool_start 1 ts \<Longrightarrow> pool_inv 1 ts s \<and> serial_ok s" for s
    using pool_start_inv [of 1 ts] by (simp add: serial_ok_def pool_start_def)
qed (rule serial_step)

text \<open>C38 (equivalence). With one worker the pool is equivalent to calling the functions one after the
  other: in every reachable state the executed tasks are an initial part of the tasks in the order in
  which they were added, and all of them in this order when \<open>tpool_destroy\<close> has returned.\<close>

theorem one_worker_sequential:
  assumes "pool_reach sp 1 ts s"
  shows "prefix (executed s) ts \<and> (client s = C_done \<longrightarrow> executed s = ts)"
proof -
  have inv: "pool_inv 1 ts s" and ser: "serial_ok s" using serial_pool.reachable_inv [OF refl assms] by auto
  obtain xs where acc: "account_ok ts xs s" using inv by (auto simp: pool_inv_def)
  have "prefix (executed s) ts" using acc ser by (auto simp: account_ok_def serial_ok_def)
  moreover have "executed s = ts" if "client s = C_done"
  proof -
    have "taken s = ts" "mset (executed s) = mset ts" using final_executed [OF inv] that by auto
    then have "length (executed s) = length ts" by (metis size_mset)
    with \<open>prefix (executed s) ts\<close> show ?thesis by (auto simp: prefix_def)
  qed
  ultimately show ?thesis by blast
qed

theorem one_worker_sequential_witness: "executed demo_end = [(7, 9)]"
  using one_worker_sequential [OF demo_reach [of False]] by (simp add: demo_end_def)

end
