(* ===== verification/Pool_Bench.thy ===== *)
theory Pool_Bench
  imports Pool_Theorems
begin

text \<open>
  The benchmark of \<open>HW4/testcases/bench/main.c\<close> on top of the pool: the tasks all run \<open>Collatz\<close>, which counts in the
  global \<open>cn\<close> under the mutex \<open>cnm\<close> how many have been run. A call of \<open>Collatz\<close> is not one step: a worker that is in
  the call of a task goes through the iterations of its loop, the locking, the reading and the writing
  of \<open>cn\<close> and the unlocking one by one, interleaved with the other workers and the client.
\<close>

section \<open>The task\<close>

text \<open>The type \<open>LL\<close> is \<open>long long\<close>.\<close>

definition LL_MAX :: int where
  "LL_MAX = 2 ^ 63 - 1"

text \<open>Where a worker is in \<open>Collatz\<close>: at its begin, at the test of the loop with the values of \<open>x\<close> and \<open>cnt\<close>, after
  an overflow (which has no defined result), at \<open>pthread_mutex_lock\<close>, at the reading and the writing of \<open>cn\<close> in \<open>cn++\<close>,
  at \<open>pthread_mutex_unlock\<close>, at \<open>return\<close>.\<close>

datatype task_pc = T_call | T_loop int int | T_overflow | T_lock | T_read | T_write int | T_unlock | T_return

text \<open>One iteration.\<close>

definition Collatz_loop :: "int \<Rightarrow> int \<Rightarrow> task_pc" where
  "Collatz_loop x cnt =
     (if x = 1 then T_lock
      else if cnt = LL_MAX then T_overflow
      else if odd x then
        (if x * 3 + 1 > LL_MAX \<or> x * 3 + 1 < - LL_MAX - 1 then T_overflow
         else T_loop (x * 3 + 1) (cnt + 1))
      else T_loop (x div 2) (cnt + 1))"

text \<open>The pool with the globals of the benchmark; \<open>cnm\<close> is the worker that holds the mutex. \<open>tcalls\<close> has the place
  of each worker in \<open>Collatz\<close>, while it is in the call of a task.\<close>

record bench =
  bpool :: psys
  cn :: int
  cnm :: "nat option"
  tcalls :: "task_pc list"

definition set_call :: "nat \<Rightarrow> task_pc \<Rightarrow> bench \<Rightarrow> bench" where
  "set_call i c b = b\<lparr>tcalls := (tcalls b)[i := c]\<rparr>"

text \<open>One step of worker \<open>i\<close> in \<open>Collatz(&arg[a])\<close>; \<open>None\<close> when it is blocked, or about to return.\<close>

definition Collatz :: "int list \<Rightarrow> nat \<Rightarrow> nat \<Rightarrow> bench \<Rightarrow> bench option" where
  "Collatz arg a i b =
     (case tcalls b ! i of
        T_call \<Rightarrow> Some (set_call i (T_loop (arg ! a) 0) b)
      | T_loop x cnt \<Rightarrow> Some (set_call i (Collatz_loop x cnt) b)
      | T_overflow \<Rightarrow> None
      | T_lock \<Rightarrow> if cnm b = None then Some (set_call i T_read (b\<lparr>cnm := Some i\<rparr>)) else None
      | T_read \<Rightarrow> Some (set_call i (T_write (cn b)) b)
      | T_write v \<Rightarrow> Some (set_call i T_unlock (b\<lparr>cn := v + 1\<rparr>))
      | T_unlock \<Rightarrow> Some (set_call i T_return (b\<lparr>cnm := None\<rparr>))
      | T_return \<Rightarrow> None)"

section \<open>The program\<close>

text \<open>The arguments and the tasks of \<open>main\<close> for \<open>M\<close>, and the state after \<open>tpool_init\<close> for \<open>N\<close> and \<open>M\<close>. A negative \<open>N\<close> or
  \<open>M\<close> is no worker and no task, as for the loops of the code.\<close>

definition bench_arg :: "int \<Rightarrow> int list" where
  "bench_arg M = map (\<lambda>i. 0x10000000 + int i) [0..<nat M]"

definition bench_tasks :: "int \<Rightarrow> (nat \<times> nat) list" where
  "bench_tasks M = map (\<lambda>i. (0, i)) [0..<nat M]"

definition bench_main :: "int \<Rightarrow> int \<Rightarrow> bench" where
  "bench_main N M = \<lparr>bpool = pool_start (nat N) (bench_tasks M), cn = 0, cnm = None, tcalls = replicate (nat N) T_call\<rparr>"

text \<open>The final assertion.\<close>

definition bench_assert :: "int \<Rightarrow> bench \<Rightarrow> bool" where
  "bench_assert M b \<longleftrightarrow> cn b = M"

text \<open>A step of the program: of \<open>work\<close> outside the call of a task, of the task, of its return, of the client.\<close>

inductive bench_step :: "int list \<Rightarrow> bool \<Rightarrow> bench \<Rightarrow> bench \<Rightarrow> bool" for arg sp where
  in_work: "\<lbrakk>i < length (workers (bpool b)); \<forall>job. workers (bpool b) ! i \<noteq> W_run job;
             worker_step i (bpool b) = Some s'\<rbrakk> \<Longrightarrow> bench_step arg sp b (b\<lparr>bpool := s'\<rparr>)"
| in_task: "\<lbrakk>i < length (workers (bpool b)); workers (bpool b) ! i = W_run job;
             Collatz arg (snd (task_at (pool (bpool b)) job)) i b = Some b'\<rbrakk> \<Longrightarrow> bench_step arg sp b b'"
| return: "\<lbrakk>i < length (workers (bpool b)); workers (bpool b) ! i = W_run job; tcalls b ! i = T_return;
            worker_step i (bpool b) = Some s'\<rbrakk> \<Longrightarrow> bench_step arg sp b (set_call i T_call (b\<lparr>bpool := s'\<rparr>))"
| in_main: "\<lbrakk>heap (pool (bpool b)) x = None; client_step x (bpool b) = Some s'\<rbrakk>
            \<Longrightarrow> bench_step arg sp b (b\<lparr>bpool := s'\<rparr>)"
| wakeup: "\<lbrakk>sp; i < length (workers (bpool b)); workers (bpool b) ! i = W_wait\<rbrakk>
            \<Longrightarrow> bench_step arg sp b (b\<lparr>bpool := set_worker i W_woken (bpool b)\<rparr>)"

section \<open>The invariant\<close>

fun in_cnm :: "task_pc \<Rightarrow> bool" where
  "in_cnm T_read = True"
| "in_cnm (T_write v) = True"
| "in_cnm T_unlock = True"
| "in_cnm _ = False"

text \<open>A call that has counted already.\<close>

fun counted :: "task_pc \<Rightarrow> nat" where
  "counted T_unlock = 1"
| "counted T_return = 1"
| "counted _ = 0"

text \<open>The mutex \<open>cnm\<close> is held by the worker that is between locking and unlocking it, and what that worker has
  read is still the value of \<open>cn\<close>.\<close>

definition cnm_ok :: "bench \<Rightarrow> bool" where
  "cnm_ok b \<longleftrightarrow> (\<forall>i < length (tcalls b). in_cnm (tcalls b ! i) \<longleftrightarrow> cnm b = Some i) \<and>
     (\<forall>i < length (tcalls b). \<forall>v. tcalls b ! i = T_write v \<longrightarrow> v = cn b)"

definition bench_inv :: "nat \<Rightarrow> (nat \<times> nat) list \<Rightarrow> bench \<Rightarrow> bool" where
  "bench_inv n ts b \<longleftrightarrow> pool_inv n ts (bpool b) \<and> length (tcalls b) = n \<and> cnm_ok b \<and>
     (\<forall>i < n. tcalls b ! i \<noteq> T_call \<longrightarrow> (\<exists>job. workers (bpool b) ! i = W_run job)) \<and>
     cn b = int (length (executed (bpool b)) + sum_list (map counted (tcalls b))) \<and>
     (n = 0 \<longrightarrow> executed (bpool b) = [])"

lemma set_call_simps [simp]:
  "tcalls (set_call i c b) = (tcalls b)[i := c]" "bpool (set_call i c b) = bpool b"
  "cn (set_call i c b) = cn b" "cnm (set_call i c b) = cnm b"
  by (simp_all add: set_call_def)

lemma cnm_ok_pool [simp]: "cnm_ok (b\<lparr>bpool := s\<rparr>) = cnm_ok b"
  by (simp add: cnm_ok_def)

lemma Collatz_loop_shape [simp]:
  "\<not> in_cnm (Collatz_loop x cnt)" "counted (Collatz_loop x cnt) = 0" "Collatz_loop x cnt \<noteq> T_write v"
  by (simp_all add: Collatz_loop_def)

lemma counted_update:
  "i < length cs \<Longrightarrow> sum_list (map counted (cs[i := c])) + counted (cs ! i) = sum_list (map counted cs) + counted c"
  by (induction cs arbitrary: i) (auto split: nat.split simp: list_update.simps nth_Cons)

lemma Collatz_frame:
  assumes "Collatz arg a i b = Some b'"
  shows "\<exists>c. tcalls b' = (tcalls b)[i := c]" and "bpool b' = bpool b"
  using assms by (auto simp: Collatz_def split: task_pc.splits if_splits)

lemma Collatz_counts:
  assumes "Collatz arg a i b = Some b'" and "i < length (tcalls b)" and "cnm_ok b"
  shows "cn b' + int (sum_list (map counted (tcalls b))) = cn b + int (sum_list (map counted (tcalls b')))"
  using counted_update [OF assms(2), of T_return] counted_update [OF assms(2)] assms
  by (cases "tcalls b ! i") (auto simp: Collatz_def cnm_ok_def split: if_splits)

text \<open>What may happen to the mutex \<open>cnm\<close>.\<close>

lemma cnm_keep:
  assumes "cnm_ok b" "tcalls b' = (tcalls b)[i := c]" "in_cnm c = in_cnm (tcalls b ! i)" "cnm b' = cnm b"
    "cn b' = cn b \<or> in_cnm (tcalls b ! i)" "\<forall>v. c = T_write v \<longrightarrow> v = cn b'" "i < length (tcalls b)"
  shows "cnm_ok b'"
proof -
  have "v = cn b'" if "j < length (tcalls b)" "tcalls b' ! j = T_write v" for j v
  proof (cases "j = i")
    case False
    then have j: "tcalls b ! j = T_write v" using assms(2) that(2) by simp
    then have "v = cn b" "cnm b = Some j" using assms(1) that(1) by (auto simp: cnm_ok_def)
    moreover from this(2) False have "\<not> in_cnm (tcalls b ! i)" using assms(1,7) by (auto simp: cnm_ok_def)
    ultimately show ?thesis using assms(5) by simp
  qed (use assms that in auto)
  moreover have "in_cnm (tcalls b' ! j) \<longleftrightarrow> cnm b' = Some j" if "j < length (tcalls b)" for j
    using assms that by (cases "j = i") (auto simp: cnm_ok_def)
  ultimately show ?thesis using assms(2) by (simp add: cnm_ok_def)
qed

lemma cnm_get:
  assumes "cnm_ok b" "cnm b = None" "tcalls b' = (tcalls b)[i := T_read]" "cnm b' = Some i" "cn b' = cn b"
    "i < length (tcalls b)"
  shows "cnm_ok b'"
  using assms by (auto simp: cnm_ok_def nth_list_update)

lemma cnm_release:
  assumes "cnm_ok b" "in_cnm (tcalls b ! i)" "tcalls b' = (tcalls b)[i := T_return]" "cnm b' = None" "cn b' = cn b"
    "i < length (tcalls b)"
  shows "cnm_ok b'"
  using assms by (auto simp: cnm_ok_def nth_list_update)

lemma Collatz_cnm:
  assumes ok: "cnm_ok b" and st: "Collatz arg a i b = Some b'" and i: "i < length (tcalls b)"
  shows "cnm_ok b'"
proof (cases "tcalls b ! i")
  case T_lock
  with st have "cnm b = None" "tcalls b' = (tcalls b)[i := T_read]" "cnm b' = Some i" "cn b' = cn b"
    by (auto simp: Collatz_def split: if_splits)
  then show ?thesis by (rule cnm_get [OF ok _ _ _ _ i])
next
  case T_unlock
  with st have "tcalls b' = (tcalls b)[i := T_return]" "cnm b' = None" "cn b' = cn b"
    by (auto simp: Collatz_def)
  then show ?thesis using T_unlock by (intro cnm_release [OF ok _ _ _ _ i]) simp_all
next
  case (T_write v)
  with st i have "tcalls b' = (tcalls b)[i := T_unlock]" "cnm b' = cnm b" by (auto simp: Collatz_def)
  then show ?thesis using T_write i by (intro cnm_keep [OF ok, where c = T_unlock]) simp_all
next
  case T_read
  with st i have "tcalls b' = (tcalls b)[i := T_write (cn b)]" "cnm b' = cnm b" "cn b' = cn b"
    by (auto simp: Collatz_def)
  then show ?thesis using T_read i by (intro cnm_keep [OF ok, where c = "T_write (cn b)"]) simp_all
next
  case T_call
  with st i have "tcalls b' = (tcalls b)[i := T_loop (arg ! a) 0]" "cnm b' = cnm b" "cn b' = cn b"
    by (auto simp: Collatz_def)
  then show ?thesis using T_call i by (intro cnm_keep [OF ok, where c = "T_loop (arg ! a) 0"]) simp_all
next
  case (T_loop x cnt)
  with st i have "tcalls b' = (tcalls b)[i := Collatz_loop x cnt]" "cnm b' = cnm b" "cn b' = cn b"
    by (auto simp: Collatz_def)
  then show ?thesis using T_loop i by (intro cnm_keep [OF ok, where c = "Collatz_loop x cnt"]) simp_all
qed (use st in \<open>simp_all add: Collatz_def\<close>)

section \<open>The pool underneath\<close>

text \<open>Every step of the program is one of the pool, or leaves it alone.\<close>

lemma bench_pool_step:
  "bench_step arg sp b b' \<Longrightarrow> pool_step sp (bpool b) (bpool b') \<or> bpool b' = bpool b"
  by (induction rule: bench_step.induct)
    (auto intro: pool_step.intros dest: Collatz_frame(2))

text \<open>A worker in the call of a task stays there when others move, and only the return of a task
  counts as an execution.\<close>

lemma worker_step_others:
  assumes "worker_step i s = Some s'" "i < length (workers s)" "j \<noteq> i" "workers s ! j = W_run job" "j < length (workers s)"
  shows "workers s' ! j = W_run job"
proof -
  have "wake (workers s ! j) = W_run job" using assms(4) by (simp add: wake_def)
  moreover have "workers s' ! j = workers s ! j \<or> workers s' ! j = wake (workers s ! j)"
    using worker_step_shape [OF assms(1,2)] assms(3,5) by (metis nth_list_update_neq nth_map)
  ultimately show ?thesis using assms(4) by auto
qed

lemma worker_step_executed:
  assumes "worker_step i s = Some s'" "\<forall>job. workers s ! i \<noteq> W_run job"
  shows "executed s' = executed s"
  using assms by (auto simp: worker_step_def split: if_splits worker_pc.splits sum.splits prod.splits)

lemma client_step_workers:
  assumes "client_step x s = Some s'"
  shows "executed s' = executed s" and "workers s' = workers s \<or> workers s' = map wake (workers s)"
  using assms by (auto simp: client_step_def split: if_splits client_pc.splits sum.splits)

lemma client_step_run:
  assumes "client_step x s = Some s'" "workers s ! j = W_run job" "j < length (workers s)"
  shows "workers s' ! j = W_run job"
  using client_step_workers(2) [OF assms(1)] assms(2,3) by (auto simp: wake_def)

lemma run_executed:
  assumes "worker_step i s = Some s'" "workers s ! i = W_run job" "pool_inv n ts s" "i < length (workers s)"
  shows "executed s' = executed s @ [task_at (pool s) job]"
proof -
  obtain xs where mem: "memory_ok xs s" and c: "control_ok n xs s" using assms(3) by (auto simp: pool_inv_def)
  have "job \<in> set (jobs (workers s))"
    using nth_mem [OF assms(4)] assms(2) by (auto simp: jobs_def intro!: bexI [of _ "W_run job"])
  then have "heap (pool s) job \<noteq> None" using mem by (auto simp: memory_ok_def)
  moreover have "\<not> destroyed s"
    using all_gone_done [OF c _ nth_mem [OF assms(4)]] assms(2) c by (auto simp: control_ok_def)
  ultimately show ?thesis using assms(1,2) by (auto simp: worker_step_def)
qed

lemma pool_inv_workers: "pool_inv n ts s \<Longrightarrow> length (workers s) = n"
  by (auto simp: pool_inv_def control_ok_def)

lemma bench_inv_call:
  "bench_inv n ts b \<Longrightarrow> i < n \<Longrightarrow> tcalls b ! i \<noteq> T_call \<Longrightarrow> \<exists>job. workers (bpool b) ! i = W_run job"
  by (simp add: bench_inv_def)

lemma bench_step_inv: "bench_step arg sp b b' \<Longrightarrow> bench_inv n ts b \<Longrightarrow> bench_inv n ts b'"
proof (induction rule: bench_step.induct)
  case (in_work i b s')
  have inv: "pool_inv n ts (bpool b)" using in_work.prems by (simp add: bench_inv_def)
  have "pool_inv n ts s'" by (rule worker_step_inv [OF inv in_work(1,3)])
  moreover have "\<exists>job. workers s' ! j = W_run job" if j: "j < n" "tcalls b ! j \<noteq> T_call" for j
  proof -
    obtain job where "workers (bpool b) ! j = W_run job" using bench_inv_call [OF in_work.prems j] by blast
    with worker_step_others [OF in_work(3,1)] in_work(2) j(1) pool_inv_workers [OF inv] show ?thesis by metis
  qed
  ultimately show ?case
    using in_work.prems worker_step_executed [OF in_work(3,2)] by (simp add: bench_inv_def)
next
  case (in_task i b job b')
  have i: "i < length (tcalls b)" "cnm_ok b"
    using in_task.prems in_task(1) pool_inv_workers by (auto simp: bench_inv_def)
  obtain c where "tcalls b' = (tcalls b)[i := c]" using Collatz_frame(1) [OF in_task(3)] by blast
  then have "\<exists>job. workers (bpool b) ! j = W_run job" if "j < n" "tcalls b' ! j \<noteq> T_call" for j
    using bench_inv_call [OF in_task.prems that(1)] in_task(2) that(2) by (cases "j = i") auto
  with Collatz_cnm [OF i(2) in_task(3) i(1)] Collatz_counts [OF in_task(3) i] Collatz_frame [OF in_task(3)]
  show ?case using in_task.prems by (auto simp: bench_inv_def)
next
  case (return i b job s')
  have inv: "pool_inv n ts (bpool b)" and i: "i < length (tcalls b)" and ok: "cnm_ok b"
    using return.prems return(1) pool_inv_workers by (auto simp: bench_inv_def)
  have "pool_inv n ts s'" by (rule worker_step_inv [OF inv return(1,4)])
  moreover have "\<exists>job. workers s' ! j = W_run job" if j: "j < n" "(tcalls b)[i := T_call] ! j \<noteq> T_call" for j
  proof -
    have "j \<noteq> i" using j i by auto
    moreover from this obtain job where "workers (bpool b) ! j = W_run job"
      using bench_inv_call [OF return.prems j(1)] j(2) by auto
    ultimately show ?thesis
      using worker_step_others [OF return(4,1)] j(1) pool_inv_workers [OF inv] by metis
  qed
  moreover have "cnm_ok (set_call i T_call (b\<lparr>bpool := s'\<rparr>))"
    by (rule cnm_keep [OF ok, where c = T_call and i = i]) (use return(3) i in simp_all)
  moreover have "Suc (sum_list (map counted ((tcalls b)[i := T_call]))) = sum_list (map counted (tcalls b))"
    using counted_update [OF i, of T_call] return(3) by simp
  ultimately show ?case
    using return.prems run_executed [OF return(4,2) inv return(1)] i by (auto simp: bench_inv_def)
next
  case (in_main b x s')
  have inv: "pool_inv n ts (bpool b)" using in_main.prems by (simp add: bench_inv_def)
  have "pool_inv n ts s'" by (rule pool_step_inv [OF pool_step.client [OF in_main(1,2)] inv])
  moreover have "\<exists>job. workers s' ! j = W_run job" if "j < n" "tcalls b ! j \<noteq> T_call" for j
    using bench_inv_call [OF in_main.prems that] that(1) client_step_run [OF in_main(2)] pool_inv_workers [OF inv]
    by metis
  ultimately show ?case
    using in_main.prems client_step_workers(1) [OF in_main(2)] by (simp add: bench_inv_def)
next
  case (wakeup i b)
  have inv: "pool_inv n ts (bpool b)" using wakeup.prems by (simp add: bench_inv_def)
  have "pool_inv n ts (set_worker i W_woken (bpool b))"
    by (rule pool_step_inv [OF pool_step.spurious inv]) (use wakeup in simp_all)
  moreover have "\<exists>job. (workers (bpool b))[i := W_woken] ! j = W_run job" if "j < n" "tcalls b ! j \<noteq> T_call" for j
    using bench_inv_call [OF wakeup.prems that] wakeup(3) by (cases "j = i") auto
  ultimately show ?case using wakeup.prems by (simp add: bench_inv_def)
qed

lemma bench_main_inv: "bench_inv (nat N) (bench_tasks M) (bench_main N M)"
proof -
  have "sum_list (map counted (replicate n T_call)) = 0" for n by (induction n) simp_all
  then show ?thesis
    using pool_start_inv by (auto simp: bench_inv_def bench_main_def cnm_ok_def pool_start_def)
qed

interpretation bench: invariant_system "\<lambda>b. b = bench_main N M" "bench_step arg sp" "bench_inv (nat N) (bench_tasks M)"
  for N M arg sp
  by unfold_locales (auto intro: bench_main_inv bench_step_inv)

text \<open>At the end no call is under way, so that \<open>cn\<close> is the number of the tasks that were executed.\<close>

lemma bench_final:
  assumes "bench_inv n ts b" and "client (bpool b) = C_done"
  shows "cn b = int (length (executed (bpool b)))"
proof -
  obtain xs where c: "control_ok n xs (bpool b)" using assms(1) by (auto simp: bench_inv_def pool_inv_def)
  have n: "length (workers (bpool b)) = n" "length (tcalls b) = n"
    using assms(1) pool_inv_workers by (auto simp: bench_inv_def)
  have "tcalls b ! i = T_call" if "i < n" for i
    using all_gone_done [OF c assms(2)] nth_mem [of i "workers (bpool b)"] assms(1) that n
    by (fastforce simp: bench_inv_def)
  then have "tcalls b = replicate n T_call" using n by (simp add: list_eq_iff_nth_eq)
  then have "sum_list (map counted (tcalls b)) = 0" by (induction n) (simp_all add: map_replicate_const sum_list_replicate)
  then show ?thesis using assms(1) by (simp add: bench_inv_def)
qed

section \<open>Executions to the end\<close>

text \<open>The loop of \<open>Collatz\<close> comes to an end without an overflow; nobody knows whether it does so on every input.\<close>

inductive loop_ends :: "int \<Rightarrow> int \<Rightarrow> bool" where
  at_one: "loop_ends 1 cnt"
| iteration: "Collatz_loop x cnt = T_loop x' cnt' \<Longrightarrow> loop_ends x' cnt' \<Longrightarrow> loop_ends x cnt"

lemma loop_ends_power: "c + int k < LL_MAX \<Longrightarrow> loop_ends (2 ^ k) c"
proof (induction k arbitrary: c)
  case 0
  show ?case by (simp add: loop_ends.at_one)
next
  case (Suc k)
  have e: "even ((2::int) ^ Suc k)" "(2::int) ^ Suc k div 2 = 2 ^ k" by simp_all
  then have "(2::int) ^ Suc k \<noteq> 1" by (metis odd_one)
  with e Suc show ?case by (intro loop_ends.iteration [of _ c "2 ^ k" "c + 1"]) (auto simp: Collatz_loop_def)
qed

lemma set_call_again [simp]: "set_call i c (set_call i d b) = set_call i c b"
  by (simp add: set_call_def)

lemma task_steps:
  assumes "i < length (workers (bpool b))" "workers (bpool b) ! i = W_run job"
    and "Collatz arg (snd (task_at (pool (bpool b)) job)) i b = Some b'"
  shows "(bench_step arg sp)\<^sup>*\<^sup>* b b'"
  using bench_step.in_task [OF assms] by blast

lemma loop_steps:
  assumes "loop_ends x cnt" "i < length (workers (bpool b))" "workers (bpool b) ! i = W_run job"
    "i < length (tcalls b)"
  shows "(bench_step arg sp)\<^sup>*\<^sup>* (set_call i (T_loop x cnt) b) (set_call i T_lock b)"
  using assms(1)
proof (induction rule: loop_ends.induct)
  case (at_one cnt)
  show ?case
    by (rule task_steps [of i _ job]) (use assms in \<open>simp_all add: Collatz_def Collatz_loop_def\<close>)
next
  case (iteration x cnt x' cnt')
  have "(bench_step arg sp)\<^sup>*\<^sup>* (set_call i (T_loop x cnt) b) (set_call i (T_loop x' cnt') b)"
    by (rule task_steps [of i _ job]) (use assms iteration(1) in \<open>simp_all add: Collatz_def\<close>)
  then show ?case using iteration.IH by (rule rtranclp_trans)
qed

lemma call_steps:
  assumes i: "i < length (workers (bpool b))" "workers (bpool b) ! i = W_run job" "i < length (tcalls b)"
    and b: "tcalls b ! i = T_call" "cnm b = None" and ends: "loop_ends (arg ! snd (task_at (pool (bpool b)) job)) 0"
  shows "(bench_step arg sp)\<^sup>*\<^sup>* b (set_call i T_return (b\<lparr>cn := cn b + 1\<rparr>))"
proof -
  let ?x = "arg ! snd (task_at (pool (bpool b)) job)"
  let ?c = "b\<lparr>cnm := Some i\<rparr>" and ?d = "b\<lparr>cnm := Some i, cn := cn b + 1\<rparr>"
  have "(bench_step arg sp)\<^sup>*\<^sup>* b (set_call i (T_loop ?x 0) b)"
    by (rule task_steps [OF i(1,2)]) (simp add: Collatz_def b)
  also have "(bench_step arg sp)\<^sup>*\<^sup>* (set_call i (T_loop ?x 0) b) (set_call i T_lock b)"
    by (rule loop_steps [OF ends i])
  also have "(bench_step arg sp)\<^sup>*\<^sup>* (set_call i T_lock b) (set_call i T_read ?c)"
    by (rule task_steps [of i _ job]) (use i b in \<open>simp_all add: Collatz_def set_call_def\<close>)
  also have "(bench_step arg sp)\<^sup>*\<^sup>* (set_call i T_read ?c) (set_call i (T_write (cn b)) ?c)"
    by (rule task_steps [of i _ job]) (use i in \<open>simp_all add: Collatz_def set_call_def\<close>)
  also have "(bench_step arg sp)\<^sup>*\<^sup>* (set_call i (T_write (cn b)) ?c) (set_call i T_unlock ?d)"
    by (rule task_steps [of i _ job]) (use i in \<open>simp_all add: Collatz_def set_call_def\<close>)
  also have "(bench_step arg sp)\<^sup>*\<^sup>* (set_call i T_unlock ?d) (set_call i T_return (?d\<lparr>cnm := None\<rparr>))"
    by (rule task_steps [of i _ job]) (use i in \<open>simp_all add: Collatz_def set_call_def\<close>)
  also have "?d\<lparr>cnm := None\<rparr> = b\<lparr>cn := cn b + 1\<rparr>" using b(2) by simp
  finally show ?thesis .
qed

text \<open>No call is under way.\<close>

definition at_rest :: "bench \<Rightarrow> bool" where
  "at_rest b \<longleftrightarrow> cnm b = None \<and> (\<forall>c \<in> set (tcalls b). c = T_call)"

lemma run_task_in:
  assumes "pool_inv n ts s" "workers s ! i = W_run job" "i < length (workers s)"
  shows "task_at (pool s) job \<in> set ts"
proof -
  obtain xs where acc: "account_ok ts xs s" using assms(1) by (auto simp: pool_inv_def)
  have "job \<in> set (runs (workers s))"
    using nth_mem [OF assms(3)] assms(2) by (auto simp: runs_def intro!: bexI [of _ "W_run job"])
  then have "task_at (pool s) job \<in># mset (taken s)" using acc by (auto simp: account_ok_def)
  then show ?thesis using acc by (auto simp: account_ok_def)
qed

text \<open>Every step of the pool has a counterpart, if the loop ends on the arguments of the tasks.\<close>

lemma lift_step:
  assumes "pool_step sp (bpool b) s'" and "bench_inv n ts b" and "at_rest b"
    and "\<forall>(f, a) \<in> set ts. loop_ends (arg ! a) 0"
  shows "\<exists>b'. (bench_step arg sp)\<^sup>*\<^sup>* b b' \<and> bpool b' = s' \<and> at_rest b'"
  using assms(1)
proof cases
  case (worker i)
  have inv: "pool_inv n ts (bpool b)" and len: "length (tcalls b) = length (workers (bpool b))"
    using assms(2) pool_inv_workers by (auto simp: bench_inv_def)
  show ?thesis
  proof (cases "\<exists>job. workers (bpool b) ! i = W_run job")
    case False
    then show ?thesis using bench_step.in_work [of i b s' arg sp] worker assms(3)
      by (intro exI [of _ "b\<lparr>bpool := s'\<rparr>"]) (auto simp: at_rest_def)
  next
    case True
    then obtain job where job: "workers (bpool b) ! i = W_run job" by blast
    let ?b = "set_call i T_return (b\<lparr>cn := cn b + 1\<rparr>)"
    have q: "tcalls b ! i = T_call" "cnm b = None" using assms(3) worker(1) len by (simp_all add: at_rest_def)
    have ends: "loop_ends (arg ! snd (task_at (pool (bpool b)) job)) 0"
      using run_task_in [OF inv job worker(1)] assms(4) by (auto simp: case_prod_beta)
    have "(bench_step arg sp)\<^sup>*\<^sup>* b ?b"
      by (rule call_steps [OF worker(1) job _ q ends]) (use worker(1) len in simp)
    moreover have "bench_step arg sp ?b (set_call i T_call (?b\<lparr>bpool := s'\<rparr>))"
      by (rule bench_step.return [of i _ job]) (use worker job len in simp_all)
    ultimately have "(bench_step arg sp)\<^sup>*\<^sup>* b (set_call i T_call (?b\<lparr>bpool := s'\<rparr>))"
      by (rule rtranclp.rtrancl_into_rtrancl)
    moreover have "at_rest (set_call i T_call (?b\<lparr>bpool := s'\<rparr>))"
      using assms(3) set_update_subset_insert [of "tcalls b" i T_call] by (auto simp: at_rest_def set_call_def)
    ultimately show ?thesis by (intro exI [of _ "set_call i T_call (?b\<lparr>bpool := s'\<rparr>)"]) simp
  qed
next
  case (client x)
  then show ?thesis using bench_step.in_main [of b x s' arg sp] assms(3)
    by (intro exI [of _ "b\<lparr>bpool := s'\<rparr>"]) (auto simp: at_rest_def)
next
  case (spurious i)
  then show ?thesis using bench_step.wakeup [of sp i b arg] assms(3)
    by (intro exI [of _ "b\<lparr>bpool := s'\<rparr>"]) (auto simp: at_rest_def)
qed

lemma lift_steps:
  assumes "(pool_step sp)\<^sup>*\<^sup>* s s'" and "bpool b = s" "bench_inv n ts b" and "at_rest b"
    and "\<forall>(f, a) \<in> set ts. loop_ends (arg ! a) 0"
  shows "\<exists>b'. (bench_step arg sp)\<^sup>*\<^sup>* b b' \<and> bpool b' = s' \<and> at_rest b' \<and> bench_inv n ts b'"
  using assms(1)
proof (induction rule: rtranclp_induct)
  case base
  then show ?case using assms by blast
next
  case (step t u)
  then obtain b1 where b1: "(bench_step arg sp)\<^sup>*\<^sup>* b b1" "bpool b1 = t" "at_rest b1" "bench_inv n ts b1" by blast
  from lift_step [OF _ b1(4,3) assms(5), of sp u] step(2) b1(2) obtain b2 where
    b2: "(bench_step arg sp)\<^sup>*\<^sup>* b1 b2" "bpool b2 = u" "at_rest b2" by blast
  have "(bench_step arg sp)\<^sup>*\<^sup>* b b2" using b1(1) b2(1) by (rule rtranclp_trans)
  moreover have "bench_inv n ts b2" using b2(1) b1(4)
    by (induction rule: rtranclp_induct) (auto intro: bench_step_inv)
  ultimately show ?case using b2 by blast
qed

text \<open>The benchmark can get to its end.\<close>

lemma bench_can_finish:
  assumes "\<forall>i < nat M. loop_ends (0x10000000 + int i) 0"
  shows "\<exists>b. (bench_step (bench_arg M) True)\<^sup>*\<^sup>* (bench_main N M) b \<and> client (bpool b) = C_done"
proof -
  obtain s where s: "(pool_step True)\<^sup>*\<^sup>* (pool_start (nat N) (bench_tasks M)) s" "client s = C_done"
    using spurious_exit [OF pool_start_inv] by blast
  have "at_rest (bench_main N M)" by (simp add: at_rest_def bench_main_def)
  moreover have "\<forall>(f, a) \<in> set (bench_tasks M). loop_ends (bench_arg M ! a) 0"
    using assms by (auto simp: bench_tasks_def bench_arg_def)
  ultimately show ?thesis
    using lift_steps [OF s(1) _ bench_main_inv] s(2) by (fastforce simp: bench_main_def)
qed

end
