(* ===== verification/Pool_Drivers.thy ===== *)
theory Pool_Drivers
  imports Pool_Bench
begin

text \<open>
  The properties of the two programs of \<open>HW4/testcases\<close> that use the pool: \<open>bench/main.c\<close> (modelled in \<open>Pool_Bench\<close>), which
  counts how many of its tasks were executed and asserts the number, and \<open>sample/main.c\<close>, which prints a line per
  task. A task of the sample makes one call of \<open>printf\<close>, which is atomic; it is the step in which the pool
  executes the task.
\<close>

section \<open>The benchmark\<close>

text \<open>C39 (functional). When \<open>main\<close> of the benchmark gets to its assertion \<open>cn == M\<close>, it holds exactly for \<open>M = 0\<close>, or
  \<open>M > 0\<close> with at least one worker (\<open>N > 0\<close>): for every interleaving of the pool, the client and the single
  steps of \<open>Collatz\<close>, whose mutex \<open>cnm\<close> keeps the readings and writings of \<open>cn\<close> in \<open>cn++\<close> apart. (A call that overflows has no
  defined result and does not return here.)\<close>

theorem bench_assertion_holds:
  assumes "(bench_step (bench_arg M) sp)\<^sup>*\<^sup>* (bench_main N M) b" and "client (bpool b) = C_done"
  shows "bench_assert M b \<longleftrightarrow> M = 0 \<or> N > 0 \<and> M > 0"
proof -
  have inv: "bench_inv (nat N) (bench_tasks M) b" using bench.reachable_inv [OF refl assms(1)] .
  note cn = bench_final [OF inv assms(2)]
  show ?thesis
  proof (cases "N > 0")
    case True
    have "pool_inv (nat N) (bench_tasks M) (bpool b)" using inv by (simp add: bench_inv_def)
    then have "mset (executed (bpool b)) = mset (bench_tasks M)" using final_executed assms(2) True by simp
    then have "length (executed (bpool b)) = nat M"
      by (metis size_mset bench_tasks_def length_map length_upt diff_zero)
    with cn True show ?thesis by (auto simp: bench_assert_def)
  next
    case False
    then have "executed (bpool b) = []" using inv by (simp add: bench_inv_def)
    with cn False show ?thesis by (auto simp: bench_assert_def)
  qed
qed

theorem bench_assertion_holds_witness:
  "(\<exists>b. (bench_step (bench_arg 1) True)\<^sup>*\<^sup>* (bench_main 1 1) b \<and> client (bpool b) = C_done \<and> bench_assert 1 b) \<and>
   (\<exists>b. (bench_step (bench_arg 1) True)\<^sup>*\<^sup>* (bench_main 0 1) b \<and> client (bpool b) = C_done \<and> \<not> bench_assert 1 b)"
proof -
  have "loop_ends 268435456 0" using loop_ends_power [of 0 28] by (simp add: LL_MAX_def)
  then have ends: "\<forall>i < nat 1. loop_ends (0x10000000 + int i) 0" by simp
  obtain b c where b: "(bench_step (bench_arg 1) True)\<^sup>*\<^sup>* (bench_main 1 1) b" "client (bpool b) = C_done"
    and c: "(bench_step (bench_arg 1) True)\<^sup>*\<^sup>* (bench_main 0 1) c" "client (bpool c) = C_done"
    using bench_can_finish [OF ends, of 1] bench_can_finish [OF ends, of 0] by blast
  from bench_assertion_holds [OF b] bench_assertion_holds [OF c] b c show ?thesis by auto
qed

section \<open>The sample\<close>

definition func0 :: "int \<Rightarrow> string" where
  "func0 x = ''func 0: '' @ show_int x"

definition func1 :: "int \<Rightarrow> string" where
  "func1 x = ''func 1: '' @ show_int x"

definition sample_arg :: "int list" where
  "sample_arg = map int [0..<3]"

definition sample_tasks :: "(nat \<times> nat) list" where
  "sample_tasks = zip [0, 1, 0] [0..<3]"

definition sample_main :: psys where
  "sample_main = pool_start 2 sample_tasks"

text \<open>The lines printed by the executed tasks.\<close>

definition sample_line :: "nat \<times> nat \<Rightarrow> string" where
  "sample_line t = (case t of (f, a) \<Rightarrow> if f = 0 then func0 (sample_arg ! a) else func1 (sample_arg ! a))"

definition sample_out :: "psys \<Rightarrow> string list" where
  "sample_out s = map sample_line (executed s)"

text \<open>C40 (functional). The sample prints the lines of its three calls, each exactly once, in some
  order.\<close>

theorem sample_prints_all:
  assumes "(pool_step sp)\<^sup>*\<^sup>* sample_main s" and "client s = C_done"
  shows "mset (sample_out s) = {#''func 0: 0'', ''func 1: 1'', ''func 0: 2''#}"
proof -
  have inv: "pool_inv 2 sample_tasks s" using assms(1) by (intro reach_inv) (simp add: sample_main_def)
  have "mset (sample_out s) = image_mset sample_line (mset (executed s))" by (simp add: sample_out_def)
  also have "\<dots> = image_mset sample_line (mset sample_tasks)" using final_executed [OF inv] assms(2) by simp
  also have "\<dots> = mset (map sample_line sample_tasks)" by simp
  also have "map sample_line sample_tasks = [''func 0: 0'', ''func 1: 1'', ''func 0: 2'']" by code_simp
  finally show ?thesis by (simp add: add_mset_commute)
qed

theorem sample_prints_all_witness:
  "\<exists>s. (pool_step True)\<^sup>*\<^sup>* sample_main s \<and>
     mset (sample_out s) = {#''func 0: 0'', ''func 1: 1'', ''func 0: 2''#}"
proof -
  obtain s where s: "(pool_step True)\<^sup>*\<^sup>* sample_main s" "client s = C_done"
    using spurious_exit [OF pool_start_inv, of 2 sample_tasks] by (auto simp: sample_main_def)
  from sample_prints_all [OF s] s show ?thesis by blast
qed

end
