(* ===== verification/Spec2Isabelle.thy ===== *)
theory Spec2Isabelle
  imports Bulletin_Theorems Service_Theorems Threads_Theorems Pool_Drivers
begin

text \<open>
  \<^bold>\<open>Verification of the System Programming homeworks.\<close> The repository has four programs in C: a
  bulletin board with servers and clients (\<open>HW1\<close>), a tree of service processes (\<open>HW2\<close>), user-level
  threads with a bank (\<open>HW3\<close>), and a thread pool (\<open>HW4\<close>). They share no code; each has a group of
  theories, named after its prefix, on top of \<open>SP_Prelude\<close>.

  \<^bold>\<open>SP_Prelude.\<close> The memory of C objects as byte lists (\<open>strcpy\<close>, \<open>memcpy\<close>, \<open>scanf\<close> with \<open>%s\<close>, \<open>atoi\<close>,
  32-bit integers in little-endian order with explicit wrap-around), the type \<open>result\<close> of code whose
  behaviour may be undefined or never come back (\<open>fault\<close>), and two interfaces for state machines:
  \<open>invariant_system\<close> (an invariant that the initial states have and every step keeps holds in all
  reachable states) and \<open>terminating_system\<close> (with a measure besides, executions are bounded and
  end). The servers of \<open>HW1\<close>, the sessions and the exchange of \<open>HW2\<close>, the threads of \<open>HW3\<close>, the pool and the
  benchmark of \<open>HW4\<close> are interpretations.

  \<^bold>\<open>HW1, the bulletin board.\<close>
  \<^item> \<open>Record_Locks\<close>: \<open>fcntl\<close> with \<open>F_SETLK\<close> on byte ranges as \<open>lock_reg\<close> uses it; the interface
    \<open>slot_locks\<close> is what the server relies on.
  \<^item> \<open>Bulletin_Types\<close>: the structures \<open>record\<close>, \<open>message\<close>, \<open>io\<close> and their layout in memory.
  \<^item> \<open>Bulletin_Server\<close>: \<open>server.c\<close>, with \<open>find_available\<close>, a handler for each of \<open>!post\<close>, \<open>!exit\<close>, \<open>!pull\<close> and
    \<open>!finish\<close>, the poll iteration (\<open>server_iter\<close>) and the start-up. The handler of \<open>!post\<close> is divided at
    the point where another server can come in between (\<open>post_find\<close>, \<open>post_reply\<close>).
  \<^item> \<open>Bulletin_Client\<close>: \<open>client.c\<close>, the command loop over the words of the input, with a fault where \<open>scanf\<close>
    writes or \<open>printf\<close> reads past a structure.
  \<^item> \<open>Bulletin_Server_Correct\<close>: the invariant of a server and what each handler does on every branch.
  \<^item> \<open>Bulletin_System\<close>: lemmas on client and server together, and on the locks other processes see.
  \<^item> \<open>Bulletin_Races\<close>: several servers on one board file, interleaved at the single calls of \<open>fcntl\<close>
    (\<open>race_step\<close>): the handlers of \<open>!post\<close> and \<open>!pull\<close> with a program counter. A request that is not
    interrupted is the handler of \<open>Bulletin_Server\<close> (\<open>request_runs\<close>).
  \<^item> \<open>Bulletin_Theorems\<close>: a slot is found in cyclic order, posts are reserved, stored and shown as
    typed (client and server together), pulls show exactly the visible posts; in every interleaving
    two servers hand out the same slot only if one of them was refused the lock by the \<open>write_lock\<close> whose
    result the code ignores, which can happen; and what goes wrong if a name or a text is too long for
    its array.

  \<^bold>\<open>HW2, the service manager.\<close>
  \<^item> \<open>Service_Types\<close>: the struct \<open>command\<close>, the globals of a process and the tree of processes.
  \<^item> \<open>Service_Ops\<close>: \<open>service.c\<close>. A command written to a child and its reply are one recursive call on the
    subtree, since the parent blocks in between; \<open>serve\<close> is one iteration of the Manager's loop.
  \<^item> \<open>Service_Correct\<close>, \<open>Service_Exchange\<close>, \<open>Service_Manager\<close>: the tree invariant, and the refinement of spawn,
    kill and exchange to adding a leaf, pruning a subtree and swapping two secrets; the parser.
  \<^item> \<open>Service_Rendezvous\<close>: the two FIFOs of an exchange as a step relation of the two processes.
  \<^item> \<open>Service_Theorems\<close>: these facts for the whole tree, sessions, and the exchanges that block or
    claim success without a partner.

  \<^bold>\<open>HW3, the user-level threads.\<close>
  \<^item> \<open>Threads_Model\<close>: \<open>main.c\<close>, \<open>scheduler.c\<close>, \<open>threads.c\<close> and the macros of \<open>threadtools.h\<close>. A \<open>jmp_buf\<close> is the
    place where \<open>setjmp\<close> was called; a signal may arrive at any time and is delivered in
    \<open>thread_yield\<close> only, by the masks of \<open>init_signal\<close>, because both signals are blocked elsewhere.
  \<^item> \<open>Threads_Correct\<close>, \<open>Threads_Termination\<close>: the invariant of all reachable states and the measure.
  \<^item> \<open>Threads_Theorems\<close>: for every sequence of signals the program ends, each thread prints what its
    function demands, the bank operations take effect one after the other, the lock excludes, the
    balance is never negative unless an argument overflows an \<open>int\<close> (examples show that it is then), and
    the scheduler is round robin.

  \<^bold>\<open>HW4, the thread pool.\<close>
  \<^item> \<open>Pool_Model\<close>: \<open>my_pool.c\<close>. The task queue is a linked list on a heap, where \<open>malloc\<close> returns any free
    address; \<open>worker_step\<close> is \<open>work\<close>, \<open>client_step\<close> is \<open>tpool_add\<close>, \<open>tpool_wait\<close> and \<open>tpool_destroy\<close> in the
    order a client calls them, and \<open>pool_step\<close> interleaves them, with or without spurious wake-ups.
  \<^item> \<open>Pool_Queue\<close>: the interface \<open>task_queue\<close> and the linked list as its implementation.
  \<^item> \<open>Pool_Correct\<close>, \<open>Pool_Progress\<close>: the invariant (mutex, memory, tasks, program points), the states
    without a step, the measure, the way out of a lost wake-up.
  \<^item> \<open>Pool_Theorems\<close>: every task is executed exactly once and taken in order, no node is lost or used
    after it was freed, executions are bounded, the only deadlock is the lost wake-up of \<open>tpool_wait\<close>
    (which is reachable), one worker is a sequential program.
  \<^item> \<open>Pool_Bench\<close>: the benchmark of \<open>HW4/testcases\<close>, in which a call of \<open>Collatz\<close> takes a step for each
    iteration, for the locking of \<open>cnm\<close>, the reading and the writing of \<open>cn\<close> and the unlocking.
  \<^item> \<open>Pool_Drivers\<close>: the final assertion of the benchmark and the output of the sample program.

  \<^bold>\<open>Bounds.\<close> No function has fuel: loops over arrays are structural recursions, and the loops that run
  until something happens outside are step relations or runs over the inputs that arrive. The one
  loop that may not end is that of \<open>Collatz\<close>; its iterations are steps of \<open>bench_step\<close>, and an overflow in
  it ends the execution of that worker. An \<open>int\<close> is an integer with \<open>wrap32\<close> where it can overflow; the theorems on
  \<open>HW2\<close> assume that a name has fewer than 16 characters, as \<open>service_name\<close> does, that no process has
  more than the 40 children its array holds and that the tree has fewer than \<open>2^31\<close> processes; the one
  on the balance assumes that 500 and the deposits add up to less than \<open>2^31\<close> and that no argument is
  \<open>-2^31\<close>; those on the printed numbers assume that they fit an \<open>int\<close> (46 Fibonacci numbers, 12 factorials).

  \<^bold>\<open>Not modelled.\<close> Diagnostics on stderr; reads of a socket or a pipe that deliver part of a structure;
  end of file on the standard input of the \<open>HW1\<close> client (\<open>scanf\<close> waits when the words have run out); a service
  of \<open>HW2\<close> that is itself called Manager, from the moment it takes over standard input (\<open>Input_Taken\<close>);
  failures of \<open>fork\<close>, \<open>pipe2\<close>, \<open>execl\<close>, \<open>malloc\<close> (but for the server's request table) and
  \<open>pthread_create\<close>; the debugging function \<open>printcommand\<close> of \<open>service.c\<close>, which nobody calls; \<open>unbuffered_io\<close> of
  \<open>HW3\<close>; that \<open>longjmp\<close> there leads into functions that have returned, which C does not define, is
  taken to work as the program expects. The unsynchronised access to \<open>finish\<close> in \<open>HW4\<close> is an atomic
  read and write. The time measurement of the benchmark, the Python judge of \<open>HW1\<close>, the build files and
  the test data are left out.
\<close>

end
